(* ===== verification/Prelude.thy ===== *)
theory Prelude
  imports Main "HOL-Library.Word" "HOL-Library.Monad_Syntax"
begin

text \<open>
  The vocabulary the component theories share: the machine types of the program, the
  collections of rewrite rules the component proofs use, generic lemmas on words, lists
  and options, and the contract of a step relation with an invariant.
\<close>

unbundle bit_operations_syntax

section \<open>Machine types\<close>

text \<open>
  \<open>u64\<close> is \<^verbatim>\<open>uintptr_t\<close>, \<^verbatim>\<open>std::size_t\<close> and \<^verbatim>\<open>uint64_t\<close>; \<open>u32\<close> is \<^verbatim>\<open>uint32_t\<close>. Pointers
  are their \<open>u64\<close> representation and the null pointer is 0.
\<close>

type_synonym u64 = "64 word"
type_synonym u32 = "32 word"

abbreviation nullptr :: u64 where
  "nullptr \<equiv> 0"

section \<open>Collections\<close>

named_theorems align_simps \<open>rounding to powers of two, as natural numbers\<close>
named_theorems heap_simps \<open>loads and stores on an explicit heap\<close>
named_theorems step_intros \<open>introduction rules of step relations\<close>

section \<open>Words\<close>

lemma unat_word_less: "a < b \<longleftrightarrow> unat a < unat (b :: u64)"
  by (rule word_less_nat_alt)

lemma unat_word_le: "a \<le> b \<longleftrightarrow> unat a \<le> unat (b :: u64)"
  by (rule word_le_nat_alt)

lemma unat_lt_2p64 [simp]: "unat (a :: u64) < 18446744073709551616"
  using unsigned_less [of a] by simp

text \<open>Sums and differences that do not wrap.\<close>

lemma unat_add_no_wrap:
  "unat (a :: u64) + unat b < 2 ^ 64 \<Longrightarrow> unat (a + b) = unat a + unat b"
  by (simp add: unat_word_ariths)

lemma unat_sub_no_wrap:
  "b \<le> a \<Longrightarrow> unat (a - b :: u64) = unat a - unat b"
  by (rule unat_sub)

lemma unat_Suc_no_wrap:
  "a < (b :: u64) \<Longrightarrow> unat (a + 1) = Suc (unat a)"
  by unat_arith

text \<open>A power of two as a word, its predecessor as a mask, and the bits it selects.\<close>

lemma unat_2p: "k < 64 \<Longrightarrow> unat (2 ^ k :: u64) = 2 ^ k"
proof -
  assume "k < 64"
  then have "(2 :: nat) ^ k < 2 ^ 64" by (rule power_strict_increasing) simp
  then have "unat (of_nat (2 ^ k) :: u64) = 2 ^ k" unfolding unat_of_nat by simp
  then show ?thesis by simp
qed

lemma and_low_mask: "(x :: u64) AND (2 ^ k - 1) = take_bit k x"
  by (simp add: take_bit_eq_mask mask_eq_exp_minus_1)

lemma unat_take_bit: "unat (take_bit k (x :: u64)) = unat x mod 2 ^ k"
  unfolding unsigned_take_bit_eq by (simp add: take_bit_eq_mod)

lemma unat_drop_bit: "unat (drop_bit k (x :: u64)) = unat x div 2 ^ k"
  unfolding unat_drop_bit_eq by (simp add: drop_bit_eq_div)

lemma drop_bit_ge_64: "64 \<le> k \<Longrightarrow> drop_bit k (x :: u64) = 0"
proof -
  assume "64 \<le> k"
  then have "(2 :: nat) ^ 64 \<le> 2 ^ k" by (intro power_increasing) auto
  then have "unat x < 2 ^ k" by (intro less_le_trans [OF unat_lt_2p64]) simp
  then have "unat (drop_bit k x) = 0" by (simp add: unat_drop_bit)
  then show ?thesis by (simp add: unat_eq_zero)
qed

lemma and_not_low_mask: "(x :: u64) AND NOT (2 ^ k - 1) = push_bit k (drop_bit k x)"
  by (rule bit_word_eqI) (auto simp: bit_simps simp flip: mask_eq_exp_minus_1)

lemma unat_and_not_low_mask:
  "unat ((x :: u64) AND NOT (2 ^ k - 1)) = unat x div 2 ^ k * 2 ^ k"
proof -
  have "unat x div 2 ^ k * 2 ^ k \<le> unat x" by simp
  then have "unat x div 2 ^ k * 2 ^ k < 2 ^ 64" by (rule le_less_trans) simp
  then have "unat (push_bit k (drop_bit k x)) = unat x div 2 ^ k * 2 ^ k"
    unfolding unsigned_push_bit_eq unat_drop_bit
    by (simp add: push_bit_eq_mult take_bit_nat_eq_self)
  then show ?thesis by (simp only: and_not_low_mask)
qed

section \<open>Lists\<close>

lemma nth_update_other [simp]: "i \<noteq> j \<Longrightarrow> (xs[i := v]) ! j = xs ! j"
  by simp

section \<open>Loops over a list of a fallible step\<close>

fun foldM :: "('a \<Rightarrow> 's \<Rightarrow> 's option) \<Rightarrow> 'a list \<Rightarrow> 's \<Rightarrow> 's option" where
  "foldM f [] s = Some s"
| "foldM f (x # xs) s = do { s' \<leftarrow> f x s; foldM f xs s' }"

lemma foldM_cong [fundef_cong]:
  "xs = ys \<Longrightarrow> s = t \<Longrightarrow> (\<And>x s. x \<in> set ys \<Longrightarrow> f x s = g x s) \<Longrightarrow> foldM f xs s = foldM g ys t"
proof (induction xs arbitrary: s t ys)
  case (Cons x xs)
  then show ?case by (auto intro!: Option.bind_cong)
qed simp

lemma foldM_invariant:
  assumes "P s" and "\<And>x s. x \<in> set xs \<Longrightarrow> P s \<Longrightarrow> \<exists>s'. f x s = Some s' \<and> P s'"
  shows "\<exists>s'. foldM f xs s = Some s' \<and> P s'"
  using assms
proof (induction xs arbitrary: s)
  case (Cons x xs)
  then obtain s' where "f x s = Some s'" "P s'" by (meson list.set_intros(1))
  with Cons show ?case by auto
qed simp

lemma foldM_add:
  fixes a :: nat
  assumes "\<And>i a. i \<in> set xs \<Longrightarrow> f i a = Some (a + g i)"
  shows "foldM f xs a = Some (a + sum_list (map g xs))"
  using assms by (induction xs arbitrary: a) (auto simp: add.assoc)

lemma foldM_append: "foldM f (xs @ ys) s = do { s' \<leftarrow> foldM f xs s; foldM f ys s' }"
  by (induction xs arbitrary: s) (auto split: bind_splits)

lemma foldM_upt:
  assumes "\<And>i. i < m \<Longrightarrow> f i (st i) = Some (st (Suc i))"
  shows "foldM f [0..<m] (st 0) = Some (st m)"
  using assms by (induction m) (simp_all add: foldM_append)

text \<open>The numbers a counting loop over words visits.\<close>

definition word_range :: "u64 \<Rightarrow> u64 \<Rightarrow> u64 list" where
  "word_range a b = map of_nat [unat a..<unat b]"

lemma word_range_rec: "word_range a b = (if a < b then a # word_range (a + 1) b else [])"
proof (cases "a < b")
  case True
  then have "[unat a..<unat b] = unat a # [Suc (unat a)..<unat b]"
    by (intro upt_conv_Cons) (simp add: unat_word_less)
  with True show ?thesis by (simp add: word_range_def unat_Suc_no_wrap)
qed (simp add: word_range_def unat_word_less)

lemma set_word_range: "set (word_range a b) = {a..<b}"
proof (rule set_eqI)
  fix x
  have "x \<in> set (word_range a b) \<longleftrightarrow> (\<exists>n. unat a \<le> n \<and> n < unat b \<and> x = of_nat n)"
    by (auto simp: word_range_def)
  also have "\<dots> \<longleftrightarrow> unat a \<le> unat x \<and> unat x < unat b"
  proof
    assume "\<exists>n. unat a \<le> n \<and> n < unat b \<and> x = of_nat n"
    then obtain n where n: "unat a \<le> n" "n < unat b" "x = of_nat n" by blast
    have "n < 2 ^ 64" using less_trans [OF n(2) unat_lt_2p64] by simp
    then have "unat x = n" unfolding n(3) unat_of_nat by simp
    with n show "unat a \<le> unat x \<and> unat x < unat b" by simp
  next
    assume "unat a \<le> unat x \<and> unat x < unat b"
    then show "\<exists>n. unat a \<le> n \<and> n < unat b \<and> x = of_nat n"
      by (intro exI [of _ "unat x"]) simp
  qed
  finally show "x \<in> set (word_range a b) \<longleftrightarrow> x \<in> {a..<b}"
    by (simp add: unat_word_less unat_word_le)
qed

section \<open>Step relations with an invariant\<close>

text \<open>
  The contract a state machine of the development offers: its start states and its steps
  satisfy an invariant. Everything reachable then satisfies it, and so does every
  consequence of it.
\<close>

locale stepper =
  fixes init :: "'s \<Rightarrow> bool"
    and step :: "'s \<Rightarrow> 's \<Rightarrow> bool"
    and inv :: "'s \<Rightarrow> bool"
  assumes inv_init: "init s \<Longrightarrow> inv s"
    and inv_step: "inv s \<Longrightarrow> step s t \<Longrightarrow> inv t"
begin

lemma inv_steps: "inv s \<Longrightarrow> step\<^sup>*\<^sup>* s t \<Longrightarrow> inv t"
  by (rotate_tac, induction rule: rtranclp_induct) (auto intro: inv_step)

lemma inv_reachable: "init s \<Longrightarrow> step\<^sup>*\<^sup>* s t \<Longrightarrow> inv t"
  by (blast intro: inv_init inv_steps)

end

end
