(* ===== verification/Platform.thy ===== *)
theory Platform
  imports Prelude
begin

text \<open>
  The platform layer, \<^verbatim>\<open>include/segmented_interprocess/detail/platform.hpp\<close>: page geometry,
  rounding, pointer-tag stripping, the resolution of segment names to file paths, and the
  POSIX branch of the shared-memory helpers (the Windows branch is in \<open>Platform_Windows\<close>).

  The preprocessor's choices are fields of a \<open>platform\<close> record. The operating system is a
  parameter: an \<open>os\<close> record of functions that answer each system call from the whole
  history of calls made so far, so a theorem over all \<open>os\<close> values holds for every
  behaviour of the kernel. Each helper returns its result and the extended history.
\<close>

section \<open>Definitions\<close>

subsection \<open>Page geometry and rounding\<close>

record platform =
  apple :: bool
  aarch64 :: bool
  getpagesize :: u64

definition page_size :: "platform \<Rightarrow> u64" where
  "page_size pl = getpagesize pl"

text \<open>\<^verbatim>\<open>while ((ps >> sh) > 1u) ++sh;\<close>\<close>

function page_shift_loop :: "u64 \<Rightarrow> nat \<Rightarrow> nat" where
  "page_shift_loop ps sh =
     (if drop_bit sh ps > 1 then page_shift_loop ps (Suc sh) else sh)"
  by pat_completeness auto
termination
proof (relation "measure (\<lambda>(ps, sh). 64 - sh)")
  show "((ps, Suc sh), (ps, sh)) \<in> measure (\<lambda>(ps, sh). 64 - sh)"
    if "drop_bit sh ps > 1" for ps :: u64 and sh
    using that drop_bit_ge_64 [of sh ps] by (cases "sh < 64") auto
qed simp

declare page_shift_loop.simps [simp del]

definition page_shift :: "platform \<Rightarrow> nat" where
  "page_shift pl = page_shift_loop (page_size pl) 0"

definition align_up :: "u64 \<Rightarrow> u64 \<Rightarrow> u64" where
  "align_up v align = (v + align - 1) AND NOT (align - 1)"

definition align_down :: "u64 \<Rightarrow> u64 \<Rightarrow> u64" where
  "align_down v align = v AND NOT (align - 1)"

subsection \<open>Pointer tags\<close>

definition strip_pac :: "platform \<Rightarrow> u64 \<Rightarrow> u64" where
  "strip_pac pl addr =
     (if aarch64 pl \<and> apple pl then addr AND 0x00007FFFFFFFFFFF
      else if aarch64 pl then addr AND 0x00FFFFFFFFFFFFFF
      else addr)"

definition ptr_to_vaddr :: "platform \<Rightarrow> u64 \<Rightarrow> u64" where
  "ptr_to_vaddr pl p = strip_pac pl p"

subsection \<open>Names and paths\<close>

text \<open>\<^verbatim>\<open>strchr\<close>: the suffix that starts at the first occurrence, or nothing.\<close>

definition strchr :: "string \<Rightarrow> char \<Rightarrow> string option" where
  "strchr s c = (case dropWhile (\<lambda>x. x \<noteq> c) s of [] \<Rightarrow> None | t \<Rightarrow> Some t)"

definition is_custom_path :: "string \<Rightarrow> bool" where
  "is_custom_path name =
     (case strchr name CHR ''/'' of
        None \<Rightarrow> False
      | Some first_slash \<Rightarrow>
          length first_slash \<noteq> length name \<or> strchr (tl first_slash) CHR ''/'' \<noteq> None)"

definition get_platform_shm_path :: "platform \<Rightarrow> string \<Rightarrow> string" where
  "get_platform_shm_path pl name =
     (if is_custom_path name then name
      else (if apple pl then ''/tmp/memnon_shm_'' else ''/dev/shm/'') @
           (case name of [] \<Rightarrow> name | c # rest \<Rightarrow> if c = CHR ''/'' then rest else name))"

subsection \<open>System calls\<close>

datatype oflag = O_CREAT | O_RDWR | O_EXCL | O_RDONLY

datatype mapflag = MAP_PRIVATE | MAP_ANON | MAP_SHARED

datatype sysevent =
    Ev_open string "oflag list" nat int
  | Ev_unlink string int
  | Ev_ftruncate int u64 int
  | Ev_mmap u64 "mapflag list" int u64 u64
  | Ev_munmap u64 u64
  | Ev_fstat int int u64
  | Ev_close int

type_synonym history = "sysevent list"

record os =
  sys_open :: "history \<Rightarrow> string \<Rightarrow> oflag list \<Rightarrow> nat \<Rightarrow> int"
  sys_unlink :: "history \<Rightarrow> string \<Rightarrow> int"
  sys_ftruncate :: "history \<Rightarrow> int \<Rightarrow> u64 \<Rightarrow> int"
  sys_mmap :: "history \<Rightarrow> u64 \<Rightarrow> mapflag list \<Rightarrow> int \<Rightarrow> u64 \<Rightarrow> u64"
  sys_fstat :: "history \<Rightarrow> int \<Rightarrow> int \<times> u64"

definition MAP_FAILED :: u64 where
  "MAP_FAILED = -1"

definition do_open :: "os \<Rightarrow> string \<Rightarrow> oflag list \<Rightarrow> nat \<Rightarrow> history \<Rightarrow> int \<times> history" where
  "do_open os path oflag mode h =
     (let r = sys_open os h path oflag mode in (r, h @ [Ev_open path oflag mode r]))"

definition do_unlink :: "os \<Rightarrow> string \<Rightarrow> history \<Rightarrow> int \<times> history" where
  "do_unlink os path h = (let r = sys_unlink os h path in (r, h @ [Ev_unlink path r]))"

definition do_ftruncate :: "os \<Rightarrow> int \<Rightarrow> u64 \<Rightarrow> history \<Rightarrow> int \<times> history" where
  "do_ftruncate os fd sz h =
     (let r = sys_ftruncate os h fd sz in (r, h @ [Ev_ftruncate fd sz r]))"

definition do_mmap :: "os \<Rightarrow> u64 \<Rightarrow> mapflag list \<Rightarrow> int \<Rightarrow> u64 \<Rightarrow> history \<Rightarrow> u64 \<times> history" where
  "do_mmap os sz flags fd off h =
     (let p = sys_mmap os h sz flags fd off in (p, h @ [Ev_mmap sz flags fd off p]))"

definition do_munmap :: "u64 \<Rightarrow> u64 \<Rightarrow> history \<Rightarrow> history" where
  "do_munmap p sz h = h @ [Ev_munmap p sz]"

definition do_fstat :: "os \<Rightarrow> int \<Rightarrow> history \<Rightarrow> (int \<times> u64) \<times> history" where
  "do_fstat os fd h = (let (r, st_size) = sys_fstat os h fd in ((r, st_size), h @ [Ev_fstat fd r st_size]))"

definition do_close :: "int \<Rightarrow> history \<Rightarrow> history" where
  "do_close fd h = h @ [Ev_close fd]"

subsection \<open>Anonymous memory\<close>

definition mmap_alloc :: "os \<Rightarrow> u64 \<Rightarrow> history \<Rightarrow> u64 \<times> history" where
  "mmap_alloc os sz h =
     (let (p, h) = do_mmap os sz [MAP_PRIVATE, MAP_ANON] (-1) 0 h
      in (if p = MAP_FAILED then nullptr else p, h))"

definition mmap_free :: "u64 \<Rightarrow> u64 \<Rightarrow> history \<Rightarrow> history" where
  "mmap_free p sz h = (if p \<noteq> nullptr \<and> p \<noteq> MAP_FAILED then do_munmap p sz h else h)"

subsection \<open>Named shared memory\<close>

definition platform_shm_open ::
  "os \<Rightarrow> platform \<Rightarrow> string \<Rightarrow> oflag list \<Rightarrow> nat \<Rightarrow> history \<Rightarrow> int \<times> history" where
  "platform_shm_open os pl name oflag mode h =
     (if is_custom_path name then do_open os name oflag mode h
      else do_open os (get_platform_shm_path pl name) oflag mode h)"

definition platform_shm_unlink :: "os \<Rightarrow> platform \<Rightarrow> string \<Rightarrow> history \<Rightarrow> int \<times> history" where
  "platform_shm_unlink os pl name h =
     (if is_custom_path name then do_unlink os name h
      else do_unlink os (get_platform_shm_path pl name) h)"

text \<open>The file mode \<^verbatim>\<open>0600\<close> is octal.\<close>

definition mode_0600 :: nat where
  "mode_0600 = 384"

definition shm_create :: "os \<Rightarrow> platform \<Rightarrow> string \<Rightarrow> u64 \<Rightarrow> history \<Rightarrow> u64 \<times> history" where
  "shm_create os pl name sz h =
     (let (_, h) = platform_shm_unlink os pl name h;
          (fd, h) = platform_shm_open os pl name [O_CREAT, O_RDWR, O_EXCL] mode_0600 h
      in if fd < 0 then (nullptr, h)
         else
           let (r, h) = do_ftruncate os fd sz h
           in if r \<noteq> 0 then
                let h = do_close fd h;
                    (_, h) = platform_shm_unlink os pl name h
                in (nullptr, h)
              else
                let (p, h) = do_mmap os sz [MAP_SHARED] fd 0 h;
                    h = do_close fd h
                in if p = MAP_FAILED then
                     let (_, h) = platform_shm_unlink os pl name h in (nullptr, h)
                   else (p, h))"

definition shm_open_existing :: "os \<Rightarrow> platform \<Rightarrow> string \<Rightarrow> u64 \<Rightarrow> history \<Rightarrow> u64 \<times> history" where
  "shm_open_existing os pl name sz h =
     (let (fd, h) = platform_shm_open os pl name [O_RDWR] mode_0600 h
      in if fd < 0 then (nullptr, h)
         else
           let (p, h) = do_mmap os sz [MAP_SHARED] fd 0 h;
               h = do_close fd h
           in (if p = MAP_FAILED then nullptr else p, h))"

definition shm_map_chunk ::
  "os \<Rightarrow> platform \<Rightarrow> string \<Rightarrow> u64 \<Rightarrow> u64 \<Rightarrow> history \<Rightarrow> u64 \<times> history" where
  "shm_map_chunk os pl name sz file_off h =
     (let (fd, h) = platform_shm_open os pl name [O_RDWR] mode_0600 h
      in if fd < 0 then (nullptr, h)
         else
           let (p, h) = do_mmap os sz [MAP_SHARED] fd file_off h;
               h = do_close fd h
           in (if p = MAP_FAILED then nullptr else p, h))"

definition shm_get_size :: "os \<Rightarrow> platform \<Rightarrow> string \<Rightarrow> history \<Rightarrow> u64 \<times> history" where
  "shm_get_size os pl name h =
     (let (fd, h) = platform_shm_open os pl name [O_RDONLY] mode_0600 h
      in if fd < 0 then (0, h)
         else
           let ((r, st_size), h) = do_fstat os fd h
           in if r \<noteq> 0 then let h = do_close fd h in (0, h)
              else let h = do_close fd h in (st_size, h))"

definition shm_grow :: "os \<Rightarrow> platform \<Rightarrow> string \<Rightarrow> u64 \<Rightarrow> history \<Rightarrow> bool \<times> history" where
  "shm_grow os pl name new_size h =
     (let (fd, h) = platform_shm_open os pl name [O_RDWR] mode_0600 h
      in if fd < 0 then (False, h)
         else
           let (r, h) = do_ftruncate os fd new_size h;
               ok = (r = 0);
               h = do_close fd h
           in (ok, h))"

definition shm_destroy :: "os \<Rightarrow> platform \<Rightarrow> u64 \<Rightarrow> u64 \<Rightarrow> string \<Rightarrow> history \<Rightarrow> history" where
  "shm_destroy os pl base sz name h =
     (let h = (if base \<noteq> nullptr \<and> base \<noteq> MAP_FAILED then do_munmap base sz h else h)
      in if name \<noteq> [] then snd (platform_shm_unlink os pl name h) else h)"

definition shm_remove :: "os \<Rightarrow> platform \<Rightarrow> string \<Rightarrow> history \<Rightarrow> history" where
  "shm_remove os pl name h =
     (if name \<noteq> [] then snd (platform_shm_unlink os pl name h) else h)"

definition shm_close :: "u64 \<Rightarrow> u64 \<Rightarrow> history \<Rightarrow> history" where
  "shm_close base sz h =
     (if base \<noteq> nullptr \<and> base \<noteq> MAP_FAILED then do_munmap base sz h else h)"

subsection \<open>What a history says\<close>

text \<open>
  The descriptors that are open after a history, the most recently opened first, and the
  mappings that are live after it.
\<close>

definition fd_event :: "sysevent \<Rightarrow> int list \<Rightarrow> int list" where
  "fd_event e fds =
     (case e of
        Ev_open _ _ _ r \<Rightarrow> if r < 0 then fds else r # fds
      | Ev_close fd \<Rightarrow> remove1 fd fds
      | _ \<Rightarrow> fds)"

definition open_fds :: "history \<Rightarrow> int list" where
  "open_fds h = fold fd_event h []"

definition map_event :: "sysevent \<Rightarrow> (u64 \<times> u64) list \<Rightarrow> (u64 \<times> u64) list" where
  "map_event e ms =
     (case e of
        Ev_mmap sz _ _ _ p \<Rightarrow> if p = MAP_FAILED then ms else (p, sz) # ms
      | Ev_munmap p sz \<Rightarrow> remove1 (p, sz) ms
      | _ \<Rightarrow> ms)"

definition live_maps :: "history \<Rightarrow> (u64 \<times> u64) list" where
  "live_maps h = fold map_event h []"

text \<open>
  A concrete kernel for evaluation: every call succeeds, descriptors and mappings are taken
  from the length of the history, and a mapping of at most
  256 MiB starts at a multiple of 256 MiB.
\<close>

definition demo_os :: os where
  "demo_os = \<lparr>sys_open = \<lambda>h path fl m. int (length h), sys_unlink = \<lambda>h path. 0,
     sys_ftruncate = \<lambda>h fd sz. 0,
     sys_mmap = \<lambda>h sz fl fd off.
       if length h < 4096 \<and> sz \<le> 0x10000000 then push_bit 28 (of_nat (Suc (length h))) else MAP_FAILED,
     sys_fstat = \<lambda>h fd. (0, 0)\<rparr>"

section \<open>Page geometry\<close>

lemma page_shift_loop_bounds:
  assumes "2 ^ sh \<le> unat ps"
  shows "2 ^ page_shift_loop ps sh \<le> unat ps \<and> unat ps < 2 ^ Suc (page_shift_loop ps sh)"
  using assms
proof (induction ps sh rule: page_shift_loop.induct)
  case (1 ps sh)
  have gt: "drop_bit sh ps > 1 \<longleftrightarrow> 2 * 2 ^ sh \<le> unat ps"
    by (simp add: unat_word_less unat_drop_bit less_eq_div_iff_mult_less_eq mult_2 flip: Suc_le_eq)
  show ?case
  proof (cases "drop_bit sh ps > 1")
    case True
    with "1.IH" gt show ?thesis by (simp add: page_shift_loop.simps [of ps sh])
  next
    case False
    with "1.prems" gt show ?thesis by (simp add: page_shift_loop.simps [of ps sh])
  qed
qed

text \<open>
  \<^verbatim>\<open>page_shift\<close> terminates for every page size and returns the floor of the base-two
  logarithm of a non-zero page size.
\<close>

lemma page_shift_floor_log:
  "page_size pl \<noteq> 0 \<Longrightarrow>
   2 ^ page_shift pl \<le> unat (page_size pl) \<and> unat (page_size pl) < 2 ^ Suc (page_shift pl)"
  unfolding page_shift_def
  by (rule page_shift_loop_bounds) (simp add: Suc_le_eq unat_gt_0)

lemma page_shift_floor_log_witness:
  "let pl = \<lparr>apple = False, aarch64 = False, getpagesize = 4096\<rparr> in
   page_size pl \<noteq> 0 \<and> 2 ^ page_shift pl \<le> unat (page_size pl) \<and>
   unat (page_size pl) < 2 ^ Suc (page_shift pl)"
  using page_shift_floor_log [of "\<lparr>apple = False, aarch64 = False, getpagesize = 4096\<rparr>"]
  by (simp add: Let_def page_size_def)

lemma page_shift_power:
  assumes "page_size pl = 2 ^ k" and "k < 64"
  shows "page_shift pl = k"
proof -
  have pos: "0 < unat (page_size pl)" using assms by (simp add: unat_2p)
  then have b: "2 ^ page_shift pl \<le> (2 :: nat) ^ k \<and> (2 :: nat) ^ k < 2 ^ Suc (page_shift pl)"
    using page_shift_loop_bounds [of 0 "page_size pl"] assms
    by (simp add: page_shift_def unat_2p Suc_le_eq)
  then have "page_shift pl \<le> k \<and> k < Suc (page_shift pl)"
    by (metis one_less_numeral_iff power_increasing_iff power_strict_increasing_iff semiring_norm(76))
  then show ?thesis by simp
qed

section \<open>Rounding\<close>

lemma unat_align_down [align_simps]:
  "unat (align_down v (2 ^ k)) = unat v div 2 ^ k * 2 ^ k"
  by (simp add: align_down_def unat_and_not_low_mask)

lemma unat_align_up [align_simps]:
  assumes "k < 64" and "unat v + (2 ^ k - 1) < 2 ^ 64"
  shows "unat (align_up v (2 ^ k)) = (unat v + (2 ^ k - 1)) div 2 ^ k * 2 ^ k"
proof -
  have p: "unat (2 ^ k - 1 :: u64) = 2 ^ k - 1"
    using assms(1) by (simp add: unat_sub_no_wrap unat_word_le unat_2p)
  have "unat (v + (2 ^ k - 1)) = unat v + (2 ^ k - 1)"
    using assms(2) by (simp add: unat_add_no_wrap p)
  then show ?thesis
    by (simp add: align_up_def unat_and_not_low_mask add_diff_eq [symmetric])
qed

lemma ceil_multiple:
  fixes v a :: nat
  assumes "0 < a"
  shows "v \<le> (v + (a - 1)) div a * a" "(v + (a - 1)) div a * a < v + a"
    "a dvd (v + (a - 1)) div a * a"
proof -
  have e: "(v + (a - 1)) div a * a + (v + (a - 1)) mod a = v + (a - 1)" by simp
  have m: "(v + (a - 1)) mod a < a" using assms by simp
  show "v \<le> (v + (a - 1)) div a * a" using e m by linarith
  show "(v + (a - 1)) div a * a < v + a" using e assms by linarith
qed simp

lemma page_shift_less [simp]: "page_shift pl < 64"
proof (cases "page_size pl = 0")
  case False
  then have "2 ^ page_shift pl \<le> unat (page_size pl)"
    using page_shift_loop_bounds [of 0 "page_size pl"] by (simp add: page_shift_def Suc_le_eq unat_gt_0)
  then have "(2 :: nat) ^ page_shift pl < 2 ^ 64" by (rule le_less_trans) simp
  then show ?thesis using power_less_imp_less_exp by (metis one_less_numeral_iff semiring_norm(76))
qed (simp add: page_shift_def page_shift_loop.simps)

definition linux_x86 :: platform where
  "linux_x86 = \<lparr>apple = False, aarch64 = False, getpagesize = 4096\<rparr>"

lemma linux_x86_page [simp]: "page_size linux_x86 = 4096" "page_shift linux_x86 = 12"
proof -
  show p: "page_size linux_x86 = 4096" by (simp add: linux_x86_def page_size_def)
  show "page_shift linux_x86 = 12" by (rule page_shift_power) (simp_all add: p)
qed

lemma align_up_wrap:
  assumes "k < 64" and "2 ^ 64 \<le> unat v + (2 ^ k - 1)"
  shows "align_up v (2 ^ k) = 0"
proof -
  have p: "unat (2 ^ k - 1 :: u64) = 2 ^ k - 1"
    using assms(1) by (simp add: unat_sub_no_wrap unat_word_le unat_2p)
  have k: "(2 :: nat) ^ k < 2 ^ 64" using assms(1) by (rule power_strict_increasing) simp
  have v: "unat v < 2 ^ 64" by simp
  have "unat (v + (2 ^ k - 1)) = (unat v + (2 ^ k - 1)) mod 2 ^ 64"
    by (simp add: unat_word_ariths p)
  also have "\<dots> = unat v + (2 ^ k - 1) - 2 ^ 64"
    unfolding le_mod_geq [OF assms(2)] by (rule mod_less) (use k v in linarith)
  also have "\<dots> < 2 ^ k" using v by (simp only: less_diff_conv2 [OF assms(2)])
  finally have "unat (align_up v (2 ^ k)) = 0"
    by (simp add: align_up_def unat_and_not_low_mask add_diff_eq [symmetric])
  then show ?thesis by (simp add: unat_eq_zero)
qed

text \<open>Whatever the size, the result is 0 or an aligned value that is not smaller.\<close>

lemma align_up_cases:
  assumes "k < 64"
  shows "align_up v (2 ^ k) = 0 \<or> v \<le> align_up v (2 ^ k) \<and> 2 ^ k dvd unat (align_up v (2 ^ k))"
proof (cases "unat v + (2 ^ k - 1) < 2 ^ 64")
  case True
  then show ?thesis
    using unat_align_up [OF assms True] ceil_multiple(1) [of "2 ^ k" "unat v"] by (auto simp: unat_word_le)
next
  case False
  then show ?thesis using align_up_wrap [OF assms] by simp
qed

text \<open>
  For a power-of-two alignment and no overflow, \<^verbatim>\<open>align_up\<close> returns the least multiple of
  the alignment that is at least the argument.
\<close>

lemma align_up_least_multiple:
  assumes "k < 64" and "unat v + (2 ^ k - 1) < 2 ^ 64"
  shows "2 ^ k dvd unat (align_up v (2 ^ k)) \<and> v \<le> align_up v (2 ^ k) \<and>
         (\<forall>m. 2 ^ k dvd m \<and> unat v \<le> m \<longrightarrow> unat (align_up v (2 ^ k)) \<le> m)"
proof -
  let ?u = "(unat v + (2 ^ k - 1)) div 2 ^ k * 2 ^ k"
  have u: "unat (align_up v (2 ^ k)) = ?u" by (rule unat_align_up [OF assms])
  have "?u \<le> m" if m: "2 ^ k dvd m" "unat v \<le> m" for m
  proof (rule ccontr)
    assume "\<not> ?u \<le> m"
    moreover have "?u < unat v + 2 ^ k" by (rule ceil_multiple(2)) simp
    moreover obtain c where c: "m = 2 ^ k * c" using m(1) by (rule dvdE)
    ultimately have "(unat v + (2 ^ k - 1)) div 2 ^ k * 2 ^ k < (c + 1) * 2 ^ k" "c * 2 ^ k < ?u"
      using m(2) by (simp_all add: algebra_simps)
    then show False by (simp only: mult_less_cancel2) auto
  qed
  then show ?thesis
    using ceil_multiple [of "2 ^ k" "unat v"] by (auto simp: u unat_word_le)
qed

lemma align_up_least_multiple_witness:
  "(12 :: nat) < 64 \<and> unat (5000 :: u64) + (2 ^ 12 - 1) < 2 ^ 64 \<and>
   align_up 5000 (2 ^ 12) = 8192 \<and> 2 ^ 12 dvd unat (align_up 5000 (2 ^ 12))"
  using align_up_least_multiple [of 12 5000] by (simp add: align_up_def)

text \<open>
  Close to the end of the address space \<^verbatim>\<open>align_up\<close> wraps around to 0.
\<close>

lemma align_up_wraps:
  assumes "k < 64" and "2 ^ 64 \<le> unat v + (2 ^ k - 1)"
  shows "align_up v (2 ^ k) = 0"
  by (rule align_up_wrap [OF assms])

lemma align_up_wraps_witness:
  "(12 :: nat) < 64 \<and> 2 ^ 64 \<le> unat (18446744073709551615 :: u64) + (2 ^ 12 - 1) \<and>
   align_up 18446744073709551615 (2 ^ 12) = 0"
  using align_up_wraps [of 12 18446744073709551615] by simp

section \<open>Pointer tags\<close>

lemma strip_pac_masks:
  "strip_pac pl a = (if aarch64 pl \<and> apple pl then take_bit 47 a else if aarch64 pl then take_bit 56 a else a)"
proof -
  have m: "(0x00007FFFFFFFFFFF :: u64) = 2 ^ 47 - 1" "(0x00FFFFFFFFFFFFFF :: u64) = 2 ^ 56 - 1"
    by simp_all
  show ?thesis unfolding strip_pac_def m and_low_mask by simp
qed

lemma strip_pac_user: "unat a < 2 ^ 47 \<Longrightarrow> strip_pac pl a = a"
proof -
  assume a: "unat a < 2 ^ 47"
  have "take_bit n a = a" if "47 \<le> n" for n
  proof -
    have "(2 :: nat) ^ 47 \<le> 2 ^ n" using that by (rule power_increasing) simp
    with a have "unat (take_bit n a) = unat a" by (simp add: unat_take_bit)
    then show ?thesis by (rule unsigned_word_eqI)
  qed
  then show ?thesis by (simp add: strip_pac_masks)
qed

text \<open>
  Stripping pointer tags is idempotent, never increases an address, and leaves every
  user-space address (below \<open>2^47\<close>) alone, on every platform the header distinguishes.
\<close>

lemma strip_pac_canonical:
  "strip_pac pl (strip_pac pl a) = strip_pac pl a \<and> strip_pac pl a \<le> a \<and>
   (unat a < 2 ^ 47 \<longrightarrow> strip_pac pl a = a)"
  using strip_pac_user [of a pl] by (simp add: strip_pac_masks unat_word_le unat_take_bit)

lemma strip_pac_canonical_witness:
  "let pl = \<lparr>apple = True, aarch64 = True, getpagesize = 16384\<rparr> in
   unat (0x7FFF12345678 :: u64) < 2 ^ 47 \<and> strip_pac pl 0x7FFF12345678 = 0x7FFF12345678 \<and>
   strip_pac pl 0xABCD7FFF12345678 = 0x7FFF12345678"
  using strip_pac_canonical [of "\<lparr>apple = True, aarch64 = True, getpagesize = 16384\<rparr>" "0x7FFF12345678"]
  by (simp add: Let_def strip_pac_def)

section \<open>Names and paths\<close>

lemma strchr_None: "strchr s c = None \<longleftrightarrow> c \<notin> set s"
proof -
  have "strchr s c = None \<longleftrightarrow> dropWhile (\<lambda>x. x \<noteq> c) s = []"
    by (cases "dropWhile (\<lambda>x. x \<noteq> c) s") 
      (simp_all only: strchr_def list.case list.distinct option.distinct simp_thms)
  then show ?thesis by auto
qed

lemma strchr_Cons: "strchr (x # s) c = (if x = c then Some (x # s) else strchr s c)"
  by (simp add: strchr_def)

lemma length_strchr: "strchr s c = Some t \<Longrightarrow> length t \<le> length s"
  by (auto simp: strchr_def length_dropWhile_le split: list.splits dest: arg_cong [of _ _ length])

text \<open>The specification of the path test: some slash is not the first character.\<close>

lemma is_custom_path_iff: "is_custom_path name \<longleftrightarrow> CHR ''/'' \<in> set (tl name)"
proof (cases name)
  case Nil
  then show ?thesis by (simp add: is_custom_path_def strchr_def)
next
  case (Cons c rest)
  show ?thesis
  proof (cases "c = CHR ''/''")
    case True
    with Cons show ?thesis by (simp add: is_custom_path_def strchr_Cons strchr_None)
  next
    case False
    have "length t \<noteq> Suc (length rest)" if "strchr rest CHR ''/'' = Some t" for t
      using length_strchr [OF that] by simp
    with False Cons show ?thesis
      using strchr_None [of rest "CHR ''/''"]
      by (cases "strchr rest CHR ''/''") (auto simp: is_custom_path_def strchr_Cons)
  qed
qed

text \<open>
  A name with a slash after its first character is used as a path as it is; any other
  name resolves to a file directly inside the platform's shared-memory directory, whatever
  the name is, and a leading slash makes no difference.
\<close>

lemma get_platform_shm_path_resolves:
  "get_platform_shm_path pl name =
     (if CHR ''/'' \<in> set (tl name) then name
      else (if apple pl then ''/tmp/memnon_shm_'' else ''/dev/shm/'') @
           filter (\<lambda>c. c \<noteq> CHR ''/'') name)"
proof (cases "CHR ''/'' \<in> set (tl name)")
  case True
  then show ?thesis by (simp add: get_platform_shm_path_def is_custom_path_iff)
next
  case False
  then have "filter (\<lambda>c. c \<noteq> CHR ''/'') (tl name) = tl name"
    by (auto simp: filter_id_conv)
  with False show ?thesis
    by (cases name) (auto simp: get_platform_shm_path_def is_custom_path_iff)
qed

lemma platform_shm_open_path [simp]:
  "platform_shm_open os pl name oflag mode h = do_open os (get_platform_shm_path pl name) oflag mode h"
  by (simp add: platform_shm_open_def get_platform_shm_path_def)

lemma platform_shm_unlink_path [simp]:
  "platform_shm_unlink os pl name h = do_unlink os (get_platform_shm_path pl name) h"
  by (simp add: platform_shm_unlink_def get_platform_shm_path_def)

section \<open>Descriptors and files\<close>

lemma open_fds_append [simp]: "open_fds (h @ es) = fold fd_event es (open_fds h)"
  by (simp add: open_fds_def)

lemma live_maps_append [simp]: "live_maps (h @ es) = fold map_event es (live_maps h)"
  by (simp add: live_maps_def)

lemmas syscall_defs = do_open_def do_unlink_def do_ftruncate_def do_mmap_def do_munmap_def
  do_fstat_def do_close_def

lemmas shm_defs = shm_create_def shm_open_existing_def shm_map_chunk_def shm_get_size_def
  shm_grow_def

text \<open>
  No shared-memory helper leaks a file descriptor: whatever the kernel answers, on every
  path through the helper, errors included, the open descriptors afterwards are those before.
\<close>

lemma shm_helpers_close_fds:
  "open_fds (snd (shm_create os pl name sz h)) = open_fds h \<and>
   open_fds (snd (shm_open_existing os pl name sz h)) = open_fds h \<and>
   open_fds (snd (shm_map_chunk os pl name sz off h)) = open_fds h \<and>
   open_fds (snd (shm_get_size os pl name h)) = open_fds h \<and>
   open_fds (snd (shm_grow os pl name sz h)) = open_fds h"
  by (simp add: shm_defs syscall_defs Let_def fd_event_def case_prod_beta)

text \<open>
  Creating a shared-memory object is all or nothing: when the kernel refuses one of the
  steps after the file was created, the helper returns null and its last action on the file
  is to unlink it; when it returns a mapping, the file was truncated to the requested size,
  mapped whole, and stays linked.
\<close>

lemma shm_create_all_or_nothing:
  assumes mmap: "\<And>h sz fl fd off. sys_mmap os h sz fl fd off \<noteq> nullptr"
    and run: "shm_create os pl name sz h = (p, h')"
  shows "if p = nullptr
         then (\<exists>r. last h' = Ev_unlink (get_platform_shm_path pl name) r) \<or>
              (\<exists>r fl m. last h' = Ev_open (get_platform_shm_path pl name) fl m r \<and> r < 0)
         else (\<exists>fd r. fd \<ge> 0 \<and>
                 h' = h @ [Ev_unlink (get_platform_shm_path pl name) r,
                           Ev_open (get_platform_shm_path pl name) [O_CREAT, O_RDWR, O_EXCL] mode_0600 fd,
                           Ev_ftruncate fd sz 0, Ev_mmap sz [MAP_SHARED] fd 0 p, Ev_close fd])"
  using run mmap by (auto simp: shm_create_def syscall_defs Let_def split: if_splits)

lemma unat_demo_base:
  assumes "n < 4096"
  shows "unat (push_bit 28 (of_nat (Suc n)) :: u64) = 2 ^ 28 * Suc n"
proof -
  have s: "unat (of_nat (Suc n) :: u64) = Suc n"
    unfolding unat_of_nat using assms by simp
  have "2 ^ 28 * Suc n < 2 ^ 64" using assms by simp
  then show ?thesis
    unfolding unsigned_push_bit_eq s by (simp add: push_bit_eq_mult take_bit_nat_eq_self mult.commute)
qed

lemma demo_os_mmap: "sys_mmap demo_os h sz fl fd off \<noteq> nullptr"
proof (cases "length h < 4096")
  case True
  then have "0 < unat (push_bit 28 (of_nat (Suc (length h))) :: u64)"
    by (simp only: unat_demo_base) simp
  then show ?thesis by (auto simp: demo_os_def MAP_FAILED_def)
qed (simp add: demo_os_def MAP_FAILED_def)

lemma shm_create_all_or_nothing_witness:
  "let pl = \<lparr>apple = False, aarch64 = False, getpagesize = 4096\<rparr>;
       (p, h') = shm_create demo_os pl ''seg'' 1048576 []
   in (\<forall>h sz fl fd off. sys_mmap demo_os h sz fl fd off \<noteq> nullptr) \<and> p = 0x40000000 \<and>
      (\<exists>fd r. fd \<ge> 0 \<and>
         h' = [Ev_unlink ''/dev/shm/seg'' r,
               Ev_open ''/dev/shm/seg'' [O_CREAT, O_RDWR, O_EXCL] mode_0600 fd,
               Ev_ftruncate fd 1048576 0, Ev_mmap 1048576 [MAP_SHARED] fd 0 p, Ev_close fd])"
proof -
  let ?pl = "\<lparr>apple = False, aarch64 = False, getpagesize = 4096\<rparr>"
  obtain p h' where r: "shm_create demo_os ?pl ''seg'' 1048576 [] = (p, h')" by fastforce
  have p: "p = 0x40000000"
    using r by (auto simp: shm_create_def syscall_defs Let_def demo_os_def MAP_FAILED_def
        split: if_splits)
  have path: "get_platform_shm_path ?pl ''seg'' = ''/dev/shm/seg''"
    by (simp add: get_platform_shm_path_def is_custom_path_iff)
  show ?thesis
    using shm_create_all_or_nothing [OF demo_os_mmap r] demo_os_mmap by (simp add: r p path)
qed

end
