(* ===== verification/Ncrit_Trie.thy ===== *)
theory Ncrit_Trie
  imports Platform
begin

text \<open>
  The radix trie of \<^verbatim>\<open>include/segmented_interprocess/ncrit_trie.hpp\<close>, without its thread-local
  cache (theory \<open>Tls_Cache\<close>). Nodes live on an explicit heap from node addresses to arrays
  of \<open>u64\<close> slots, since the code follows raw pointers stored in slots and hands out slot
  addresses. Every operation returns an \<open>option\<close>: \<open>None\<close> is the dereference of a pointer
  that is no allocated node, so that memory safety is a theorem and not an assumption.
  The template parameters and the allocator behind \<^verbatim>\<open>new (std::nothrow) node_t\<close> are fields
  of a parameter record.
\<close>

section \<open>Definitions\<close>

subsection \<open>Nodes, slots and parameters\<close>

type_synonym node = "nat \<Rightarrow> u64"
type_synonym heap = "u64 \<Rightarrow> node option"
type_synonym slot = "u64 \<times> nat"

record trie_params =
  Stride :: nat
  Levels :: nat
  new_node :: "heap \<Rightarrow> u64"

record ncrit_trie =
  root :: u64
  nodes :: heap

definition kFanOut :: "trie_params \<Rightarrow> nat" where
  "kFanOut c = 2 ^ Stride c"

definition kIdxMask :: "trie_params \<Rightarrow> u64" where
  "kIdxMask c = 2 ^ Stride c - 1"

definition kLeafTag :: u64 where
  "kLeafTag = 1"

text \<open>The two \<^verbatim>\<open>static_assert\<close>s, and that the shifts stay inside a word.\<close>

definition params_ok :: "trie_params \<Rightarrow> bool" where
  "params_ok c \<longleftrightarrow> 1 \<le> Levels c \<and> 1 \<le> Stride c \<and> Stride c \<le> 16 \<and> Stride c * Levels c \<le> 64"

text \<open>
  What the code relies on from \<^verbatim>\<open>new (std::nothrow)\<close>: null, or memory that is not in use.
  \<open>alloc_total\<close> adds that it does not run out before the trie has all the nodes it can have.
\<close>

definition max_nodes :: "trie_params \<Rightarrow> nat" where
  "max_nodes c = (\<Sum>d < Levels c. kFanOut c ^ d)"

definition alloc_ok :: "trie_params \<Rightarrow> bool" where
  "alloc_ok c \<longleftrightarrow> (\<forall>h. new_node c h = 0 \<or> h (new_node c h) = None)"

definition alloc_total :: "trie_params \<Rightarrow> bool" where
  "alloc_total c \<longleftrightarrow> (\<forall>h. card (dom h) < max_nodes c \<longrightarrow> new_node c h \<noteq> 0)"

definition node_t :: node where
  "node_t = (\<lambda>_. 0)"

text \<open>Atomic loads, stores and compare-and-swap on a slot.\<close>

definition load :: "heap \<Rightarrow> slot \<Rightarrow> u64 option" where
  "load h s = (case h (fst s) of None \<Rightarrow> None | Some n \<Rightarrow> Some (n (snd s)))"

definition store :: "heap \<Rightarrow> slot \<Rightarrow> u64 \<Rightarrow> heap option" where
  "store h s v =
     (case h (fst s) of None \<Rightarrow> None | Some n \<Rightarrow> Some (h(fst s \<mapsto> n(snd s := v))))"

definition compare_exchange :: "heap \<Rightarrow> slot \<Rightarrow> u64 \<Rightarrow> u64 \<Rightarrow> (bool \<times> u64 \<times> heap) option" where
  "compare_exchange h s expected desired =
     do {
       v \<leftarrow> load h s;
       if v = expected then do { h' \<leftarrow> store h s desired; Some (True, expected, h') }
       else Some (False, v, h)
     }"

subsection \<open>Construction\<close>

definition new_ncrit_trie :: "trie_params \<Rightarrow> ncrit_trie option" where
  "new_ncrit_trie c =
     (let r = new_node c Map.empty
      in if r = 0 then None else Some \<lparr>root = r, nodes = [r \<mapsto> node_t]\<rparr>)"

subsection \<open>Index arithmetic\<close>

definition level_idx :: "trie_params \<Rightarrow> u64 \<Rightarrow> nat \<Rightarrow> nat" where
  "level_idx c page_num depth =
     (let shift = (Levels c - 1 - depth) * Stride c
      in unat (drop_bit shift page_num AND kIdxMask c))"

subsection \<open>Lookup\<close>

text \<open>The descent of \<^verbatim>\<open>lookup_page_with_slot\<close>: 0 is the early return of \<^verbatim>\<open>nullptr\<close>.\<close>

function lookup_walk :: "trie_params \<Rightarrow> heap \<Rightarrow> u64 \<Rightarrow> u64 \<Rightarrow> nat \<Rightarrow> u64 option" where
  "lookup_walk c h page_num cur d =
     (if d < Levels c - 1 then
        do {
          raw \<leftarrow> load h (cur, level_idx c page_num d);
          if raw = 0 then Some nullptr else lookup_walk c h page_num raw (Suc d)
        }
      else Some cur)"
  by pat_completeness auto
termination
  by (relation "measure (\<lambda>(c, h, page_num, cur, d). Levels c - d)") auto

declare lookup_walk.simps [simp del]

definition lookup_page_with_slot ::
  "trie_params \<Rightarrow> ncrit_trie \<Rightarrow> u64 \<Rightarrow> (u64 \<times> slot option) option" where
  "lookup_page_with_slot c t page_num =
     do {
       cur \<leftarrow> lookup_walk c (nodes t) page_num (root t) 0;
       if cur = 0 then Some (nullptr, None)
       else
         let leaf_ref = (cur, level_idx c page_num (Levels c - 1))
         in do {
              raw \<leftarrow> load (nodes t) leaf_ref;
              if raw = 0 then Some (nullptr, None)
              else Some (raw AND NOT kLeafTag, Some leaf_ref)
            }
     }"

definition lookup_page :: "trie_params \<Rightarrow> ncrit_trie \<Rightarrow> u64 \<Rightarrow> u64 option" where
  "lookup_page c t page_num = map_option fst (lookup_page_with_slot c t page_num)"

subsection \<open>Mutation\<close>

text \<open>
  The descent of \<^verbatim>\<open>insert_leaf\<close>, which installs the missing nodes by compare-and-swap and
  deletes its own node if it loses; 0 is the early return when memory runs out.
\<close>

function insert_walk ::
  "trie_params \<Rightarrow> heap \<Rightarrow> u64 \<Rightarrow> u64 \<Rightarrow> nat \<Rightarrow> (heap \<times> u64) option" where
  "insert_walk c h page_num cur d =
     (if d < Levels c - 1 then
        let idx = level_idx c page_num d
        in do {
             child \<leftarrow> load h (cur, idx);
             if child = 0 then
               let fresh = new_node c h
               in if fresh = 0 then Some (h, nullptr)
                  else
                    do {
                      (won, expected, h') \<leftarrow> compare_exchange (h(fresh \<mapsto> node_t)) (cur, idx) 0 fresh;
                      if \<not> won then insert_walk c (h'(fresh := None)) page_num expected (Suc d)
                      else insert_walk c h' page_num fresh (Suc d)
                    }
             else insert_walk c h page_num child (Suc d)
           }
      else Some (h, cur))"
  by pat_completeness auto
termination
  by (relation "measure (\<lambda>(c, h, page_num, cur, d). Levels c - d)") auto

declare insert_walk.simps [simp del]

definition insert_leaf :: "trie_params \<Rightarrow> ncrit_trie \<Rightarrow> u64 \<Rightarrow> u64 \<Rightarrow> ncrit_trie option" where
  "insert_leaf c t page_num val =
     do {
       (h, cur) \<leftarrow> insert_walk c (nodes t) page_num (root t) 0;
       if cur = 0 then Some (t\<lparr>nodes := h\<rparr>)
       else do {
         h' \<leftarrow> store h (cur, level_idx c page_num (Levels c - 1)) (val OR kLeafTag);
         Some (t\<lparr>nodes := h'\<rparr>)
       }
     }"

text \<open>\<^verbatim>\<open>clear_leaf\<close> descends as \<^verbatim>\<open>lookup_page\<close> does and stores a tombstone.\<close>

definition clear_leaf :: "trie_params \<Rightarrow> ncrit_trie \<Rightarrow> u64 \<Rightarrow> ncrit_trie option" where
  "clear_leaf c t page_num =
     do {
       cur \<leftarrow> lookup_walk c (nodes t) page_num (root t) 0;
       if cur = 0 then Some t
       else do {
         h \<leftarrow> store (nodes t) (cur, level_idx c page_num (Levels c - 1)) 0;
         Some (t\<lparr>nodes := h\<rparr>)
       }
     }"

subsection \<open>Ranges\<close>

definition page_begin :: "platform \<Rightarrow> u64 \<Rightarrow> u64" where
  "page_begin pl base = drop_bit (page_shift pl) base"

definition page_end :: "platform \<Rightarrow> u64 \<Rightarrow> u64 \<Rightarrow> u64" where
  "page_end pl base sz = drop_bit (page_shift pl) (base + sz + (push_bit (page_shift pl) 1 - 1))"

function insert_pages ::
  "trie_params \<Rightarrow> ncrit_trie \<Rightarrow> u64 \<Rightarrow> u64 \<Rightarrow> u64 \<Rightarrow> ncrit_trie option" where
  "insert_pages c t pg pend val =
     (if pg < pend then
        do { t' \<leftarrow> insert_leaf c t pg val; insert_pages c t' (pg + 1) pend val }
      else Some t)"
  by pat_completeness auto
termination
  by (relation "measure (\<lambda>(c, t, pg, pend, val). unat pend - unat pg)")
    (auto simp: unat_word_less unat_Suc_no_wrap)

function remove_pages :: "trie_params \<Rightarrow> ncrit_trie \<Rightarrow> u64 \<Rightarrow> u64 \<Rightarrow> ncrit_trie option" where
  "remove_pages c t pg pend =
     (if pg < pend then
        do { t' \<leftarrow> clear_leaf c t pg; remove_pages c t' (pg + 1) pend }
      else Some t)"
  by pat_completeness auto
termination
  by (relation "measure (\<lambda>(c, t, pg, pend). unat pend - unat pg)")
    (auto simp: unat_word_less unat_Suc_no_wrap)

declare insert_pages.simps [simp del] remove_pages.simps [simp del]

subsection \<open>Counting and freeing nodes\<close>

text \<open>Both recursions visit the slots of a node in order, above the leaf level only.\<close>

function count_nodes :: "trie_params \<Rightarrow> heap \<Rightarrow> u64 \<Rightarrow> nat \<Rightarrow> nat option" where
  "count_nodes c h nd depth =
     (if nd = 0 then Some 0
      else if depth < Levels c - 1 then
        foldM (\<lambda>i total. do {
                 raw \<leftarrow> load h (nd, i);
                 if raw \<noteq> 0 then do { k \<leftarrow> count_nodes c h raw (Suc depth); Some (total + k) }
                 else Some total
               }) [0..<kFanOut c] 1
      else Some 1)"
  by pat_completeness auto
termination
  by (relation "measure (\<lambda>(c, h, nd, depth). Levels c - depth)") auto

definition node_count :: "trie_params \<Rightarrow> ncrit_trie \<Rightarrow> nat option" where
  "node_count c t = count_nodes c (nodes t) (root t) 0"

text \<open>\<^verbatim>\<open>delete\<close>: freeing what is not allocated is an error.\<close>

definition delete_node :: "heap \<Rightarrow> u64 \<Rightarrow> heap option" where
  "delete_node h p = (case h p of None \<Rightarrow> None | Some _ \<Rightarrow> Some (h(p := None)))"

function destroy_subtree :: "trie_params \<Rightarrow> heap \<Rightarrow> u64 \<Rightarrow> nat \<Rightarrow> heap option" where
  "destroy_subtree c h nd depth =
     (if nd = 0 then Some h
      else if depth < Levels c - 1 then
        do {
          h' \<leftarrow> foldM (\<lambda>i h. do {
                   raw \<leftarrow> load h (nd, i);
                   if raw \<noteq> 0 then destroy_subtree c h raw (Suc depth) else Some h
                 }) [0..<kFanOut c] h;
          delete_node h' nd
        }
      else delete_node h nd)"
  by pat_completeness auto
termination
  by (relation "measure (\<lambda>(c, h, nd, depth). Levels c - depth)") auto

declare count_nodes.simps [simp del] destroy_subtree.simps [simp del]

definition destroy_trie :: "trie_params \<Rightarrow> ncrit_trie \<Rightarrow> heap option" where
  "destroy_trie c t = destroy_subtree c (nodes t) (root t) 0"

section \<open>Paths\<close>

text \<open>
  The node a list of slot indices leads to, and the value a full path (one index per level)
  has. These are the abstract view of a heap that the correctness statements use.
\<close>

fun node_at :: "heap \<Rightarrow> u64 \<Rightarrow> nat list \<Rightarrow> u64 option" where
  "node_at h p [] = Some p"
| "node_at h p (i # is) =
     (case load h (p, i) of None \<Rightarrow> None | Some q \<Rightarrow> if q = 0 then None else node_at h q is)"

definition leaf_val :: "heap \<Rightarrow> u64 \<Rightarrow> nat list \<Rightarrow> u64" where
  "leaf_val h r path =
     (case node_at h r (butlast path) of
        None \<Rightarrow> 0
      | Some p \<Rightarrow> (case load h (p, last path) of None \<Rightarrow> 0 | Some v \<Rightarrow> v))"

definition page_path :: "trie_params \<Rightarrow> u64 \<Rightarrow> nat list" where
  "page_path c page_num = map (level_idx c page_num) [0..<Levels c]"

text \<open>
  Well-formedness: the nodes above and at the leaf level form a tree (every path leads to an
  allocated node, no two paths lead to the same one), nothing else is allocated, non-empty
  slots are inside the array, and leaf slots are empty or tagged.
\<close>

definition heap_wf :: "trie_params \<Rightarrow> heap \<Rightarrow> u64 \<Rightarrow> bool" where
  "heap_wf c h r \<longleftrightarrow>
     r \<noteq> 0 \<and>
     (\<forall>is p. length is < Levels c \<longrightarrow> node_at h r is = Some p \<longrightarrow> p \<in> dom h) \<and>
     (\<forall>is js p. length is < Levels c \<longrightarrow> length js < Levels c \<longrightarrow>
        node_at h r is = Some p \<longrightarrow> node_at h r js = Some p \<longrightarrow> is = js) \<and>
     (\<forall>p \<in> dom h. \<exists>is. length is < Levels c \<and> node_at h r is = Some p) \<and>
     (\<forall>p n i. h p = Some n \<longrightarrow> n i \<noteq> 0 \<longrightarrow> i < kFanOut c) \<and>
     (\<forall>is p n i. Suc (length is) = Levels c \<longrightarrow> node_at h r is = Some p \<longrightarrow>
        h p = Some n \<longrightarrow> n i = 0 \<or> odd (n i))"

definition trie_wf :: "trie_params \<Rightarrow> ncrit_trie \<Rightarrow> bool" where
  "trie_wf c t \<longleftrightarrow> heap_wf c (nodes t) (root t)"

subsection \<open>Loads and stores\<close>

lemma load_Some_iff [heap_simps]: "load h (p, i) = Some v \<longleftrightarrow> (\<exists>n. h p = Some n \<and> n i = v)"
  by (auto simp: load_def split: option.splits)

lemma load_None_iff [heap_simps]: "load h (p, i) = None \<longleftrightarrow> h p = None"
  by (auto simp: load_def split: option.splits)

lemma load_upd [heap_simps]:
  "load (h(q \<mapsto> n)) (p, i) = (if p = q then Some (n i) else load h (p, i))"
  by (simp add: load_def)

lemma store_Some_iff [heap_simps]:
  "store h (p, i) v = Some h' \<longleftrightarrow> (\<exists>n. h p = Some n \<and> h' = h(p \<mapsto> n(i := v)))"
  by (auto simp: store_def split: option.splits)

lemma node_at_snoc:
  "node_at h r (is @ [i]) =
     (case node_at h r is of None \<Rightarrow> None
      | Some p \<Rightarrow> (case load h (p, i) of None \<Rightarrow> None | Some q \<Rightarrow> if q = 0 then None else Some q))"
  by (induction "is" arbitrary: r) (auto split: option.splits)

lemma node_at_snocE:
  assumes "node_at h r (is @ [i]) = Some q"
  obtains p where "node_at h r is = Some p" "load h (p, i) = Some q" "q \<noteq> 0"
  using assms by (auto simp: node_at_snoc split: option.splits if_splits)

lemma leaf_val_snoc:
  "leaf_val h r (is @ [i]) =
     (case node_at h r is of None \<Rightarrow> 0
      | Some p \<Rightarrow> (case load h (p, i) of None \<Rightarrow> 0 | Some v \<Rightarrow> v))"
  by (cases "node_at h r is") (simp_all add: leaf_val_def)

subsection \<open>Consequences of well-formedness\<close>

lemma heap_wf_root: "heap_wf c h r \<Longrightarrow> r \<noteq> 0"
  by (simp add: heap_wf_def)

lemma heap_wf_dom:
  "heap_wf c h r \<Longrightarrow> node_at h r is = Some p \<Longrightarrow> length is < Levels c \<Longrightarrow> \<exists>n. h p = Some n"
  by (auto simp: heap_wf_def)

lemma heap_wf_inj:
  "heap_wf c h r \<Longrightarrow> node_at h r is = Some p \<Longrightarrow> node_at h r js = Some p \<Longrightarrow>
   length is < Levels c \<Longrightarrow> length js < Levels c \<Longrightarrow> is = js"
  by (simp add: heap_wf_def)

lemma heap_wf_reach:
  "heap_wf c h r \<Longrightarrow> h p = Some n \<Longrightarrow> \<exists>is. length is < Levels c \<and> node_at h r is = Some p"
  unfolding heap_wf_def by blast

lemma heap_wf_idx: "heap_wf c h r \<Longrightarrow> h p = Some n \<Longrightarrow> n i \<noteq> 0 \<Longrightarrow> i < kFanOut c"
  unfolding heap_wf_def by blast

lemma heap_wf_tag:
  "heap_wf c h r \<Longrightarrow> Suc (length is) = Levels c \<Longrightarrow> node_at h r is = Some p \<Longrightarrow>
   h p = Some n \<Longrightarrow> n i = 0 \<or> odd (n i)"
  unfolding heap_wf_def by blast

lemma heap_wf_Levels: "heap_wf c h r \<Longrightarrow> h p = Some n \<Longrightarrow> 0 < Levels c"
  using heap_wf_reach by fastforce

lemma heap_wf_node_nonzero:
  assumes "heap_wf c h r" "node_at h r is = Some p"
  shows "p \<noteq> 0"
proof (cases "is" rule: rev_cases)
  case Nil
  with assms show ?thesis by (simp add: heap_wf_root)
next
  case (snoc ys y)
  with assms(2) show ?thesis by (auto elim: node_at_snocE)
qed

text \<open>There are at most as many nodes as paths, and fewer when a path is missing.\<close>

lemma node_at_indices:
  assumes "heap_wf c h r" "node_at h p is = Some q"
  shows "set is \<subseteq> {0..<kFanOut c}"
  using assms(2)
proof (induction "is" arbitrary: p)
  case (Cons i "is")
  then show ?case
    using heap_wf_idx [OF assms(1), of p] by (fastforce simp: load_def split: option.splits if_splits)
qed simp

definition node_paths :: "trie_params \<Rightarrow> nat list set" where
  "node_paths c = {is. set is \<subseteq> {0..<kFanOut c} \<and> length is < Levels c}"

lemma card_node_paths: "finite (node_paths c)" "card (node_paths c) = max_nodes c"
proof -
  show "finite (node_paths c)"
    using finite_lists_length_le [of "{0..<kFanOut c}" "Levels c"]
    by (rule rev_finite_subset) (auto simp: node_paths_def)
  show "card (node_paths c) = max_nodes c"
  proof (cases "Levels c")
    case (Suc l)
    then show ?thesis
      using card_lists_length_le [of "{0..<kFanOut c}" l]
      by (simp add: node_paths_def max_nodes_def less_Suc_eq_le lessThan_Suc_atMost)
  qed (simp add: node_paths_def max_nodes_def)
qed

lemma card_dom_less:
  assumes wf: "heap_wf c h r" and none: "node_at h r is = None"
    and "set is \<subseteq> {0..<kFanOut c}" "length is < Levels c"
  shows "card (dom h) < max_nodes c"
proof -
  let ?P = "node_paths c - {is}"
  have "dom h \<subseteq> (\<lambda>js. the (node_at h r js)) ` ?P"
  proof
    fix p
    assume "p \<in> dom h"
    then obtain n where "h p = Some n" by blast
    then obtain js where js: "length js < Levels c" "node_at h r js = Some p"
      using heap_wf_reach [OF wf] by blast
    then have "js \<in> ?P" using node_at_indices [OF wf js(2)] none by (auto simp: node_paths_def)
    with js(2) show "p \<in> (\<lambda>js. the (node_at h r js)) ` ?P" by (intro image_eqI [of _ _ js]) auto
  qed
  then have "card (dom h) \<le> card ?P"
    using card_node_paths(1) by (meson card_image_le card_mono finite_Diff finite_imageI le_trans)
  also have "\<dots> < card (node_paths c)"
    using assms(3,4) card_node_paths(1) by (intro psubset_card_mono) (auto simp: node_paths_def)
  finally show ?thesis by (simp add: card_node_paths)
qed

subsection \<open>Installing a fresh child\<close>

lemma load_add_child:
  assumes "h' = h(fresh \<mapsto> node_t, cur \<mapsto> n(i := fresh))"
  shows "load h' (x, j) =
    (if x = cur then Some (if j = i then fresh else n j)
     else if x = fresh then Some 0 else load h (x, j))"
  by (simp add: assms load_def node_t_def)

lemma node_at_add_child:
  assumes wf: "heap_wf c h r" and at: "node_at h r is = Some cur" and cur: "h cur = Some n"
    and empty: "n i = 0" and fresh: "h fresh = None" "fresh \<noteq> 0"
    and len: "Suc (length is) < Levels c"
    and h': "h' = h(fresh \<mapsto> node_t, cur \<mapsto> n(i := fresh))"
    and js: "length js < Levels c"
  shows "node_at h' r js = (if js = is @ [i] then Some fresh else node_at h r js)"
  using js
proof (induction js rule: rev_induct)
  case Nil
  then show ?case by simp
next
  case (snoc j js)
  then have js: "length js < Levels c" by simp
  then have IH: "node_at h' r js = (if js = is @ [i] then Some fresh else node_at h r js)"
    by (rule snoc.IH)
  note ld = load_add_child [OF h']
  have ne: "cur \<noteq> fresh" using cur fresh by auto
  have none: "node_at h r (is @ [i]) = None"
    using at cur empty by (simp add: node_at_snoc load_def)
  consider (child) "js = is @ [i]" | (absent) "js \<noteq> is @ [i]" "node_at h r js = None"
    | (node) x where "js \<noteq> is @ [i]" "node_at h r js = Some x"
    by (cases "node_at h r js") blast+
  then show ?case
  proof cases
    case child
    have L: "node_at h' r (js @ [j]) = None"
      unfolding node_at_snoc IH using child ne by (simp add: ld)
    have R: "node_at h r (js @ [j]) = None"
      unfolding node_at_snoc using child none by simp
    show ?thesis unfolding L R using child by simp
  next
    case absent
    have L: "node_at h' r (js @ [j]) = None" unfolding node_at_snoc IH using absent by simp
    have R: "node_at h r (js @ [j]) = None" unfolding node_at_snoc using absent by simp
    have "js \<noteq> is" using absent at by auto
    then show ?thesis unfolding L R by simp
  next
    case node
    obtain m where m: "h x = Some m" using heap_wf_dom [OF wf node(2) js] by blast
    have xc: "x = cur \<longleftrightarrow> js = is"
      using heap_wf_inj [OF wf node(2) _ js, of "is"] at node(2) len by auto
    have "x \<noteq> fresh" using m fresh by auto
    then have "load h' (x, j) = (if js = is \<and> j = i then Some fresh else load h (x, j))"
      unfolding ld using xc cur by (auto simp: load_def)
    then show ?thesis
      unfolding node_at_snoc IH using node fresh(2) at by simp
  qed
qed

lemma heap_wf_add_child:
  assumes wf: "heap_wf c h r" and at: "node_at h r is = Some cur" and cur: "h cur = Some n"
    and empty: "n i = 0" and fresh: "h fresh = None" "fresh \<noteq> 0"
    and len: "Suc (length is) < Levels c" and i: "i < kFanOut c"
    and h': "h' = h(fresh \<mapsto> node_t, cur \<mapsto> n(i := fresh))"
  shows "heap_wf c h' r"
proof -
  note na = node_at_add_child [OF wf at cur empty fresh len h']
  have ne: "cur \<noteq> fresh" using cur fresh by auto
  have dom: "dom h' = insert fresh (dom h)" using cur by (auto simp: h')
  have other: "p \<noteq> fresh" if "node_at h r js = Some p" "length js < Levels c" for js p
    using heap_wf_dom [OF wf that] fresh by auto
  have reach: "\<exists>js. length js < Levels c \<and> node_at h' r js = Some p" if p: "p \<in> dom h'" for p
  proof (cases "p = fresh")
    case True
    then show ?thesis using na [of "is @ [i]"] len by (intro exI [of _ "is @ [i]"]) simp
  next
    case False
    then obtain js where js: "length js < Levels c" "node_at h r js = Some p"
      using p heap_wf_reach [OF wf] by (auto simp: dom)
    then have "js \<noteq> is @ [i]" using at cur empty by (auto simp: node_at_snoc load_def)
    with js na [of js] show ?thesis by auto
  qed
  have idx: "j < kFanOut c" if "h' p = Some m" "m j \<noteq> 0" for p m j
    using that heap_wf_idx [OF wf] cur i
    by (auto simp: h' node_t_def split: if_splits)
  have tag: "m j = 0 \<or> odd (m j)"
    if "Suc (length js) = Levels c" "node_at h' r js = Some p" "h' p = Some m" for js p m j
  proof (cases "js = is @ [i]")
    case True
    then show ?thesis using that na [of js] ne by (auto simp: h' node_t_def split: if_splits)
  next
    case False
    then have p: "node_at h r js = Some p" using that na [of js] by simp
    then have "p \<noteq> cur" using heap_wf_inj [OF wf p, of "is"] at that(1) len by auto
    then have "h p = Some m" using that(1,3) other [OF p] by (simp add: h')
    then show ?thesis using heap_wf_tag [OF wf that(1) p] by simp
  qed
  show ?thesis
    unfolding heap_wf_def
  proof (intro conjI allI impI ballI)
    show "r \<noteq> 0" by (rule heap_wf_root [OF wf])
    show "p \<in> dom h'" if "length js < Levels c" "node_at h' r js = Some p" for js p
      using that na [of js] heap_wf_dom [OF wf, of js p] by (auto simp: dom split: if_splits)
    show "js = ks" if "length js < Levels c" "length ks < Levels c"
      "node_at h' r js = Some p" "node_at h' r ks = Some p" for js ks p
      using that na [of js] na [of ks] heap_wf_inj [OF wf, of js p ks] other
      by (auto split: if_splits)
  qed (use reach idx tag in blast)+
qed

lemma leaf_val_add_child:
  assumes wf: "heap_wf c h r" and at: "node_at h r is = Some cur" and cur: "h cur = Some n"
    and empty: "n i = 0" and fresh: "h fresh = None" "fresh \<noteq> 0"
    and len: "Suc (length is) < Levels c"
    and h': "h' = h(fresh \<mapsto> node_t, cur \<mapsto> n(i := fresh))"
    and path: "length path = Levels c"
  shows "leaf_val h' r path = leaf_val h r path"
proof -
  obtain js j where p: "path = js @ [j]" using path len by (cases path rule: rev_cases) auto
  then have js: "length js < Levels c" "length is < length js" using path len by auto
  note na = node_at_add_child [OF wf at cur empty fresh len h' js(1)]
  have ne: "cur \<noteq> fresh" using cur fresh by auto
  have none: "node_at h r (is @ [i]) = None"
    using at cur empty by (simp add: node_at_snoc load_def)
  have "load h' (x, j) = load h (x, j)" if x: "node_at h r js = Some x" for x
  proof -
    have "x \<noteq> cur" using heap_wf_inj [OF wf x, of "is"] at js len by auto
    moreover have "x \<noteq> fresh" using heap_wf_dom [OF wf x js(1)] fresh by auto
    ultimately show ?thesis by (simp add: load_add_child [OF h'])
  qed
  then show ?thesis
    unfolding p leaf_val_snoc na using ne none
    by (cases "node_at h r js") (auto simp: load_add_child [OF h'])
qed

subsection \<open>Writing a leaf slot\<close>

lemma node_at_store_leaf:
  assumes wf: "heap_wf c h r" and at: "node_at h r is = Some p" and len: "Suc (length is) = Levels c"
    and h': "h' = h(p \<mapsto> n)" and js: "length js < Levels c"
  shows "node_at h' r js = node_at h r js"
  using js
proof (induction js rule: rev_induct)
  case (snoc j js)
  then have js: "length js < Levels c" "length js \<noteq> length is" using len by auto
  have "load h' (x, j) = load h (x, j)" if x: "node_at h r js = Some x" for x
    using heap_wf_inj [OF wf x, of "is"] at js len by (auto simp: h' load_def)
  then show ?case
    unfolding node_at_snoc snoc.IH [OF js(1)] by (cases "node_at h r js") simp_all
qed simp

lemma heap_wf_store_leaf:
  assumes wf: "heap_wf c h r" and at: "node_at h r is = Some p" and len: "Suc (length is) = Levels c"
    and p: "h p = Some n" and i: "i < kFanOut c" and v: "v = 0 \<or> odd v"
    and h': "h' = h(p \<mapsto> n(i := v))"
  shows "heap_wf c h' r"
proof -
  note na = node_at_store_leaf [OF wf at len h']
  have dom: "dom h' = dom h" using p by (auto simp: h')
  have idx: "j < kFanOut c" if "h' q = Some m" "m j \<noteq> 0" for q m j
    using that heap_wf_idx [OF wf] p i by (auto simp: h' split: if_splits)
  have tag: "m j = 0 \<or> odd (m j)"
    if "Suc (length js) = Levels c" "node_at h' r js = Some q" "h' q = Some m" for js q m j
  proof -
    have q: "node_at h r js = Some q" using that(1,2) na [of js] by simp
    show ?thesis
      using that(3) heap_wf_tag [OF wf that(1) q, where i = j] p v by (auto simp: h' split: if_splits)
  qed
  show ?thesis
    unfolding heap_wf_def
  proof (intro conjI allI impI ballI)
    show "r \<noteq> 0" by (rule heap_wf_root [OF wf])
    show "q \<in> dom h'" if "length js < Levels c" "node_at h' r js = Some q" for js q
      using that na [of js] heap_wf_dom [OF wf, of js q] by (auto simp: dom)
    show "js = ks" if "length js < Levels c" "length ks < Levels c"
      "node_at h' r js = Some q" "node_at h' r ks = Some q" for js ks q
      using that na [of js] na [of ks] heap_wf_inj [OF wf, of js q ks] by simp
    show "\<exists>js. length js < Levels c \<and> node_at h' r js = Some q" if q: "q \<in> dom h'" for q
    proof -
      obtain m where "h q = Some m" using q by (auto simp: dom)
      then obtain js where "length js < Levels c" "node_at h r js = Some q"
        using heap_wf_reach [OF wf] by blast
      with na [of js] show ?thesis by auto
    qed
  qed (use idx tag in blast)+
qed

lemma leaf_val_store_leaf:
  assumes wf: "heap_wf c h r" and at: "node_at h r is = Some p" and len: "Suc (length is) = Levels c"
    and p: "h p = Some n" and h': "h' = h(p \<mapsto> n(i := v))" and path: "length path = Levels c"
  shows "leaf_val h' r path = (if path = is @ [i] then v else leaf_val h r path)"
proof -
  obtain js j where pj: "path = js @ [j]" using path len by (cases path rule: rev_cases) auto
  then have js: "length js < Levels c" using path by simp
  note na = node_at_store_leaf [OF wf at len h' js]
  have "x = p \<longleftrightarrow> js = is" if x: "node_at h r js = Some x" for x
    using heap_wf_inj [OF wf x, of "is"] at js len x by auto
  then show ?thesis
    unfolding pj leaf_val_snoc na using at p
    by (cases "node_at h r js") (auto simp: h' load_def)
qed

section \<open>Operations on paths\<close>

lemma level_idx_less: "level_idx c page_num d < kFanOut c"
  by (simp add: level_idx_def kIdxMask_def kFanOut_def and_low_mask unat_take_bit)

lemma length_page_path [simp]: "length (page_path c page_num) = Levels c"
  by (simp add: page_path_def)

lemma page_path_snoc:
  "0 < Levels c \<Longrightarrow>
   page_path c page_num =
   map (level_idx c page_num) [0..<Levels c - 1] @ [level_idx c page_num (Levels c - 1)]"
  by (cases "Levels c") (simp_all add: page_path_def)

lemma lookup_walk_node_at:
  assumes "\<And>is p. is \<noteq> [] \<Longrightarrow> length is < Levels c - d \<Longrightarrow> node_at h cur is = Some p \<Longrightarrow> p \<in> dom h"
    and "cur \<in> dom h"
  shows "lookup_walk c h page_num cur d =
    Some (case node_at h cur (map (level_idx c page_num) [d..<Levels c - 1]) of
            None \<Rightarrow> 0 | Some p \<Rightarrow> p)"
  using assms
proof (induction c h page_num cur d rule: lookup_walk.induct)
  case (1 c h page_num cur d)
  show ?case
  proof (cases "d < Levels c - 1")
    case False
    then show ?thesis by (simp add: lookup_walk.simps [of c h page_num cur d])
  next
    case True
    obtain n where n: "h cur = Some n" using "1.prems"(2) by blast
    let ?i = "level_idx c page_num d"
    have ld: "load h (cur, ?i) = Some (n ?i)" using n by (simp add: load_def)
    have up: "[d..<Levels c - 1] = d # [Suc d..<Levels c - 1]" using True by (rule upt_conv_Cons)
    show ?thesis
    proof (cases "n ?i = 0")
      case zero: True
      then show ?thesis
        unfolding lookup_walk.simps [of c h page_num cur d] up using True ld by simp
    next
      case nz: False
      have "n ?i \<in> dom h" using "1.prems"(1) [of "[?i]"] True ld nz by simp
      moreover have "p \<in> dom h"
        if "is \<noteq> []" "length is < Levels c - Suc d" "node_at h (n ?i) is = Some p" for "is" p
        using "1.prems"(1) [of "?i # is" p] that ld nz by simp
      ultimately show ?thesis
        unfolding lookup_walk.simps [of c h page_num cur d] up
        using "1.IH" [OF True ld nz] True ld nz by simp
    qed
  qed
qed

lemma lookup_walk_root:
  assumes wf: "heap_wf c h r" and L: "0 < Levels c"
  shows "lookup_walk c h page_num r 0 =
    Some (case node_at h r (butlast (page_path c page_num)) of None \<Rightarrow> 0 | Some p \<Rightarrow> p)"
proof -
  have "r \<in> dom h" using heap_wf_dom [OF wf, of "[]"] L by auto
  moreover have "p \<in> dom h" if "length is < Levels c" "node_at h r is = Some p" for "is" p
    using heap_wf_dom [OF wf that(2,1)] by auto
  ultimately show ?thesis by (subst lookup_walk_node_at) (auto simp: page_path_snoc [OF L])
qed

text \<open>
  What a descent that installs nodes does to a heap: paths and leaf values survive.
\<close>

definition heap_grown :: "trie_params \<Rightarrow> u64 \<Rightarrow> heap \<Rightarrow> heap \<Rightarrow> bool" where
  "heap_grown c r h h' \<longleftrightarrow>
     heap_wf c h' r \<and>
     (\<forall>is p. length is < Levels c \<longrightarrow> node_at h r is = Some p \<longrightarrow> node_at h' r is = Some p) \<and>
     (\<forall>path. length path = Levels c \<longrightarrow> leaf_val h' r path = leaf_val h r path)"

lemma heap_grown_refl: "heap_wf c h r \<Longrightarrow> heap_grown c r h h"
  by (simp add: heap_grown_def)

lemma heap_grown_trans: "heap_grown c r h h' \<Longrightarrow> heap_grown c r h' h'' \<Longrightarrow> heap_grown c r h h''"
  by (simp add: heap_grown_def)

lemma heap_grown_dom: "heap_wf c h r \<Longrightarrow> heap_grown c r h h' \<Longrightarrow> dom h \<subseteq> dom h'"
  using heap_wf_dom unfolding heap_grown_def heap_wf_def by (metis subsetI)

lemma heap_grown_add_child:
  assumes wf: "heap_wf c h r" and at: "node_at h r is = Some cur" and cur: "h cur = Some n"
    and empty: "n i = 0" and fresh: "h fresh = None" "fresh \<noteq> 0"
    and len: "Suc (length is) < Levels c" and i: "i < kFanOut c"
    and h': "h' = h(fresh \<mapsto> node_t, cur \<mapsto> n(i := fresh))"
  shows "heap_grown c r h h' \<and> node_at h' r (is @ [i]) = Some fresh"
proof -
  note args = wf at cur empty fresh len
  have none: "node_at h r (is @ [i]) = None"
    using at cur empty by (simp add: node_at_snoc load_def)
  have "node_at h' r js = Some p" if "length js < Levels c" "node_at h r js = Some p" for js p
    using node_at_add_child [OF args h' that(1)] that(2) none by auto
  moreover have "node_at h' r (is @ [i]) = Some fresh"
    using node_at_add_child [OF args h', of "is @ [i]"] len by simp
  ultimately show ?thesis
    using heap_wf_add_child [OF args i h'] leaf_val_add_child [OF args h']
    by (simp add: heap_grown_def)
qed

text \<open>One iteration of the descent, in each of its three outcomes.\<close>

lemma insert_walk_child:
  "d < Levels c - 1 \<Longrightarrow> load h (cur, level_idx c page_num d) = Some child \<Longrightarrow> child \<noteq> 0 \<Longrightarrow>
   insert_walk c h page_num cur d = insert_walk c h page_num child (Suc d)"
  by (simp add: insert_walk.simps [of c h page_num cur d])

lemma insert_walk_oom:
  "d < Levels c - 1 \<Longrightarrow> load h (cur, level_idx c page_num d) = Some 0 \<Longrightarrow> new_node c h = 0 \<Longrightarrow>
   insert_walk c h page_num cur d = Some (h, 0)"
  by (simp add: insert_walk.simps [of c h page_num cur d])

lemma insert_walk_grow:
  assumes "d < Levels c - 1" "h cur = Some n" "n (level_idx c page_num d) = 0"
    and "new_node c h = fresh" "fresh \<noteq> 0" "h fresh = None"
  shows "insert_walk c h page_num cur d =
    insert_walk c (h(fresh \<mapsto> node_t, cur \<mapsto> n(level_idx c page_num d := fresh))) page_num fresh (Suc d)"
proof -
  have "cur \<noteq> fresh" using assms by auto
  then show ?thesis
    using assms by (simp add: insert_walk.simps [of c h page_num cur d] compare_exchange_def
        load_def store_def)
qed

lemma insert_walk_spec:
  assumes "heap_wf c h r" "alloc_ok c"
    and "node_at h r (map (level_idx c page_num) [0..<d]) = Some cur" "d < Levels c"
  shows "\<exists>h' cur'. insert_walk c h page_num cur d = Some (h', cur') \<and> heap_grown c r h h' \<and>
    (cur' \<noteq> 0 \<longrightarrow> node_at h' r (map (level_idx c page_num) [0..<Levels c - 1]) = Some cur') \<and>
    (cur' = 0 \<longrightarrow> new_node c h' = 0) \<and> (alloc_total c \<longrightarrow> cur' \<noteq> 0)"
  using assms
proof (induction "Levels c - d" arbitrary: h cur d)
  case 0
  then show ?case by simp
next
  case (Suc k)
  note wf = Suc.prems(1) and alloc = Suc.prems(2) and at = Suc.prems(3)
  let ?path = "map (level_idx c page_num)" and ?i = "level_idx c page_num d"
  have IH: "\<exists>h' cur'. insert_walk c h1 page_num cur1 (Suc d) = Some (h', cur') \<and> heap_grown c r h1 h' \<and>
      (cur' \<noteq> 0 \<longrightarrow> node_at h' r (?path [0..<Levels c - 1]) = Some cur') \<and>
      (cur' = 0 \<longrightarrow> new_node c h' = 0) \<and> (alloc_total c \<longrightarrow> cur' \<noteq> 0)"
    if "d < Levels c - 1" "heap_wf c h1 r"
      "node_at h1 r (?path [0..<d] @ [?i]) = Some cur1" for h1 cur1
    using Suc.hyps that alloc by simp
  have cur0: "cur \<noteq> 0" by (rule heap_wf_node_nonzero [OF wf at])
  show ?case
  proof (cases "d < Levels c - 1")
    case False
    then have "d = Levels c - 1" using Suc.prems(4) by simp
    moreover from False have "insert_walk c h page_num cur d = Some (h, cur)"
      by (simp add: insert_walk.simps [of c h page_num cur d])
    ultimately show ?thesis using at cur0 heap_grown_refl [OF wf] by simp
  next
    case True
    obtain n where n: "h cur = Some n" using heap_wf_dom [OF wf at] Suc.prems(4) by auto
    then have ld: "load h (cur, ?i) = Some (n ?i)" by (simp add: load_def)
    consider (child) "n ?i \<noteq> 0" | (oom) "n ?i = 0" "new_node c h = 0"
      | (grow) "n ?i = 0" "new_node c h \<noteq> 0" by blast
    then show ?thesis
    proof cases
      case child
      then have "node_at h r (?path [0..<d] @ [?i]) = Some (n ?i)"
        unfolding node_at_snoc using at ld by simp
      from IH [OF True wf this] show ?thesis
        by (simp only: insert_walk_child [OF True ld child])
    next
      case oom
      have "node_at h r (?path [0..<d] @ [?i]) = None"
        unfolding node_at_snoc using at ld oom(1) by simp
      then have "card (dom h) < max_nodes c"
        using True level_idx_less by (intro card_dom_less [OF wf, of "?path [0..<d] @ [?i]"]) auto
      then have "\<not> alloc_total c" using oom(2) by (auto simp: alloc_total_def)
      with oom ld True show ?thesis using heap_grown_refl [OF wf] by (simp add: insert_walk_oom)
    next
      case grow
      define f where "f = new_node c h"
      have f: "new_node c h = f" "f \<noteq> 0" "h f = None"
        using alloc grow(2) unfolding alloc_ok_def f_def by auto
      define h' where "h' = h(f \<mapsto> node_t, cur \<mapsto> n(?i := f))"
      have len: "Suc (length (?path [0..<d])) < Levels c" using True by simp
      have g: "heap_grown c r h h'" "node_at h' r (?path [0..<d] @ [?i]) = Some f"
        using heap_grown_add_child [OF wf at n grow(1) f(3,2) len level_idx_less h'_def] by auto
      then have "heap_wf c h' r" by (simp add: heap_grown_def)
      from IH [OF True this g(2)] g(1) show ?thesis
        unfolding insert_walk_grow [OF True n grow(1) f] h'_def [symmetric]
        by (auto intro: heap_grown_trans)
    qed
  qed
qed

section \<open>Page numbers\<close>

lemma unat_level_idx:
  "level_idx c page_num d = unat page_num div 2 ^ ((Levels c - 1 - d) * Stride c) mod 2 ^ Stride c"
  by (simp add: level_idx_def kIdxMask_def and_low_mask unat_take_bit unat_drop_bit)

lemma digits_eq_iff:
  fixes x y :: nat
  shows "(\<forall>k < n. x div 2 ^ (k * s) mod 2 ^ s = y div 2 ^ (k * s) mod 2 ^ s) \<longleftrightarrow>
         x mod 2 ^ (s * n) = y mod 2 ^ (s * n)"
proof (induction n)
  case 0
  then show ?case by simp
next
  case (Suc n)
  have split: "z mod 2 ^ (s * Suc n) = 2 ^ (s * n) * (z div 2 ^ (s * n) mod 2 ^ s) + z mod 2 ^ (s * n)"
    for z :: nat
    by (simp add: power_add mult.commute [of "2 ^ s"] mod_mult2_eq)
  have uniq: "2 ^ (s * n) * a + b = 2 ^ (s * n) * a' + b' \<longleftrightarrow> a = a' \<and> b = b'"
    if "b < 2 ^ (s * n)" "b' < 2 ^ (s * n)" for a a' b b' :: nat
  proof
    assume e: "2 ^ (s * n) * a + b = 2 ^ (s * n) * a' + b'"
    have "(2 ^ (s * n) * a + b) div 2 ^ (s * n) = a" "(2 ^ (s * n) * a' + b') div 2 ^ (s * n) = a'"
      using that by simp_all
    with e show "a = a' \<and> b = b'" by auto
  qed simp
  show ?case
    unfolding All_less_Suc Suc.IH split by (subst uniq) (auto simp: mult.commute)
qed

text \<open>The pages that share their leaf slot with a page: those equal to it in the covered bits.\<close>

definition same_page :: "trie_params \<Rightarrow> u64 \<Rightarrow> u64 \<Rightarrow> bool" where
  "same_page c p q \<longleftrightarrow> take_bit (Stride c * Levels c) p = take_bit (Stride c * Levels c) q"

lemma page_path_eq_iff: "page_path c p = page_path c q \<longleftrightarrow> same_page c p q"
proof -
  have "page_path c p = page_path c q \<longleftrightarrow> (\<forall>d < Levels c. level_idx c p d = level_idx c q d)"
    by (auto simp: page_path_def)
  also have "\<dots> \<longleftrightarrow> (\<forall>k < Levels c. unat p div 2 ^ (k * Stride c) mod 2 ^ Stride c =
      unat q div 2 ^ (k * Stride c) mod 2 ^ Stride c)" (is "(\<forall>d < ?L. ?D d) \<longleftrightarrow> (\<forall>k < ?L. ?K k)")
  proof -
    have "?D d \<longleftrightarrow> ?K (?L - 1 - d)" for d by (simp only: unat_level_idx)
    moreover have "k < ?L \<Longrightarrow> ?L - 1 - (?L - 1 - k) = k \<and> ?L - 1 - k < ?L" for k by auto
    ultimately show ?thesis by metis
  qed
  also have "\<dots> \<longleftrightarrow> unat p mod 2 ^ (Stride c * Levels c) = unat q mod 2 ^ (Stride c * Levels c)"
    by (rule digits_eq_iff)
  also have "\<dots> \<longleftrightarrow> same_page c p q"
    by (simp add: same_page_def word_unat_eq_iff unat_take_bit)
  finally show ?thesis .
qed

lemma same_page_covered:
  assumes "unat p < 2 ^ (Stride c * Levels c)" "unat q < 2 ^ (Stride c * Levels c)"
  shows "same_page c p q \<longleftrightarrow> p = q"
  using assms by (simp add: same_page_def word_unat_eq_iff unat_take_bit)

section \<open>The operations\<close>

lemma trie_wf_heap: "trie_wf c t \<Longrightarrow> heap_wf c (nodes t) (root t)"
  by (simp add: trie_wf_def)

definition page_val :: "trie_params \<Rightarrow> ncrit_trie \<Rightarrow> u64 \<Rightarrow> u64" where
  "page_val c t page_num = leaf_val (nodes t) (root t) (page_path c page_num)"

lemma page_val_same: "same_page c p q \<Longrightarrow> page_val c t p = page_val c t q"
  by (simp add: page_val_def page_path_eq_iff [symmetric])

text \<open>
  The slot a page's value is stored in, once the path to it exists. The cache keeps such
  slots, so it matters that they never move.
\<close>

definition page_slot :: "trie_params \<Rightarrow> ncrit_trie \<Rightarrow> u64 \<Rightarrow> slot option" where
  "page_slot c t page_num =
     map_option (\<lambda>p. (p, last (page_path c page_num)))
       (node_at (nodes t) (root t) (butlast (page_path c page_num)))"

lemma load_page_slot:
  assumes "trie_wf c t" "0 < Levels c" "page_slot c t page_num = Some s"
  shows "load (nodes t) s = Some (page_val c t page_num)"
proof -
  obtain p where p: "node_at (nodes t) (root t) (butlast (page_path c page_num)) = Some p"
    and s: "s = (p, last (page_path c page_num))"
    using assms(3) by (auto simp: page_slot_def)
  obtain n where "nodes t p = Some n"
    using heap_wf_dom [OF trie_wf_heap [OF assms(1)] p] assms(2) by auto
  then show ?thesis by (simp add: s page_val_def leaf_val_def p load_def)
qed

lemma page_val_tag:
  assumes "trie_wf c t" "0 < Levels c"
  shows "page_val c t q = 0 \<or> odd (page_val c t q)"
proof (cases "node_at (nodes t) (root t) (butlast (page_path c q))")
  case (Some p)
  obtain n where n: "nodes t p = Some n"
    using heap_wf_dom [OF trie_wf_heap [OF assms(1)] Some] assms(2) by auto
  show ?thesis
    using heap_wf_tag [OF trie_wf_heap [OF assms(1)] _ Some n, of "last (page_path c q)"] assms(2) n Some
    by (simp add: page_val_def leaf_val_def load_def)
qed (simp add: page_val_def leaf_val_def)

lemma lookup_page_with_slot_spec:
  assumes wf: "trie_wf c t" and L: "0 < Levels c"
  shows "lookup_page_with_slot c t page_num =
    Some (if page_val c t page_num = 0 then (nullptr, None)
          else (page_val c t page_num AND NOT kLeafTag, page_slot c t page_num))"
proof -
  note h = trie_wf_heap [OF wf]
  have idx: "level_idx c page_num (Levels c - 1) = last (page_path c page_num)"
    using page_path_snoc [OF L] by simp
  show ?thesis
  proof (cases "node_at (nodes t) (root t) (butlast (page_path c page_num))")
    case None
    then show ?thesis
      by (simp add: lookup_page_with_slot_def lookup_walk_root [OF h L] page_val_def leaf_val_def)
  next
    case (Some p)
    then have s: "page_slot c t page_num = Some (p, last (page_path c page_num))"
      by (simp add: page_slot_def)
    show ?thesis
      using load_page_slot [OF wf L s] heap_wf_node_nonzero [OF h Some] Some s idx
      by (simp add: lookup_page_with_slot_def lookup_walk_root [OF h L])
  qed
qed

lemma lookup_page_spec:
  "trie_wf c t \<Longrightarrow> 0 < Levels c \<Longrightarrow>
   lookup_page c t page_num = Some (page_val c t page_num AND NOT kLeafTag)"
  by (simp add: lookup_page_def lookup_page_with_slot_spec)

lemma or_tag_odd: "odd (v OR kLeafTag)"
  by (simp add: kLeafTag_def even_or_iff)

lemma untag: "even v \<Longrightarrow> (v OR kLeafTag) AND NOT kLeafTag = v"
  unfolding kLeafTag_def
  by (rule bit_word_eqI) (auto simp: bit_simps simp flip: bit_0)

lemma tag_untag: "odd v \<Longrightarrow> (v AND NOT kLeafTag) OR kLeafTag = v"
  unfolding kLeafTag_def
  by (rule bit_word_eqI) (auto simp: bit_simps simp flip: bit_0)

lemma store_leaf_spec:
  assumes wf: "heap_wf c h r" and L: "0 < Levels c"
    and at: "node_at h r (butlast (page_path c page_num)) = Some cur" and v: "v = 0 \<or> odd v"
  shows "\<exists>h'. store h (cur, level_idx c page_num (Levels c - 1)) v = Some h' \<and>
    heap_wf c h' r \<and>
    (\<forall>is. length is < Levels c \<longrightarrow> node_at h' r is = node_at h r is) \<and>
    (\<forall>q. leaf_val h' r (page_path c q) =
         (if same_page c page_num q then v else leaf_val h r (page_path c q)))"
proof -
  let ?i = "level_idx c page_num (Levels c - 1)"
  have pp: "page_path c page_num = butlast (page_path c page_num) @ [?i]"
    using page_path_snoc [OF L] by simp
  have len: "Suc (length (butlast (page_path c page_num))) = Levels c" using L by simp
  obtain n where n: "h cur = Some n" using heap_wf_dom [OF wf at] L by auto
  define h' where "h' = h(cur \<mapsto> n(?i := v))"
  have "leaf_val h' r (page_path c q) =
      (if same_page c page_num q then v else leaf_val h r (page_path c q))" for q
    using leaf_val_store_leaf [OF wf at len n h'_def, of "page_path c q"] pp
    by (auto simp: page_path_eq_iff [symmetric])
  moreover have "node_at h' r is = node_at h r is" if "length is < Levels c" for "is"
    using node_at_store_leaf [OF wf at len h'_def that] .
  moreover have "heap_wf c h' r"
    using heap_wf_store_leaf [OF wf at len n level_idx_less v h'_def] .
  moreover have "store h (cur, ?i) v = Some h'" using n by (simp add: store_def h'_def)
  ultimately show ?thesis by auto
qed

text \<open>
  What one insertion does, whatever the allocator answers: either the page has its value, or
  memory ran out and no page changed. Slots that exist stay where they are.
\<close>

lemma insert_leaf_spec:
  assumes wf: "trie_wf c t" and L: "0 < Levels c" and alloc: "alloc_ok c"
  shows "\<exists>t'. insert_leaf c t page_num val = Some t' \<and> trie_wf c t' \<and> root t' = root t \<and>
    (\<forall>q s. page_slot c t q = Some s \<longrightarrow> page_slot c t' q = Some s) \<and> dom (nodes t) \<subseteq> dom (nodes t') \<and>
    ((\<forall>q. page_val c t' q = (if same_page c page_num q then val OR kLeafTag else page_val c t q)) \<or>
     new_node c (nodes t') = 0 \<and> \<not> alloc_total c \<and> (\<forall>q. page_val c t' q = page_val c t q))"
proof -
  note h = trie_wf_heap [OF wf]
  have bl: "butlast (page_path c page_num) = map (level_idx c page_num) [0..<Levels c - 1]"
    using page_path_snoc [OF L] by simp
  obtain h1 cur where w: "insert_walk c (nodes t) page_num (root t) 0 = Some (h1, cur)"
    and g: "heap_grown c (root t) (nodes t) h1"
    and cur: "cur \<noteq> 0 \<longrightarrow> node_at h1 (root t) (butlast (page_path c page_num)) = Some cur"
    and tot: "alloc_total c \<longrightarrow> cur \<noteq> 0" "cur = 0 \<longrightarrow> new_node c h1 = 0"
    using insert_walk_spec [OF h alloc, of page_num 0 "root t"] L bl by auto
  have wf1: "heap_wf c h1 (root t)" using g by (simp add: heap_grown_def)
  have len: "length (butlast (page_path c q)) < Levels c" for q using L by simp
  have slots1: "node_at h1 (root t) (butlast (page_path c q)) = Some p"
    if "node_at (nodes t) (root t) (butlast (page_path c q)) = Some p" for q p
    using g that len [of q] unfolding heap_grown_def by blast
  have vals1: "leaf_val h1 (root t) (page_path c q) = page_val c t q" for q
    using g unfolding heap_grown_def page_val_def by simp
  have dom1: "dom (nodes t) \<subseteq> dom h1" using heap_grown_dom [OF h g] .
  show ?thesis
  proof (cases "cur = 0")
    case True
    then show ?thesis
      using w wf1 slots1 vals1 tot dom1
      by (auto simp: insert_leaf_def trie_wf_def page_slot_def page_val_def)
  next
    case False
    obtain h2 where "store h1 (cur, level_idx c page_num (Levels c - 1)) (val OR kLeafTag) = Some h2"
      "heap_wf c h2 (root t)"
      "\<forall>is. length is < Levels c \<longrightarrow> node_at h2 (root t) is = node_at h1 (root t) is"
      "\<forall>q. leaf_val h2 (root t) (page_path c q) =
         (if same_page c page_num q then val OR kLeafTag else leaf_val h1 (root t) (page_path c q))"
      using store_leaf_spec [OF wf1 L, of page_num cur "val OR kLeafTag"] cur False or_tag_odd by blast
    moreover from this(1) have "dom h2 = dom h1" by (auto simp: store_Some_iff split: if_splits)
    ultimately show ?thesis
      using w False slots1 vals1 len dom1
      by (auto simp: insert_leaf_def trie_wf_def page_slot_def page_val_def)
  qed
qed

lemma clear_leaf_spec:
  assumes wf: "trie_wf c t" and L: "0 < Levels c"
  shows "\<exists>t'. clear_leaf c t page_num = Some t' \<and> trie_wf c t' \<and> root t' = root t \<and>
    (\<forall>q. page_slot c t' q = page_slot c t q) \<and>
    (\<forall>q. page_val c t' q = (if same_page c page_num q then 0 else page_val c t q))"
proof -
  note h = trie_wf_heap [OF wf]
  have len: "length (butlast (page_path c q)) < Levels c" for q using L by simp
  show ?thesis
  proof (cases "node_at (nodes t) (root t) (butlast (page_path c page_num))")
    case None
    then have "clear_leaf c t page_num = Some t"
      by (simp add: clear_leaf_def lookup_walk_root [OF h L])
    moreover have "page_val c t q = 0" if "same_page c page_num q" for q
      using None page_val_same [OF that, of t] by (simp add: page_val_def leaf_val_def)
    ultimately show ?thesis using wf by simp
  next
    case (Some cur)
    obtain h2 where st: "store (nodes t) (cur, level_idx c page_num (Levels c - 1)) 0 = Some h2"
      "heap_wf c h2 (root t)"
      "\<forall>is. length is < Levels c \<longrightarrow> node_at h2 (root t) is = node_at (nodes t) (root t) is"
      "\<forall>q. leaf_val h2 (root t) (page_path c q) =
         (if same_page c page_num q then 0 else leaf_val (nodes t) (root t) (page_path c q))"
      using store_leaf_spec [OF h L Some, of 0] by blast
    then have "clear_leaf c t page_num = Some (t\<lparr>nodes := h2\<rparr>)"
      using heap_wf_node_nonzero [OF h Some] Some
      by (simp add: clear_leaf_def lookup_walk_root [OF h L])
    with st show ?thesis
      using len by (simp add: trie_wf_def page_slot_def page_val_def)
  qed
qed

section \<open>The contract of a page table\<close>

text \<open>
  What the registry relies on: lookups are total, an insertion or a removal changes exactly
  the pages that alias the given one, and everything keeps the invariant. The two range
  operations of the trie are loops over this interface, verified once here.
\<close>

locale page_table =
  fixes lookup :: "'s \<Rightarrow> u64 \<Rightarrow> u64 option"
    and insert :: "'s \<Rightarrow> u64 \<Rightarrow> u64 \<Rightarrow> 's option"
    and clear :: "'s \<Rightarrow> u64 \<Rightarrow> 's option"
    and aliases :: "u64 \<Rightarrow> u64 \<Rightarrow> bool"
    and value_ok :: "u64 \<Rightarrow> bool"
    and invar :: "'s \<Rightarrow> bool"
  assumes lookup_total: "invar s \<Longrightarrow> \<exists>v. lookup s q = Some v"
    and insert_law: "invar s \<Longrightarrow> value_ok v \<Longrightarrow>
      \<exists>s'. insert s p v = Some s' \<and> invar s' \<and>
           (\<forall>q. lookup s' q = (if aliases p q then Some v else lookup s q))"
    and clear_law: "invar s \<Longrightarrow>
      \<exists>s'. clear s p = Some s' \<and> invar s' \<and>
           (\<forall>q. lookup s' q = (if aliases p q then Some 0 else lookup s q))"
begin

lemma insert_all:
  assumes "invar s" "value_ok v"
  shows "\<exists>s'. foldM (\<lambda>p s. insert s p v) ps s = Some s' \<and> invar s' \<and>
    (\<forall>q. lookup s' q = (if \<exists>p \<in> set ps. aliases p q then Some v else lookup s q))"
  using assms(1)
proof (induction ps arbitrary: s)
  case (Cons p ps)
  obtain s1 where s1: "insert s p v = Some s1" "invar s1"
    "\<forall>q. lookup s1 q = (if aliases p q then Some v else lookup s q)"
    using insert_law [OF Cons.prems assms(2)] by blast
  with Cons.IH [OF s1(2)] show ?case by auto
qed simp

lemma clear_all:
  assumes "invar s"
  shows "\<exists>s'. foldM (\<lambda>p s. clear s p) ps s = Some s' \<and> invar s' \<and>
    (\<forall>q. lookup s' q = (if \<exists>p \<in> set ps. aliases p q then Some 0 else lookup s q))"
  using assms
proof (induction ps arbitrary: s)
  case (Cons p ps)
  obtain s1 where s1: "clear s p = Some s1" "invar s1"
    "\<forall>q. lookup s1 q = (if aliases p q then Some 0 else lookup s q)"
    using clear_law [OF Cons.prems] by blast
  with Cons.IH [OF s1(2)] show ?case by auto
qed simp

text \<open>Removing a list of pages that was inserted brings back what was there, if nothing was.\<close>

lemma clear_insert_all:
  assumes "invar s" "value_ok v" and "\<And>q. \<exists>p \<in> set ps. aliases p q \<Longrightarrow> lookup s q = Some 0"
  shows "\<exists>s' s''. foldM (\<lambda>p s. insert s p v) ps s = Some s' \<and>
    foldM (\<lambda>p s. clear s p) ps s' = Some s'' \<and> invar s'' \<and> (\<forall>q. lookup s'' q = lookup s q)"
proof -
  obtain s' where s': "foldM (\<lambda>p s. insert s p v) ps s = Some s'" "invar s'"
    "\<forall>q. lookup s' q = (if \<exists>p \<in> set ps. aliases p q then Some v else lookup s q)"
    using insert_all [OF assms(1,2)] by blast
  obtain s'' where "foldM (\<lambda>p s. clear s p) ps s' = Some s''" "invar s''"
    "\<forall>q. lookup s'' q = (if \<exists>p \<in> set ps. aliases p q then Some 0 else lookup s' q)"
    using clear_all [OF s'(2)] by blast
  with s' assms(3) show ?thesis by simp
qed

end

definition trie_ready :: "trie_params \<Rightarrow> ncrit_trie \<Rightarrow> bool" where
  "trie_ready c t \<longleftrightarrow> trie_wf c t \<and> params_ok c \<and> alloc_ok c \<and> alloc_total c"

interpretation trie: page_table "lookup_page c" "insert_leaf c" "clear_leaf c" "same_page c" even "trie_ready c"
  for c
proof
  fix t q v p
  assume t: "trie_ready c t"
  then have wf: "trie_wf c t" and L: "0 < Levels c" and a: "alloc_ok c" "alloc_total c"
    by (simp_all add: trie_ready_def params_ok_def)
  show "\<exists>v. lookup_page c t q = Some v" by (simp add: lookup_page_spec [OF wf L])
  show "\<exists>t'. insert_leaf c t p v = Some t' \<and> trie_ready c t' \<and>
      (\<forall>q. lookup_page c t' q = (if same_page c p q then Some v else lookup_page c t q))"
    if "even v"
    using insert_leaf_spec [OF wf L a(1), of p v] t a(2)
    by (auto simp: trie_ready_def lookup_page_spec L untag [OF that])
  show "\<exists>t'. clear_leaf c t p = Some t' \<and> trie_ready c t' \<and>
      (\<forall>q. lookup_page c t' q = (if same_page c p q then Some 0 else lookup_page c t q))"
    using clear_leaf_spec [OF wf L, of p] t by (auto simp: trie_ready_def lookup_page_spec L)
qed

lemma same_page_refl [simp]: "same_page c q q"
  by (simp add: same_page_def)

text \<open>The same without any promise of \<^verbatim>\<open>new\<close>: the page is mapped, or memory ran out.\<close>

lemma insert_leaf_effect:
  assumes "trie_wf c t" "params_ok c" "alloc_ok c" "even val"
  shows "\<exists>t'. insert_leaf c t page_num val = Some t' \<and> trie_wf c t' \<and> dom (nodes t) \<subseteq> dom (nodes t') \<and>
    (\<forall>q s. page_slot c t q = Some s \<longrightarrow> page_slot c t' q = Some s) \<and>
    ((\<forall>q. lookup_page c t' q = (if same_page c page_num q then Some val else lookup_page c t q)) \<or>
     new_node c (nodes t') = 0 \<and> \<not> alloc_total c \<and> (\<forall>q. lookup_page c t' q = lookup_page c t q))"
proof -
  have L: "0 < Levels c" using assms(2) by (simp add: params_ok_def)
  show ?thesis
    using insert_leaf_spec [OF assms(1) L assms(3), of page_num val] assms(1)
    by (auto simp: lookup_page_spec L untag [OF assms(4)])
qed

text \<open>A loop of insertions: where memory runs out a page may keep its old value.\<close>

lemma insert_pages_effect:
  assumes "trie_wf c t" "params_ok c" "alloc_ok c" "even val"
  shows "\<exists>t'. foldM (\<lambda>p t. insert_leaf c t p val) ps t = Some t' \<and> trie_wf c t' \<and> dom (nodes t) \<subseteq> dom (nodes t') \<and>
    (\<forall>q s. page_slot c t q = Some s \<longrightarrow> page_slot c t' q = Some s) \<and>
    (\<forall>q. lookup_page c t' q = lookup_page c t q \<or> (\<exists>p \<in> set ps. same_page c p q) \<and> lookup_page c t' q = Some val) \<and>
    ((\<forall>q. (\<exists>p \<in> set ps. same_page c p q) \<longrightarrow> lookup_page c t' q = Some val) \<or>
     \<not> alloc_total c \<and> (\<exists>h. new_node c h = 0 \<and> dom (nodes t) \<subseteq> dom h \<and> dom h \<subseteq> dom (nodes t')))"
  using assms(1)
proof (induction ps arbitrary: t)
  case (Cons p ps)
  obtain t1 where t1: "insert_leaf c t p val = Some t1" "trie_wf c t1" "dom (nodes t) \<subseteq> dom (nodes t1)"
      "\<forall>q s. page_slot c t q = Some s \<longrightarrow> page_slot c t1 q = Some s"
    and v1: "(\<forall>q. lookup_page c t1 q = (if same_page c p q then Some val else lookup_page c t q)) \<or>
      new_node c (nodes t1) = 0 \<and> \<not> alloc_total c \<and> (\<forall>q. lookup_page c t1 q = lookup_page c t q)"
    using insert_leaf_effect [OF Cons.prems assms(2-4)] by blast
  obtain t' where t': "foldM (\<lambda>p t. insert_leaf c t p val) ps t1 = Some t'" "trie_wf c t'" "dom (nodes t1) \<subseteq> dom (nodes t')"
      "\<forall>q s. page_slot c t1 q = Some s \<longrightarrow> page_slot c t' q = Some s"
    and each: "\<forall>q. lookup_page c t' q = lookup_page c t1 q \<or> (\<exists>p \<in> set ps. same_page c p q) \<and> lookup_page c t' q = Some val"
    and all: "(\<forall>q. (\<exists>p \<in> set ps. same_page c p q) \<longrightarrow> lookup_page c t' q = Some val) \<or>
      \<not> alloc_total c \<and> (\<exists>h. new_node c h = 0 \<and> dom (nodes t1) \<subseteq> dom h \<and> dom h \<subseteq> dom (nodes t'))"
    using Cons.IH [OF t1(2)] by blast
  have run: "foldM (\<lambda>p t. insert_leaf c t p val) (p # ps) t = Some t'" using t1(1) t'(1) by simp
  have dm: "dom (nodes t) \<subseteq> dom (nodes t')" "\<forall>q s. page_slot c t q = Some s \<longrightarrow> page_slot c t' q = Some s"
    using t1(3,4) t'(3,4) by blast+
  have "lookup_page c t' q = lookup_page c t q \<or> (\<exists>p \<in> set (p # ps). same_page c p q) \<and> lookup_page c t' q = Some val" for q
  proof -
    have "lookup_page c t1 q = lookup_page c t q \<or> same_page c p q \<and> lookup_page c t1 q = Some val"
      using v1 by (cases "same_page c p q") auto
    then show ?thesis using each [rule_format, of q] by auto
  qed
  moreover have "(\<forall>q. (\<exists>p \<in> set (p # ps). same_page c p q) \<longrightarrow> lookup_page c t' q = Some val) \<or>
     \<not> alloc_total c \<and> (\<exists>h. new_node c h = 0 \<and> dom (nodes t) \<subseteq> dom h \<and> dom h \<subseteq> dom (nodes t'))"
    using v1
  proof
    assume "\<forall>q. lookup_page c t1 q = (if same_page c p q then Some val else lookup_page c t q)"
    then have now: "lookup_page c t' q = Some val" if "same_page c p q" for q using each [rule_format, of q] that by auto
    show ?thesis using all
    proof
      assume "\<forall>q. (\<exists>p \<in> set ps. same_page c p q) \<longrightarrow> lookup_page c t' q = Some val"
      then show ?thesis using now by simp
    next
      assume "\<not> alloc_total c \<and> (\<exists>h. new_node c h = 0 \<and> dom (nodes t1) \<subseteq> dom h \<and> dom h \<subseteq> dom (nodes t'))"
      then show ?thesis using order.trans [OF t1(3)] by blast
    qed
  next
    assume "new_node c (nodes t1) = 0 \<and> \<not> alloc_total c \<and> (\<forall>q. lookup_page c t1 q = lookup_page c t q)"
    then show ?thesis using t1(3) t'(3) by blast
  qed
  ultimately show ?case using run t'(2) dm by blast
qed simp

lemma remove_pages_effect:
  assumes "trie_wf c t" "0 < Levels c"
  shows "\<exists>t'. foldM (\<lambda>p t. clear_leaf c t p) ps t = Some t' \<and> trie_wf c t' \<and>
    (\<forall>q s. page_slot c t q = Some s \<longrightarrow> page_slot c t' q = Some s) \<and>
    (\<forall>q. lookup_page c t' q = (if \<exists>p \<in> set ps. same_page c p q then Some 0 else lookup_page c t q))"
  using assms(1)
proof (induction ps arbitrary: t)
  case (Cons p ps)
  obtain t1 where t1: "clear_leaf c t p = Some t1" "trie_wf c t1" "\<forall>q. page_slot c t1 q = page_slot c t q"
      "\<forall>q. page_val c t1 q = (if same_page c p q then 0 else page_val c t q)"
    using clear_leaf_spec [OF Cons.prems assms(2), of p] by blast
  then have lk: "lookup_page c t1 q = (if same_page c p q then Some 0 else lookup_page c t q)" for q
    using Cons.prems assms(2) by (simp add: lookup_page_spec)
  obtain t' where "foldM (\<lambda>p t. clear_leaf c t p) ps t1 = Some t'" "trie_wf c t'"
      "\<forall>q s. page_slot c t1 q = Some s \<longrightarrow> page_slot c t' q = Some s"
      "\<forall>q. lookup_page c t' q = (if \<exists>p \<in> set ps. same_page c p q then Some 0 else lookup_page c t1 q)"
    using Cons.IH [OF t1(2)] by blast
  then show ?case using t1 lk by auto
qed simp

text \<open>
  A page table whose slots can be remembered outside it, as the cache does: what is stored in
  a slot changes, the slot of a page does not.
\<close>

locale slot_table = page_table +
  fixes slot_of :: "'a \<Rightarrow> u64 \<Rightarrow> 'b option"
  assumes insert_slot: "invar s \<Longrightarrow> value_ok v \<Longrightarrow> insert s p v = Some s' \<Longrightarrow>
      slot_of s q = Some x \<Longrightarrow> slot_of s' q = Some x"
    and clear_slot: "invar s \<Longrightarrow> clear s p = Some s' \<Longrightarrow> slot_of s q = Some x \<Longrightarrow> slot_of s' q = Some x"
begin

lemma insert_all_slots:
  assumes "foldM (\<lambda>p s. insert s p v) ps s = Some s'" "invar s" "value_ok v" "slot_of s q = Some x"
  shows "slot_of s' q = Some x"
  using assms
proof (induction ps arbitrary: s)
  case (Cons p ps)
  obtain s1 where s1: "insert s p v = Some s1" "invar s1"
    using insert_law [OF Cons.prems(2,3)] by blast
  moreover have "slot_of s1 q = Some x" using insert_slot [OF Cons.prems(2,3) s1(1) Cons.prems(4)] .
  ultimately show ?case using Cons.IH Cons.prems by simp
qed simp

lemma clear_all_slots:
  assumes "foldM (\<lambda>p s. clear s p) ps s = Some s'" "invar s" "slot_of s q = Some x"
  shows "slot_of s' q = Some x"
  using assms
proof (induction ps arbitrary: s)
  case (Cons p ps)
  obtain s1 where s1: "clear s p = Some s1" "invar s1"
    using clear_law [OF Cons.prems(2)] by blast
  moreover have "slot_of s1 q = Some x" using clear_slot [OF Cons.prems(2) s1(1) Cons.prems(3)] .
  ultimately show ?case using Cons.IH Cons.prems by simp
qed simp

end

interpretation trie_slots: slot_table "lookup_page c" "insert_leaf c" "clear_leaf c" "same_page c" even
    "trie_ready c" "page_slot c"
  for c
proof
  fix t v p t' q x
  assume t: "trie_ready c t" and x: "page_slot c t q = Some x"
  then have wf: "trie_wf c t" and L: "0 < Levels c" and a: "alloc_ok c"
    by (simp_all add: trie_ready_def params_ok_def)
  show "page_slot c t' q = Some x" if "insert_leaf c t p v = Some t'"
    using insert_leaf_spec [OF wf L a, of p v] x that by (cases x) auto
  show "page_slot c t' q = Some x" if "clear_leaf c t p = Some t'"
    using clear_leaf_spec [OF wf L, of p] x that by (cases x) auto
qed

lemma insert_pages_foldM:
  "insert_pages c t pg pend val = foldM (\<lambda>p t. insert_leaf c t p val) (word_range pg pend) t"
proof (induction c t pg pend val rule: insert_pages.induct)
  case (1 c t pg pend val)
  then show ?case
    by (subst insert_pages.simps, subst word_range_rec) (auto intro!: Option.bind_cong)
qed

lemma remove_pages_foldM:
  "remove_pages c t pg pend = foldM (\<lambda>p t. clear_leaf c t p) (word_range pg pend) t"
proof (induction c t pg pend rule: remove_pages.induct)
  case (1 c t pg pend)
  then show ?case
    by (subst remove_pages.simps, subst word_range_rec) (auto intro!: Option.bind_cong)
qed

text \<open>The pages a loop over \<open>[pg, pend)\<close> reaches, and what the loops do to the table.\<close>

definition page_in :: "trie_params \<Rightarrow> u64 \<Rightarrow> u64 \<Rightarrow> u64 \<Rightarrow> bool" where
  "page_in c pg pend q \<longleftrightarrow> (\<exists>p \<in> {pg..<pend}. same_page c p q)"

lemma insert_pages_spec:
  assumes "trie_ready c t" "even val"
  shows "\<exists>t'. insert_pages c t pg pend val = Some t' \<and> trie_ready c t' \<and>
    (\<forall>q s. page_slot c t q = Some s \<longrightarrow> page_slot c t' q = Some s) \<and>
    (\<forall>q. lookup_page c t' q = (if page_in c pg pend q then Some val else lookup_page c t q))"
  using trie.insert_all [OF assms, of "word_range pg pend"]
    trie_slots.insert_all_slots [OF _ assms, of "word_range pg pend"]
  by (auto simp: insert_pages_foldM page_in_def set_word_range)

lemma remove_pages_spec:
  assumes "trie_ready c t"
  shows "\<exists>t'. remove_pages c t pg pend = Some t' \<and> trie_ready c t' \<and>
    (\<forall>q s. page_slot c t q = Some s \<longrightarrow> page_slot c t' q = Some s) \<and>
    (\<forall>q. lookup_page c t' q = (if page_in c pg pend q then Some 0 else lookup_page c t q))"
  using trie.clear_all [OF assms, of "word_range pg pend"]
    trie_slots.clear_all_slots [OF _ assms, of "word_range pg pend"]
  by (auto simp: remove_pages_foldM page_in_def set_word_range)

text \<open>
  The pages of a byte range that does not reach the end of the address space: exactly those
  that share an address with the range.
\<close>

definition range_ok :: "platform \<Rightarrow> u64 \<Rightarrow> u64 \<Rightarrow> bool" where
  "range_ok pl base sz \<longleftrightarrow> 0 < sz \<and> page_shift pl < 64 \<and> unat base + unat sz + 2 ^ page_shift pl \<le> 2 ^ 64"

definition in_range :: "u64 \<Rightarrow> u64 \<Rightarrow> u64 \<Rightarrow> bool" where
  "in_range base sz a \<longleftrightarrow> base \<le> a \<and> a < base + sz"

lemma range_ok_unat:
  assumes "range_ok pl base sz"
  shows "unat (base + sz) = unat base + unat sz"
    and "unat (page_begin pl base) = unat base div 2 ^ page_shift pl"
    and "unat (page_end pl base sz) = (unat base + unat sz + (2 ^ page_shift pl - 1)) div 2 ^ page_shift pl"
proof -
  let ?k = "page_shift pl"
  have k: "?k < 64" and w: "unat base + unat sz + 2 ^ ?k \<le> 2 ^ 64" and p: "(0 :: nat) < 2 ^ ?k"
    using assms by (simp_all add: range_ok_def)
  show b: "unat (base + sz) = unat base + unat sz" using w p by (intro unat_add_no_wrap) linarith
  show "unat (page_begin pl base) = unat base div 2 ^ ?k" by (simp add: page_begin_def unat_drop_bit)
  have "(1 :: u64) \<le> 2 ^ ?k" unfolding unat_word_le unat_2p [OF k] by simp
  then have m: "unat (2 ^ ?k - 1 :: u64) = 2 ^ ?k - 1" by (simp add: unat_sub_no_wrap unat_2p [OF k])
  have "unat (base + sz + (2 ^ ?k - 1)) = unat base + unat sz + (2 ^ ?k - 1)"
    unfolding b [symmetric] m [symmetric] using w p by (intro unat_add_no_wrap) (simp add: b m)
  then show "unat (page_end pl base sz) = (unat base + unat sz + (2 ^ ?k - 1)) div 2 ^ ?k"
    by (simp add: page_end_def unat_drop_bit push_bit_eq_mult)
qed

lemma page_of_in_range:
  assumes "range_ok pl base sz" "in_range base sz a"
  shows "drop_bit (page_shift pl) a \<in> {page_begin pl base..<page_end pl base sz}"
proof -
  define P where "P = (2 :: nat) ^ page_shift pl"
  have P: "0 < P" by (simp add: P_def)
  have a: "unat base \<le> unat a" "unat a < unat base + unat sz"
    using assms(2) range_ok_unat(1) [OF assms(1)] by (simp_all add: in_range_def unat_word_less unat_word_le)
  have "unat a + P \<le> unat base + unat sz + (P - 1)" using a P by simp
  then have "(unat a + P) div P \<le> (unat base + unat sz + (P - 1)) div P" by (rule div_le_mono)
  moreover have "(unat a + P) div P = Suc (unat a div P)"
    using P div_add_self2 [of P "unat a"] by simp
  ultimately have "unat a div P < (unat base + unat sz + (P - 1)) div P" by (simp only: Suc_le_eq)
  moreover have "unat base div P \<le> unat a div P" using a(1) by (rule div_le_mono)
  ultimately show ?thesis
    using range_ok_unat [OF assms(1)] by (simp add: unat_word_less unat_word_le unat_drop_bit P_def)
qed

lemma page_has_address:
  assumes "range_ok pl base sz" "q \<in> {page_begin pl base..<page_end pl base sz}"
  shows "\<exists>a. in_range base sz a \<and> drop_bit (page_shift pl) a = q"
proof -
  define P where "P = (2 :: nat) ^ page_shift pl"
  have P: "0 < P" and s: "0 < unat sz" using assms(1) by (simp_all add: P_def range_ok_def unat_gt_0 word_gt_0)
  have q: "unat base div P \<le> unat q" "unat q < (unat base + unat sz + (P - 1)) div P"
    using assms(2) range_ok_unat [OF assms(1)] by (simp_all add: unat_word_less unat_word_le P_def)
  define n where "n = max (unat base) (unat q * P)"
  have "unat q * P + P \<le> unat base + unat sz + (P - 1)"
    using q(2) P by (metis Suc_leI add.commute less_eq_div_iff_mult_less_eq mult_Suc)
  then have n: "unat base \<le> n" "n < unat base + unat sz" using P s by (auto simp: n_def)
  have "n div P = unat q"
  proof (cases "unat base \<le> unat q * P")
    case False
    then have "unat q \<le> unat base div P" using P by (simp add: less_eq_div_iff_mult_less_eq)
    with q(1) False show ?thesis by (simp add: n_def max_def)
  qed (use P in \<open>simp add: n_def max_def\<close>)
  moreover have "n < 2 ^ 64"
    using n(2) assms(1) by (simp add: range_ok_def)
  then have u: "unat (of_nat n :: u64) = n" by (simp add: unat_of_nat)
  ultimately have "drop_bit (page_shift pl) (of_nat n) = q"
    by (simp add: word_unat_eq_iff unat_drop_bit P_def)
  moreover have "in_range base sz (of_nat n)"
    using n u range_ok_unat(1) [OF assms(1)] by (simp add: in_range_def unat_word_less unat_word_le)
  ultimately show ?thesis by blast
qed

lemma page_in_range:
  assumes "range_ok pl base sz"
  shows "page_in c (page_begin pl base) (page_end pl base sz) q \<longleftrightarrow>
    (\<exists>a. in_range base sz a \<and> same_page c (drop_bit (page_shift pl) a) q)"
  unfolding page_in_def using page_of_in_range [OF assms] page_has_address [OF assms] by metis

section \<open>Counting and freeing nodes\<close>

text \<open>The nodes of a subtree, down to a given number of levels.\<close>

definition subtree :: "heap \<Rightarrow> u64 \<Rightarrow> nat \<Rightarrow> u64 set" where
  "subtree h p k = {q. \<exists>is. length is < k \<and> node_at h p is = Some q}"

lemma subtree_0 [simp]: "subtree h p 0 = {}"
  by (simp add: subtree_def)

lemma subtree_1 [simp]: "subtree h p (Suc 0) = {p}"
  by (auto simp: subtree_def)

lemma subtree_Suc:
  assumes "h p = Some n"
  shows "subtree h p (Suc k) = {p} \<union> (\<Union>i \<in> {i. n i \<noteq> 0}. subtree h (n i) k)"
proof -
  have "q \<in> subtree h p (Suc k) \<longleftrightarrow> q = p \<or> (\<exists>i. n i \<noteq> 0 \<and> q \<in> subtree h (n i) k)" for q
  proof
    assume "q \<in> subtree h p (Suc k)"
    then obtain js where "length js < Suc k" "node_at h p js = Some q" by (auto simp: subtree_def)
    then show "q = p \<or> (\<exists>i. n i \<noteq> 0 \<and> q \<in> subtree h (n i) k)"
      using assms by (cases js) (auto simp: subtree_def load_def split: if_splits)
  next
    assume "q = p \<or> (\<exists>i. n i \<noteq> 0 \<and> q \<in> subtree h (n i) k)"
    then consider "q = p" | i js where "n i \<noteq> 0" "length js < k" "node_at h (n i) js = Some q"
      by (auto simp: subtree_def)
    then show "q \<in> subtree h p (Suc k)"
    proof cases
      case 1
      then show ?thesis by (auto simp: subtree_def intro!: exI [of _ "[]"])
    next
      case 2
      then show ?thesis
        using assms by (auto simp: subtree_def load_def intro!: exI [of _ "i # js"])
    qed
  qed
  then show ?thesis by blast
qed

lemma node_at_append:
  "node_at h p (is @ js) = (case node_at h p is of None \<Rightarrow> None | Some q \<Rightarrow> node_at h q js)"
  by (induction "is" arbitrary: p) (auto split: option.splits)

text \<open>Distinct children have disjoint subtrees, none of which holds the parent.\<close>

lemma subtree_children:
  assumes wf: "heap_wf c h r" and at: "node_at h r is = Some p" and n: "h p = Some n"
    and len: "length is + Suc k = Levels c"
  shows "n i \<noteq> 0 \<Longrightarrow> p \<notin> subtree h (n i) k"
    and "n i \<noteq> 0 \<Longrightarrow> n j \<noteq> 0 \<Longrightarrow> i \<noteq> j \<Longrightarrow> subtree h (n i) k \<inter> subtree h (n j) k = {}"
proof -
  have ext: "node_at h r (is @ i # js) = Some q" "length (is @ i # js) < Levels c"
    if "n i \<noteq> 0" "length js < k" "node_at h (n i) js = Some q" for i js q
    using that at n len by (simp_all add: node_at_append load_def)
  show "p \<notin> subtree h (n i) k" if "n i \<noteq> 0"
  proof
    assume "p \<in> subtree h (n i) k"
    then obtain js where js: "length js < k" "node_at h (n i) js = Some p"
      by (auto simp: subtree_def)
    have "is = is @ i # js"
      using heap_wf_inj [OF wf at ext(1) [OF that js] _ ext(2) [OF that js]] len by simp
    then show False by simp
  qed
  show "subtree h (n i) k \<inter> subtree h (n j) k = {}" if "n i \<noteq> 0" "n j \<noteq> 0" "i \<noteq> j"
  proof (rule ccontr)
    assume "subtree h (n i) k \<inter> subtree h (n j) k \<noteq> {}"
    then obtain q js ks where js: "length js < k" "node_at h (n i) js = Some q"
      and ks: "length ks < k" "node_at h (n j) ks = Some q" by (auto simp: subtree_def)
    have "is @ i # js = is @ j # ks"
      by (rule heap_wf_inj [OF wf ext(1) [OF that(1) js] ext(1) [OF that(2) ks]
            ext(2) [OF that(1) js] ext(2) [OF that(2) ks]])
    then show False using that(3) by simp
  qed
qed

lemma subtree_all:
  assumes "heap_wf c h r"
  shows "subtree h r (Levels c) = dom h"
  using heap_wf_dom [OF assms] heap_wf_reach [OF assms] by (fastforce simp: subtree_def)

lemma subtree_subset:
  assumes "heap_wf c h r" "node_at h r is = Some p" "length is + k \<le> Levels c"
  shows "subtree h p k \<subseteq> dom h"
proof
  fix q
  assume "q \<in> subtree h p k"
  then obtain js where "length js < k" "node_at h p js = Some q" by (auto simp: subtree_def)
  then show "q \<in> dom h" using heap_wf_dom [OF assms(1), of "is @ js" q] assms(2,3)
    by (auto simp: node_at_append)
qed

lemma count_nodes_subtree:
  assumes wf: "heap_wf c h r"
  shows "node_at h r is = Some p \<Longrightarrow> length is + Suc k = Levels c \<Longrightarrow>
         count_nodes c h p (length is) = Some (card (subtree h p (Suc k)))"
proof (induction k arbitrary: "is" p)
  case 0
  then show ?case
    using heap_wf_node_nonzero [OF wf 0(1)] by (simp add: count_nodes.simps [of c h p])
next
  case (Suc k)
  note at = Suc.prems(1) and len = Suc.prems(2)
  have p0: "p \<noteq> 0" by (rule heap_wf_node_nonzero [OF wf at])
  obtain n where n: "h p = Some n" using heap_wf_dom [OF wf at] len by auto
  note kids = subtree_children [OF wf at n len]
  define S where "S i = (if n i = 0 then {} else subtree h (n i) (Suc k))" for i
  have child: "node_at h r (is @ [i]) = Some (n i)" if "n i \<noteq> 0" for i
    using that at n by (simp add: node_at_snoc load_def)
  have S: "finite (S i)" "p \<notin> S i" "i \<noteq> j \<Longrightarrow> S i \<inter> S j = {}" for i j
    using kids by (auto simp: S_def)
  have U: "subtree h p (Suc (Suc k)) = insert p (\<Union>i \<in> {0..<kFanOut c}. S i)"
    unfolding subtree_Suc [of h p n, OF n] using heap_wf_idx [OF wf, of p n] n by (auto simp: S_def)
  have lt: "length is < Levels c - 1" using len by simp
  have IH: "count_nodes c h (n i) (Suc (length is)) = Some (card (S i))" if "n i \<noteq> 0" for i
    using Suc.IH [OF child [OF that]] that len by (simp add: S_def)
  have "count_nodes c h p (length is) = Some (1 + sum_list (map (\<lambda>i. card (S i)) [0..<kFanOut c]))"
    unfolding count_nodes.simps [of c h p] if_not_P [OF p0] if_P [OF lt]
    by (rule foldM_add) (use n IH in \<open>auto simp: load_def S_def\<close>)
  also have "sum_list (map (\<lambda>i. card (S i)) [0..<kFanOut c]) = card (\<Union>i \<in> {0..<kFanOut c}. S i)"
    using S by (subst card_UN_disjoint) (auto simp: interv_sum_list_conv_sum_set_nat)
  also have "1 + card (\<Union>i \<in> {0..<kFanOut c}. S i) = card (subtree h p (Suc (Suc k)))"
    unfolding U using S by (subst card_insert_disjoint) auto
  finally show ?case .
qed

text \<open>
  \<^verbatim>\<open>node_count\<close> visits every node of a well-formed trie exactly once: it returns the number
  of allocated nodes, and never follows a dangling pointer.
\<close>

lemma node_count_counts_allocated:
  "trie_wf c t \<Longrightarrow> 0 < Levels c \<Longrightarrow> node_count c t = Some (card (dom (nodes t)))"
  unfolding node_count_def trie_wf_def
  using count_nodes_subtree [of c "nodes t" "root t" "[]" "root t" "Levels c - 1"]
    subtree_all [of c "nodes t" "root t"] by simp

lemma destroy_subtree_frees:
  assumes wf: "heap_wf c h r"
  shows "node_at h r is = Some p \<Longrightarrow> length is + Suc k = Levels c \<Longrightarrow>
         \<forall>q \<in> subtree h p (Suc k). h' q = h q \<Longrightarrow>
         destroy_subtree c h' p (length is) = Some (h' |` (- subtree h p (Suc k)))"
proof (induction k arbitrary: "is" p h')
  case 0
  obtain n where "h p = Some n" using heap_wf_dom [OF wf 0(1)] 0(2) by auto
  moreover have "\<not> length is < Levels c - 1" using 0(2) by simp
  ultimately show ?case
    using heap_wf_node_nonzero [OF wf 0(1)] 0(3)
    by (simp add: destroy_subtree.simps [of c h' p] delete_node_def restrict_map_def fun_eq_iff)
next
  case (Suc k)
  note at = Suc.prems(1) and len = Suc.prems(2) and agree = Suc.prems(3)
  have p0: "p \<noteq> 0" by (rule heap_wf_node_nonzero [OF wf at])
  obtain n where n: "h p = Some n" using heap_wf_dom [OF wf at] len by auto
  note kids = subtree_children [OF wf at n len]
  define S where "S i = (if n i = 0 then {} else subtree h (n i) (Suc k))" for i
  define st where "st m = h' |` (- (\<Union>i \<in> {i. i < m}. S i))" for m
  have child: "node_at h r (is @ [i]) = Some (n i)" if "n i \<noteq> 0" for i
    using that at n by (simp add: node_at_snoc load_def)
  have S: "p \<notin> S i" "i \<noteq> j \<Longrightarrow> S i \<inter> S j = {}" for i j using kids by (auto simp: S_def)
  have U: "subtree h p (Suc (Suc k)) = insert p (\<Union>i \<in> {i. i < kFanOut c}. S i)"
    unfolding subtree_Suc [of h p n, OF n] using heap_wf_idx [OF wf, of p n] n by (auto simp: S_def)
  have hp: "h' p = Some n" using agree n by (simp add: U)
  have stp: "st m p = Some n" for m using S(1) hp by (auto simp: st_def restrict_map_def)
  define f where "f i g = do { raw \<leftarrow> load g (p, i);
      if raw \<noteq> 0 then destroy_subtree c g raw (Suc (length is)) else Some g }" for i g
  have step: "f i (st i) = Some (st (Suc i))" if i: "i < kFanOut c" for i
  proof (cases "n i = 0")
    case True
    then have "st (Suc i) = st i" unfolding st_def by (auto simp: S_def less_Suc_eq intro!: arg_cong [of _ _ "restrict_map h'"])
    with True show ?thesis using stp by (simp add: f_def load_def)
  next
    case False
    then have Si: "S i = subtree h (n i) (Suc k)" by (simp add: S_def)
    have "st i q = h q" if q: "q \<in> S i" for q
    proof -
      have "q \<notin> S j" if "j < i" for j using S(2) [of i j] q that by blast
      then have "st i q = h' q" by (auto simp: st_def restrict_map_def)
      also have "\<dots> = h q" using agree q i unfolding U by blast
      finally show ?thesis .
    qed
    then have ag: "\<forall>q \<in> subtree h (n i) (Suc k). st i q = h q" by (simp add: Si)
    have "st (Suc i) = st i |` (- subtree h (n i) (Suc k))"
      using False unfolding st_def restrict_restrict
      by (auto simp: S_def less_Suc_eq intro!: arg_cong [of _ _ "restrict_map h'"])
    then show ?thesis
      using Suc.IH [OF child [OF False] _ ag] False len stp by (simp add: f_def load_def)
  qed
  have lt: "length is < Levels c - 1" using len by simp
  have st0: "st 0 = h'" by (simp add: st_def restrict_map_def)
  have "destroy_subtree c h' p (length is) = delete_node (st (kFanOut c)) p"
    unfolding destroy_subtree.simps [of c h' p] if_not_P [OF p0] if_P [OF lt] f_def [symmetric]
    using foldM_upt [of "kFanOut c" f st, OF step] by (simp add: st0)
  also have "\<dots> = Some (h' |` (- subtree h p (Suc (Suc k))))"
    using stp by (auto simp: delete_node_def U st_def restrict_map_def fun_eq_iff)
  finally show ?case .
qed

text \<open>
  C32: Destroying a well-formed trie frees every node it allocated, each exactly once, and
  touches no freed node on the way.
\<close>

theorem destroy_trie_frees_everything:
  "trie_wf c t \<Longrightarrow> 0 < Levels c \<Longrightarrow> destroy_trie c t = Some Map.empty"
proof -
  assume wf: "trie_wf c t" and L: "0 < Levels c"
  have "destroy_trie c t = Some (nodes t |` (- dom (nodes t)))"
    unfolding destroy_trie_def
    using destroy_subtree_frees [OF trie_wf_heap [OF wf], of "[]" "root t" "Levels c - 1" "nodes t"] L
      subtree_all [OF trie_wf_heap [OF wf]] by simp
  also have "nodes t |` (- dom (nodes t)) = Map.empty"
    by (auto simp: restrict_map_def fun_eq_iff)
  finally show ?thesis .
qed

section \<open>The default parameters\<close>

text \<open>
  The instance the program uses: nine bits per level, four levels. Its allocator, for
  evaluation, hands out the first unused multiple of 64 and has room for every node the
  trie can have.
\<close>

fun first_free :: "heap \<Rightarrow> nat \<Rightarrow> nat \<Rightarrow> u64" where
  "first_free h i 0 = 0"
| "first_free h i (Suc n) =
     (if h (of_nat (64 * i)) = None then of_nat (64 * i) else first_free h (Suc i) n)"

definition default_params :: trie_params where
  "default_params = \<lparr>Stride = 9, Levels = 4, new_node = \<lambda>h. first_free h 1 134480385\<rparr>"

lemma unat_64_mult: "i < 2 ^ 58 \<Longrightarrow> unat (of_nat (64 * i) :: u64) = 64 * i"
  unfolding unat_of_nat by simp

lemma first_free_cases:
  "first_free h i n = 0 \<or> h (first_free h i n) = None"
  by (induction h i n rule: first_free.induct) auto

lemma first_free_full:
  "first_free h i n = 0 \<Longrightarrow> 0 < i \<Longrightarrow> i + n < 2 ^ 58 \<Longrightarrow> i \<le> j \<Longrightarrow> j < i + n \<Longrightarrow>
   of_nat (64 * j) \<in> dom h"
proof (induction h i n arbitrary: j rule: first_free.induct)
  case (2 h i n)
  have "(of_nat (64 * i) :: u64) \<noteq> 0"
    using unat_64_mult [of i] "2.prems"(2,3) by (metis add_lessD1 mult_is_0 neq0_conv unsigned_0 zero_neq_numeral)
  with "2.prems"(1) have "h (of_nat (64 * i)) \<noteq> None" "first_free h (Suc i) n = 0"
    by (auto split: if_splits)
  with "2.IH" [of j] "2.prems" show ?case by (cases "j = i") auto
qed simp

lemma default_template [simp]: "Stride default_params = 9" "Levels default_params = 4"
  by (simp_all add: default_params_def)

lemma first_free_step:
  "0 < n \<Longrightarrow> first_free h i n =
   (if h (of_nat (64 * i)) = None then of_nat (64 * i) else first_free h (Suc i) (n - 1))"
  by (cases n) simp_all

lemma default_params_ok [simp]: "params_ok default_params"
  by (simp add: params_ok_def)

lemma default_alloc_ok [simp]: "alloc_ok default_params"
  using first_free_cases by (auto simp: alloc_ok_def default_params_def)

lemma default_alloc_total [simp]: "alloc_total default_params"
proof -
  have full: "134480385 \<le> card (dom h)" if z: "first_free h 1 134480385 = 0" for h
  proof -
    let ?A = "{1..<134480386 :: nat}" and ?f = "\<lambda>j. of_nat (64 * j) :: u64"
    have "inj_on ?f ?A"
    proof (rule inj_onI)
      fix a b
      assume "a \<in> ?A" "b \<in> ?A" "?f a = ?f b"
      then show "a = b" using unat_64_mult [of a] unat_64_mult [of b] by simp
    qed
    moreover have "?f ` ?A \<subseteq> dom h"
    proof (rule image_subsetI)
      fix j
      assume "j \<in> ?A"
      then show "?f j \<in> dom h" by (intro first_free_full [OF z]) auto
    qed
    ultimately have "card ?A \<le> card (dom h)" by (metis card_inj_on_le finite)
    then show ?thesis by simp
  qed
  have "max_nodes default_params = 134480385"
    by (simp add: max_nodes_def kFanOut_def lessThan_nat_numeral)
  then show ?thesis
    using full unfolding alloc_total_def by (simp add: default_params_def) (meson not_le)
qed

lemma new_trie_spec:
  assumes "new_ncrit_trie c = Some t" "0 < Levels c"
  shows "trie_wf c t \<and> (\<forall>q. page_val c t q = 0)"
proof -
  obtain r where r: "r \<noteq> 0" "t = \<lparr>root = r, nodes = [r \<mapsto> node_t]\<rparr>"
    using assms(1) by (auto simp: new_ncrit_trie_def Let_def split: if_splits)
  have na: "node_at [r \<mapsto> node_t] r is = (if is = [] then Some r else None)" for "is"
    by (cases "is") (simp_all add: load_def node_t_def)
  have "heap_wf c [r \<mapsto> node_t] r"
    unfolding heap_wf_def na using r(1) assms(2) by (auto simp: node_t_def split: if_splits)
  moreover have "leaf_val [r \<mapsto> node_t] r path = 0" for path
    unfolding leaf_val_def na by (simp add: load_def node_t_def)
  ultimately show ?thesis by (simp add: r(2) trie_wf_def page_val_def)
qed

definition empty_trie :: ncrit_trie where
  "empty_trie = \<lparr>root = 64, nodes = [64 \<mapsto> node_t]\<rparr>"

lemma new_default_trie: "new_ncrit_trie default_params = Some empty_trie"
  by (simp add: new_ncrit_trie_def default_params_def empty_trie_def first_free_step)

lemma empty_trie_ready [simp]: "trie_ready default_params empty_trie"
  using new_trie_spec [OF new_default_trie] by (simp add: trie_ready_def)

lemma lookup_empty_trie [simp]: "lookup_page default_params empty_trie q = Some 0"
  using new_trie_spec [OF new_default_trie] by (simp add: lookup_page_spec)

section \<open>Properties\<close>

text \<open>
  C26: Insertion into the trie is memory safe and correct, whatever \<^verbatim>\<open>new\<close> answers: it never follows a
  null or dangling pointer and keeps the trie well formed. Either the given page maps to the given
  value and every other page is as before; or \<^verbatim>\<open>new\<close> has returned null for the nodes allocated so far, and
  then no page has changed. Pages that agree in the \<open>Stride * Levels\<close> covered bits share one slot.
  As long as \<^verbatim>\<open>new\<close> does not fail the page is mapped.
\<close>

theorem insert_leaf_correct:
  assumes "trie_wf c t" "params_ok c" "alloc_ok c" "even val"
  shows "\<exists>t'. insert_leaf c t page_num val = Some t' \<and> trie_wf c t' \<and>
    ((\<forall>q. lookup_page c t' q = (if same_page c page_num q then Some val else lookup_page c t q)) \<or>
     new_node c (nodes t') = 0 \<and> (\<forall>q. lookup_page c t' q = lookup_page c t q)) \<and>
    (alloc_total c \<longrightarrow> lookup_page c t' page_num = Some val)"
  using insert_leaf_effect [OF assms] by (metis same_page_refl)

theorem insert_leaf_correct_witness:
  "trie_wf default_params empty_trie \<and> params_ok default_params \<and> alloc_ok default_params \<and> even (0x5000 :: u64) \<and>
   (\<exists>t'. insert_leaf default_params empty_trie 10 0x5000 = Some t' \<and> lookup_page default_params t' 10 = Some 0x5000)"
  using insert_leaf_correct [of default_params empty_trie "0x5000" 10] empty_trie_ready by (auto simp: trie_ready_def)

text \<open>
  Removal is memory safe and correct: the page becomes unmapped and every page that
  does not share its slot keeps its mapping.
\<close>

lemma clear_leaf_correct:
  assumes "trie_ready c t"
  shows "\<exists>t'. clear_leaf c t page_num = Some t' \<and> trie_ready c t' \<and>
    (\<forall>q. lookup_page c t' q = (if same_page c page_num q then Some 0 else lookup_page c t q))"
  using assms by (rule trie.clear_law)

lemma clear_leaf_correct_witness:
  "\<exists>t t'. trie_ready default_params t \<and> lookup_page default_params t 10 = Some 0x5000 \<and>
     clear_leaf default_params t 10 = Some t' \<and> lookup_page default_params t' 10 = Some 0"
proof -
  obtain t where t: "trie_ready default_params t" "lookup_page default_params t 10 = Some 0x5000"
    using trie.insert_law [OF empty_trie_ready, of "0x5000" 10] by (auto simp: same_page_def)
  then show ?thesis using clear_leaf_correct [OF t(1), of 10] by (auto simp: same_page_def)
qed

lemma node_count_counts_allocated_witness:
  "trie_wf default_params empty_trie \<and> 0 < Levels default_params \<and>
   node_count default_params empty_trie = Some 1"
  using node_count_counts_allocated [of default_params empty_trie] empty_trie_ready
  by (simp add: trie_ready_def) (simp add: empty_trie_def)

theorem destroy_trie_frees_everything_witness:
  "\<exists>t. trie_wf default_params t \<and> lookup_page default_params t 10 = Some 0x5000 \<and>
     destroy_trie default_params t = Some Map.empty"
proof -
  obtain t where t: "trie_ready default_params t" "lookup_page default_params t 10 = Some 0x5000"
    using trie.insert_law [OF empty_trie_ready, of "0x5000" 10] by (auto simp: same_page_def)
  then have "trie_wf default_params t" by (simp add: trie_ready_def)
  with t destroy_trie_frees_everything [of default_params t] show ?thesis by auto
qed

end
