(* ===== verification/Tls_Cache.thy ===== *)
theory Tls_Cache
  imports Ncrit_Trie
begin

text \<open>
  The thread-local cache of \<^verbatim>\<open>include/segmented_interprocess/ncrit_trie.hpp\<close> and the operations
  of the trie that use it. The cache is a list of 16 entries; an entry keeps the address of a
  leaf slot and is used only while that slot still holds the entry's tagged segment pointer.
  The cache is \<^verbatim>\<open>static thread_local\<close>, so it is an argument of its own and not a part of the
  trie. \<open>None\<close> is again the use of a dangling pointer.
\<close>

section \<open>Definitions\<close>

subsection \<open>Entries and shifts\<close>

record tls_entry =
  e_base :: u64
  e_end :: u64
  e_seg :: u64
  e_leaf :: "slot option"

type_synonym tls_cache = "tls_entry list"

definition kSize :: nat where
  "kSize = 16"

definition no_entry :: tls_entry where
  "no_entry = \<lparr>e_base = 0, e_end = 0, e_seg = nullptr, e_leaf = None\<rparr>"

definition tls_cache_init :: tls_cache where
  "tls_cache_init = replicate kSize no_entry"

text \<open>\<^verbatim>\<open>for (j = i; j > 0; --j) entries[j] = entries[j - 1];\<close>\<close>

fun shift_down :: "'a list \<Rightarrow> nat \<Rightarrow> 'a list" where
  "shift_down es 0 = es"
| "shift_down es (Suc j) = shift_down (es[Suc j := es ! j]) j"

text \<open>\<^verbatim>\<open>for (j = i; j < n; ++j) entries[j] = entries[j + 1];\<close>\<close>

function shift_up :: "'a list \<Rightarrow> nat \<Rightarrow> nat \<Rightarrow> 'a list" where
  "shift_up es j n = (if j < n then shift_up (es[j := es ! Suc j]) (Suc j) n else es)"
  by pat_completeness auto
termination
  by (relation "measure (\<lambda>(es, j, n). n - j)") auto

declare shift_up.simps [simp del]

definition move_to_front :: "'a list \<Rightarrow> nat \<Rightarrow> 'a list" where
  "move_to_front es i = (if i > 0 then (shift_down es i)[0 := es ! i] else es)"

definition evict :: "tls_cache \<Rightarrow> nat \<Rightarrow> tls_cache" where
  "evict es i = (shift_up es i (kSize - 1))[kSize - 1 := no_entry]"

definition covers :: "tls_entry \<Rightarrow> u64 \<Rightarrow> bool" where
  "covers e addr \<longleftrightarrow> addr \<ge> e_base e \<and> addr < e_end e"

text \<open>\<^verbatim>\<open>entry.leaf && entry.leaf->load() == expected_tag\<close>\<close>

definition leaf_holds :: "heap \<Rightarrow> tls_entry \<Rightarrow> u64 \<Rightarrow> bool option" where
  "leaf_holds h e expected_tag =
     (case e_leaf e of
        None \<Rightarrow> Some False
      | Some s \<Rightarrow> (case load h s of None \<Rightarrow> None | Some v \<Rightarrow> Some (v = expected_tag)))"

subsection \<open>Members of the cache\<close>

text \<open>\<^verbatim>\<open>tls_cache_t::hit\<close>: the entry found, now the first one, or nothing.\<close>

function hit_from ::
  "heap \<Rightarrow> tls_cache \<Rightarrow> u64 \<Rightarrow> u64 \<Rightarrow> nat \<Rightarrow> (tls_entry option \<times> tls_cache) option" where
  "hit_from h es addr expected_tag i =
     (if i < kSize then
        if covers (es ! i) addr then
          do {
            ok \<leftarrow> leaf_holds h (es ! i) expected_tag;
            if ok then Some (Some (move_to_front es i ! 0), move_to_front es i)
            else Some (None, evict es i)
          }
        else hit_from h es addr expected_tag (Suc i)
      else Some (None, es))"
  by pat_completeness auto
termination
  by (relation "measure (\<lambda>(h, es, addr, tag, i). kSize - i)") auto

declare hit_from.simps [simp del]

definition hit :: "heap \<Rightarrow> tls_cache \<Rightarrow> u64 \<Rightarrow> u64 \<Rightarrow> (tls_entry option \<times> tls_cache) option" where
  "hit h es addr expected_tag = hit_from h es addr expected_tag 0"

definition cache_insert :: "tls_cache \<Rightarrow> u64 \<Rightarrow> u64 \<Rightarrow> u64 \<Rightarrow> slot option \<Rightarrow> tls_cache" where
  "cache_insert es base endd seg leaf =
     (shift_down es (kSize - 1))[0 := \<lparr>e_base = base, e_end = endd, e_seg = seg, e_leaf = leaf\<rparr>]"

definition invalidate :: "tls_cache \<Rightarrow> tls_cache" where
  "invalidate es = map (\<lambda>_. no_entry) es"

definition expand_cache_bounds_top :: "tls_cache \<Rightarrow> u64 \<Rightarrow> u64 \<Rightarrow> u64 \<Rightarrow> tls_cache" where
  "expand_cache_bounds_top es base sz seg =
     (if e_seg (es ! 0) = seg
      then es[0 := (es ! 0)\<lparr>e_base := base, e_end := base + sz\<rparr>]
      else es)"

subsection \<open>Cached lookup\<close>

text \<open>
  The loop of \<^verbatim>\<open>lookup_impl\<close> over the cache: \<open>Some v\<close> is its \<^verbatim>\<open>return\<close>, \<open>None\<close> is falling
  through to the traversal of the trie. A stale entry returns null.
\<close>

function lookup_from ::
  "heap \<Rightarrow> tls_cache \<Rightarrow> u64 \<Rightarrow> nat \<Rightarrow> (u64 option \<times> tls_cache) option" where
  "lookup_from h es addr i =
     (if i < kSize then
        if covers (es ! i) addr then
          let expected_tag = e_seg (es ! i) OR kLeafTag
          in do {
               ok \<leftarrow> leaf_holds h (es ! i) expected_tag;
               if ok then Some (Some (e_seg (move_to_front es i ! 0)), move_to_front es i)
               else Some (Some nullptr, evict es i)
             }
        else lookup_from h es addr (Suc i)
      else Some (None, es))"
  by pat_completeness auto
termination
  by (relation "measure (\<lambda>(h, es, addr, i). kSize - i)") auto

declare lookup_from.simps [simp del]

definition lookup_impl ::
  "trie_params \<Rightarrow> platform \<Rightarrow> ncrit_trie \<Rightarrow> tls_cache \<Rightarrow> u64 \<Rightarrow> (u64 \<times> tls_cache) option" where
  "lookup_impl c pl t es addr =
     do {
       (r, es) \<leftarrow> lookup_from (nodes t) es addr 0;
       case r of
         Some v \<Rightarrow> Some (v, es)
       | None \<Rightarrow>
           let ps = page_shift pl
           in do {
                (v, leaf_slot) \<leftarrow> lookup_page_with_slot c t (drop_bit ps addr);
                if v \<noteq> nullptr then
                  let base = push_bit ps (drop_bit ps addr);
                      endd = base + push_bit ps 1
                  in Some (v, cache_insert es base endd v leaf_slot)
                else Some (v, es)
              }
     }"

definition trie_lookup ::
  "trie_params \<Rightarrow> platform \<Rightarrow> ncrit_trie \<Rightarrow> tls_cache \<Rightarrow> u64 \<Rightarrow> (u64 \<times> tls_cache) option" where
  "trie_lookup c pl t es addr = lookup_impl c pl t es addr"

subsection \<open>Ranges\<close>

definition insert_range ::
  "trie_params \<Rightarrow> platform \<Rightarrow> ncrit_trie \<Rightarrow> tls_cache \<Rightarrow> u64 \<Rightarrow> u64 \<Rightarrow> u64 \<Rightarrow>
   (ncrit_trie \<times> tls_cache) option" where
  "insert_range c pl t es base sz val =
     do {
       t' \<leftarrow> insert_pages c t (page_begin pl base) (page_end pl base sz) val;
       Some (t', invalidate es)
     }"

definition remove_range ::
  "trie_params \<Rightarrow> platform \<Rightarrow> ncrit_trie \<Rightarrow> tls_cache \<Rightarrow> u64 \<Rightarrow> u64 \<Rightarrow>
   (ncrit_trie \<times> tls_cache) option" where
  "remove_range c pl t es base sz =
     do {
       t' \<leftarrow> remove_pages c t (page_begin pl base) (page_end pl base sz);
       Some (t', invalidate es)
     }"

section \<open>The cache as a list\<close>

lemma length_shift_down [simp]: "length (shift_down es i) = length es"
  by (induction es i rule: shift_down.induct) auto

lemma shift_down_nth:
  "i < length es \<Longrightarrow> j < length es \<Longrightarrow>
   shift_down es i ! j = (if 0 < j \<and> j \<le> i then es ! (j - 1) else es ! j)"
proof (induction es i arbitrary: j rule: shift_down.induct)
  case (2 es k)
  then show ?case by (auto simp: nth_list_update le_Suc_eq)
qed simp

lemma length_shift_up [simp]: "length (shift_up es j n) = length es"
  by (induction es j n rule: shift_up.induct) (subst shift_up.simps, simp)

lemma shift_up_nth:
  "n < length es \<Longrightarrow> k < length es \<Longrightarrow>
   shift_up es j n ! k = (if j \<le> k \<and> k < n then es ! Suc k else es ! k)"
proof (induction es j n rule: shift_up.induct)
  case (1 es j n)
  show ?case
  proof (cases "j < n")
    case True
    then show ?thesis
      unfolding shift_up.simps [of es j n] using "1.IH" [OF True] "1.prems"
      by (auto simp: nth_list_update)
  next
    case False
    then show ?thesis by (auto simp: shift_up.simps [of es j n])
  qed
qed

text \<open>The reference definitions the shifting loops implement.\<close>

lemma move_to_front_eq:
  assumes "i < length es"
  shows "move_to_front es i = es ! i # take i es @ drop (Suc i) es"
proof (rule nth_equalityI)
  show "length (move_to_front es i) = length (es ! i # take i es @ drop (Suc i) es)"
    using assms by (auto simp: move_to_front_def)
next
  fix j
  assume "j < length (move_to_front es i)"
  then have j: "j < length es" by (simp add: move_to_front_def split: if_splits)
  show "move_to_front es i ! j = (es ! i # take i es @ drop (Suc i) es) ! j"
    using assms j
    by (cases j) (auto simp: move_to_front_def nth_list_update shift_down_nth nth_append)
qed

lemma evict_eq:
  assumes "i < kSize" "length es = kSize"
  shows "evict es i = take i es @ drop (Suc i) es @ [no_entry]"
proof (rule nth_equalityI)
  show "length (evict es i) = length (take i es @ drop (Suc i) es @ [no_entry])"
    using assms by (simp add: evict_def)
next
  fix j
  assume "j < length (evict es i)"
  then have j: "j < kSize" using assms by (simp add: evict_def)
  have n: "kSize - 1 < length es" using assms by simp
  show "evict es i ! j = (take i es @ drop (Suc i) es @ [no_entry]) ! j"
    using assms j n
    by (auto simp: evict_def nth_list_update shift_up_nth nth_append nth_Cons' min_def)
qed

lemma cache_insert_eq:
  assumes "length es = kSize"
  shows "cache_insert es base endd seg leaf =
    \<lparr>e_base = base, e_end = endd, e_seg = seg, e_leaf = leaf\<rparr> # butlast es"
proof (rule nth_equalityI)
  show "length (cache_insert es base endd seg leaf) =
    length (\<lparr>e_base = base, e_end = endd, e_seg = seg, e_leaf = leaf\<rparr> # butlast es)"
    using assms by (simp add: cache_insert_def kSize_def)
next
  fix j
  assume "j < length (cache_insert es base endd seg leaf)"
  then have j: "j < kSize" using assms by (simp add: cache_insert_def)
  have n: "kSize - 1 < length es" using assms by (simp add: kSize_def)
  show "cache_insert es base endd seg leaf ! j =
    (\<lparr>e_base = base, e_end = endd, e_seg = seg, e_leaf = leaf\<rparr> # butlast es) ! j"
    using assms j n
    by (cases j) (auto simp: cache_insert_def nth_list_update shift_down_nth nth_butlast)
qed

lemma length_cache_ops [simp]:
  "length (move_to_front es i) = length es"
  "length (evict cs i) = length cs"
  "length (cache_insert cs base endd seg leaf) = length cs"
  "length (invalidate cs) = length cs"
  "length (expand_cache_bounds_top cs base sz seg) = length cs"
  by (simp_all add: move_to_front_def evict_def cache_insert_def invalidate_def
      expand_cache_bounds_top_def)

lemma set_move_to_front: "i < length es \<Longrightarrow> set (move_to_front es i) = set es"
  by (simp add: move_to_front_eq) (metis Un_commute Un_insert_left id_take_nth_drop list.simps(15) set_append)

lemma set_evict: "i < kSize \<Longrightarrow> length es = kSize \<Longrightarrow> set (evict es i) \<subseteq> insert no_entry (set es)"
  by (auto simp: evict_eq dest: in_set_takeD in_set_dropD)

lemma set_cache_insert:
  "length es = kSize \<Longrightarrow> set (cache_insert es base endd seg leaf) \<subseteq>
     insert \<lparr>e_base = base, e_end = endd, e_seg = seg, e_leaf = leaf\<rparr> (set es)"
  by (auto simp: cache_insert_eq dest: in_set_butlastD)

lemma move_to_front_0: "i < length es \<Longrightarrow> move_to_front es i ! 0 = es ! i"
  by (simp add: move_to_front_eq)

text \<open>The loop stops at the first entry that covers the address.\<close>

definition first_cover :: "tls_cache \<Rightarrow> u64 \<Rightarrow> nat \<Rightarrow> nat \<Rightarrow> bool" where
  "first_cover es addr i j \<longleftrightarrow>
     i \<le> j \<and> j < kSize \<and> covers (es ! j) addr \<and> (\<forall>k. i \<le> k \<longrightarrow> k < j \<longrightarrow> \<not> covers (es ! k) addr)"

lemma first_cover_skip:
  "\<not> covers (es ! i) addr \<Longrightarrow> first_cover es addr (Suc i) j \<Longrightarrow> first_cover es addr i j"
  unfolding first_cover_def by (metis Suc_leD Suc_leI le_neq_implies_less)

lemma lookup_from_cases:
  "(\<forall>j. i \<le> j \<longrightarrow> j < kSize \<longrightarrow> \<not> covers (es ! j) addr) \<and> lookup_from h es addr i = Some (None, es) \<or>
   (\<exists>j. first_cover es addr i j \<and>
      lookup_from h es addr i =
        do {
          ok \<leftarrow> leaf_holds h (es ! j) (e_seg (es ! j) OR kLeafTag);
          if ok then Some (Some (e_seg (move_to_front es j ! 0)), move_to_front es j)
          else Some (Some nullptr, evict es j)
        })"
proof (induction h es addr i rule: lookup_from.induct)
  case (1 h es addr i)
  consider "\<not> i < kSize" | (here) "i < kSize" "covers (es ! i) addr"
    | (skip) "i < kSize" "\<not> covers (es ! i) addr" by blast
  then show ?case
  proof cases
    case here
    then have "first_cover es addr i i" by (simp add: first_cover_def)
    with here show ?thesis by (auto simp: lookup_from.simps [of h es addr i] Let_def)
  next
    case skip
    then have "lookup_from h es addr i = lookup_from h es addr (Suc i)"
      by (simp add: lookup_from.simps [of h es addr i])
    with "1.IH" [OF skip] skip(2) show ?thesis
      using first_cover_skip [OF skip(2)] by (metis Suc_leI le_neq_implies_less)
  qed (auto simp: lookup_from.simps [of h es addr i])
qed

lemma hit_from_cases:
  "(\<forall>j. i \<le> j \<longrightarrow> j < kSize \<longrightarrow> \<not> covers (es ! j) addr) \<and> hit_from h es addr tag i = Some (None, es) \<or>
   (\<exists>j. first_cover es addr i j \<and>
      hit_from h es addr tag i =
        do {
          ok \<leftarrow> leaf_holds h (es ! j) tag;
          if ok then Some (Some (move_to_front es j ! 0), move_to_front es j)
          else Some (None, evict es j)
        })"
proof (induction h es addr tag i rule: hit_from.induct)
  case (1 h es addr tag i)
  consider "\<not> i < kSize" | (here) "i < kSize" "covers (es ! i) addr"
    | (skip) "i < kSize" "\<not> covers (es ! i) addr" by blast
  then show ?case
  proof cases
    case here
    then have "first_cover es addr i i" by (simp add: first_cover_def)
    with here show ?thesis by (auto simp: hit_from.simps [of h es addr tag i])
  next
    case skip
    then have "hit_from h es addr tag i = hit_from h es addr tag (Suc i)"
      by (simp add: hit_from.simps [of h es addr tag i])
    with "1.IH" [OF skip] skip(2) show ?thesis
      using first_cover_skip [OF skip(2)] by (metis Suc_leI le_neq_implies_less)
  qed (auto simp: hit_from.simps [of h es addr tag i])
qed

lemma first_cover_unique: "first_cover es addr i j \<Longrightarrow> first_cover es addr i k \<Longrightarrow> j = k"
  unfolding first_cover_def by (metis linorder_neqE_nat)

text \<open>
  The unused member \<^verbatim>\<open>hit\<close> and the loop inlined into \<^verbatim>\<open>lookup_impl\<close> are the same algorithm:
  given the tag of the segment the first covering entry names, they find the same entry,
  reorder or evict alike, and fail on the same dangling slots.
\<close>

lemma hit_matches_lookup_loop:
  assumes "first_cover es addr 0 j" and "length es = kSize"
  shows "lookup_from h es addr 0 =
    map_option (\<lambda>(r, es'). (Some (case r of None \<Rightarrow> nullptr | Some e \<Rightarrow> e_seg e), es'))
      (hit h es addr (e_seg (es ! j) OR kLeafTag))"
proof -
  have c: "covers (es ! j) addr" "j < kSize" using assms(1) by (auto simp: first_cover_def)
  let ?t = "e_seg (es ! j) OR kLeafTag"
  have "lookup_from h es addr 0 =
      do { ok \<leftarrow> leaf_holds h (es ! j) ?t;
           if ok then Some (Some (e_seg (move_to_front es j ! 0)), move_to_front es j)
           else Some (Some nullptr, evict es j) }"
    using lookup_from_cases [of 0 es addr h] c first_cover_unique [OF assms(1)] by auto
  moreover have "hit h es addr ?t =
      do { ok \<leftarrow> leaf_holds h (es ! j) ?t;
           if ok then Some (Some (move_to_front es j ! 0), move_to_front es j)
           else Some (None, evict es j) }"
    using hit_from_cases [of 0 es addr h ?t] c first_cover_unique [OF assms(1)]
    by (auto simp: hit_def)
  ultimately show ?thesis by (cases "leaf_holds h (es ! j) ?t") auto
qed

lemma hit_matches_lookup_loop_witness:
  "let es = \<lparr>e_base = 0, e_end = 4096, e_seg = 0x5000, e_leaf = None\<rparr> # replicate 15 no_entry in
   first_cover es 8 0 0 \<and> length es = kSize \<and>
   lookup_from Map.empty es 8 0 =
     map_option (\<lambda>(r, es'). (Some (case r of None \<Rightarrow> nullptr | Some e \<Rightarrow> e_seg e), es'))
       (hit Map.empty es 8 0x5001)"
proof -
  let ?es = "\<lparr>e_base = 0, e_end = 4096, e_seg = 0x5000, e_leaf = None\<rparr> # replicate 15 no_entry"
  have "first_cover ?es 8 0 0" "length ?es = kSize"
    by (simp_all add: first_cover_def covers_def kSize_def)
  then show ?thesis
    using hit_matches_lookup_loop [of ?es 8 0 Map.empty] by (simp add: Let_def kLeafTag_def)
qed

section \<open>Soundness of the cache\<close>

text \<open>
  An entry is sound when the slot it remembers is the slot of some page and, as long as that
  slot still holds the entry's segment, every address the entry covers belongs to that
  segment. It says nothing about entries whose slot has changed: those are stale.
\<close>

definition entry_ok :: "trie_params \<Rightarrow> platform \<Rightarrow> ncrit_trie \<Rightarrow> tls_entry \<Rightarrow> bool" where
  "entry_ok c pl t e \<longleftrightarrow>
     e = no_entry \<or>
     (e_seg e \<noteq> nullptr \<and> even (e_seg e) \<and>
      (\<exists>p s. e_leaf e = Some s \<and> page_slot c t p = Some s \<and>
        (lookup_page c t p = Some (e_seg e) \<longrightarrow>
         (\<forall>a. covers e a \<longrightarrow> lookup_page c t (drop_bit (page_shift pl) a) = Some (e_seg e)))))"

definition cache_ok :: "trie_params \<Rightarrow> platform \<Rightarrow> ncrit_trie \<Rightarrow> tls_cache \<Rightarrow> bool" where
  "cache_ok c pl t es \<longleftrightarrow> length es = kSize \<and> (\<forall>e \<in> set es. entry_ok c pl t e)"

text \<open>A stale entry: one whose slot no longer holds its segment.\<close>

definition stale :: "ncrit_trie \<Rightarrow> tls_entry \<Rightarrow> bool" where
  "stale t e \<longleftrightarrow> leaf_holds (nodes t) e (e_seg e OR kLeafTag) = Some False"

lemma no_entry_ok [simp]: "entry_ok c pl t no_entry"
  by (simp add: entry_ok_def)

lemma not_covers_no_entry [simp]: "\<not> covers no_entry a"
  by (simp add: covers_def no_entry_def)

lemma cache_ok_init [simp]: "cache_ok c pl t tls_cache_init" "length tls_cache_init = kSize"
  by (auto simp: cache_ok_def tls_cache_init_def)

lemma cache_ok_invalidate [simp]: "length es = kSize \<Longrightarrow> cache_ok c pl t (invalidate es)"
  by (auto simp: cache_ok_def invalidate_def)

lemma cache_ok_subset:
  "cache_ok c pl t es \<Longrightarrow> set es' \<subseteq> insert e (set es) \<Longrightarrow> entry_ok c pl t e \<Longrightarrow> length es' = kSize \<Longrightarrow>
   cache_ok c pl t es'"
  by (auto simp: cache_ok_def)

lemma page_val_tagged_wf:
  assumes wf: "trie_wf c t" and L: "0 < Levels c" and v: "v \<noteq> 0" "even v"
  shows "page_val c t q = v OR kLeafTag \<longleftrightarrow> lookup_page c t q = Some v"
proof -
  have "page_val c t q = 0 \<or> odd (page_val c t q)" by (rule page_val_tag [OF wf L])
  then show ?thesis
    using v untag [OF v(2)] tag_untag [of "page_val c t q"]
    by (auto simp: lookup_page_spec [OF wf L])
qed

lemma page_val_tagged:
  "trie_ready c t \<Longrightarrow> v \<noteq> 0 \<Longrightarrow> even v \<Longrightarrow> page_val c t q = v OR kLeafTag \<longleftrightarrow> lookup_page c t q = Some v"
  by (rule page_val_tagged_wf) (simp_all add: trie_ready_def params_ok_def)

lemma leaf_holds_entry:
  assumes "trie_ready c t" "entry_ok c pl t e" "e \<noteq> no_entry"
  shows "\<exists>ok. leaf_holds (nodes t) e (e_seg e OR kLeafTag) = Some ok \<and>
    (ok \<longrightarrow> e_seg e \<noteq> nullptr \<and>
      (\<forall>a. covers e a \<longrightarrow> lookup_page c t (drop_bit (page_shift pl) a) = Some (e_seg e)))"
proof -
  have wf: "trie_wf c t" and L: "0 < Levels c"
    using assms(1) by (simp_all add: trie_ready_def params_ok_def)
  obtain p s where e: "e_seg e \<noteq> 0" "even (e_seg e)" "e_leaf e = Some s" "page_slot c t p = Some s"
    "lookup_page c t p = Some (e_seg e) \<longrightarrow>
      (\<forall>a. covers e a \<longrightarrow> lookup_page c t (drop_bit (page_shift pl) a) = Some (e_seg e))"
    using assms(2,3) unfolding entry_ok_def by blast
  then show ?thesis
    using page_val_tagged [OF assms(1) e(1,2), of p] load_page_slot [OF wf L e(4)]
    by (simp add: leaf_holds_def)
qed

lemma drop_bit_page:
  fixes a x :: u64
  assumes "ps < 64" "push_bit ps (drop_bit ps x) \<le> a" "a < push_bit ps (drop_bit ps x) + push_bit ps 1"
  shows "drop_bit ps a = drop_bit ps x"
proof -
  define b where "b = push_bit ps (drop_bit ps x)"
  have b: "unat b = unat x div 2 ^ ps * 2 ^ ps"
    unfolding b_def and_not_low_mask [symmetric] by (rule unat_and_not_low_mask)
  have "unat (b + 2 ^ ps) \<le> unat b + unat (2 ^ ps :: u64)"
    unfolding unat_word_ariths(1) by (rule mod_less_eq_dividend)
  then have "unat b \<le> unat a" "unat a < unat b + 2 ^ ps"
    using assms(2,3) unfolding b_def [symmetric] unat_2p [OF assms(1)]
    by (simp_all add: push_bit_eq_mult unat_word_le unat_word_less)
  then have "unat a div 2 ^ ps = unat x div 2 ^ ps"
    unfolding b by (intro div_nat_eqI) (simp_all add: mult.commute)
  then show ?thesis by (simp add: word_unat_eq_iff unat_drop_bit)
qed

text \<open>An entry for one page, as the slow path makes it, is sound.\<close>

lemma page_entry_ok:
  assumes t: "trie_ready c t" and l: "lookup_page_with_slot c t (drop_bit ps addr) = Some (v, leaf)"
    and v: "v \<noteq> 0" "even v" and ps: "ps = page_shift pl" "ps < 64"
  shows "entry_ok c pl t \<lparr>e_base = push_bit ps (drop_bit ps addr),
      e_end = push_bit ps (drop_bit ps addr) + push_bit ps 1, e_seg = v, e_leaf = leaf\<rparr>"
    (is "entry_ok c pl t ?e")
proof -
  have wf: "trie_wf c t" and L: "0 < Levels c" using t by (simp_all add: trie_ready_def params_ok_def)
  let ?q = "drop_bit ps addr"
  have nz: "page_val c t ?q \<noteq> 0"
    using l v(1) unfolding lookup_page_with_slot_spec [OF wf L] by (cases "page_val c t ?q = 0") simp_all
  then have "page_slot c t ?q = leaf" "page_val c t ?q AND NOT kLeafTag = v"
    using l unfolding lookup_page_with_slot_spec [OF wf L] by simp_all
  then have slot: "page_slot c t ?q = leaf" "lookup_page c t ?q = Some v"
    by (simp_all add: lookup_page_spec [OF wf L])
  obtain s where s: "leaf = Some s"
    using slot(1) nz by (cases leaf) (simp_all add: page_slot_def page_val_def leaf_val_def)
  have "drop_bit ps a = ?q" if "covers ?e a" for a
    using that ps(2) by (intro drop_bit_page) (simp_all add: covers_def)
  then have "\<forall>a. covers ?e a \<longrightarrow> lookup_page c t (drop_bit (page_shift pl) a) = Some v"
    using slot(2) unfolding ps(1) by metis
  then show ?thesis using slot(1) s v unfolding entry_ok_def by (intro disjI2) auto
qed

lemma lookup_miss:
  assumes t: "trie_ready c t" and ok: "cache_ok c pl t es"
    and l: "lookup_from (nodes t) es addr 0 = Some (None, es)"
  shows "\<exists>v es'. lookup_impl c pl t es addr = Some (v, es') \<and> cache_ok c pl t es' \<and>
    lookup_page c t (drop_bit (page_shift pl) addr) = Some v \<and> even v \<and>
    (v \<noteq> 0 \<longrightarrow> e_seg (es' ! 0) = v \<and> e_leaf (es' ! 0) = page_slot c t (drop_bit (page_shift pl) addr))"
proof -
  have wf: "trie_wf c t" and L: "0 < Levels c" using t by (simp_all add: trie_ready_def params_ok_def)
  let ?q = "drop_bit (page_shift pl) addr"
  obtain v leaf where vl: "lookup_page_with_slot c t ?q = Some (v, leaf)"
    using lookup_page_with_slot_spec [OF wf L, of ?q] by (cases "page_val c t ?q = 0") auto
  then have lk: "lookup_page c t ?q = Some v" by (simp add: lookup_page_def)
  then have ev: "even v" by (auto simp: lookup_page_spec [OF wf L] kLeafTag_def even_and_iff)
  show ?thesis
  proof (cases "v = 0")
    case True
    then show ?thesis using l vl lk ok by (simp add: lookup_impl_def Let_def)
  next
    case False
    let ?es = "cache_insert es (push_bit (page_shift pl) ?q)
      (push_bit (page_shift pl) ?q + push_bit (page_shift pl) 1) v leaf"
    have len: "length es = kSize" using ok by (simp add: cache_ok_def)
    have "cache_ok c pl t ?es"
      by (rule cache_ok_subset [OF ok set_cache_insert [OF len] page_entry_ok [OF t vl False ev refl page_shift_less]])
        (simp add: len)
    moreover have "lookup_impl c pl t es addr = Some (v, ?es)"
      using l vl False by (simp add: lookup_impl_def Let_def)
    moreover have "leaf = page_slot c t ?q"
      using vl False unfolding lookup_page_with_slot_spec [OF wf L] by (simp split: if_splits)
    ultimately show ?thesis using lk ev by (simp add: cache_insert_eq [OF len])
  qed
qed

lemma slot_exists:
  assumes "trie_ready c t" "lookup_page c t q = Some v" "v \<noteq> 0"
  shows "\<exists>s. page_slot c t q = Some s"
proof -
  have "trie_wf c t" "0 < Levels c" using assms(1) by (simp_all add: trie_ready_def params_ok_def)
  then show ?thesis
    using assms(2,3) lookup_page_spec [of c t q]
    by (cases "page_slot c t q") (auto simp: page_slot_def page_val_def leaf_val_def)
qed

lemma slot_holds:
  assumes t: "trie_ready c t" and e: "e_leaf e = page_slot c t q" "lookup_page c t q = Some (e_seg e)"
    "e_seg e \<noteq> 0" "even (e_seg e)"
  shows "leaf_holds (nodes t) e (e_seg e OR kLeafTag) = Some True"
proof -
  have wf: "trie_wf c t" and L: "0 < Levels c" using t by (simp_all add: trie_ready_def params_ok_def)
  have v: "page_val c t q = e_seg e OR kLeafTag" using page_val_tagged [OF t e(3,4)] e(2) by simp
  obtain s where s: "page_slot c t q = Some s" using slot_exists [OF t e(2,3)] by blast
  show ?thesis using load_page_slot [OF wf L s] v by (simp add: leaf_holds_def e(1) s)
qed

lemma stale_iff:
  assumes t: "trie_ready c t" and e: "page_slot c t q = Some s" "e_leaf e = Some s" "e_seg e \<noteq> 0" "even (e_seg e)"
  shows "stale t e \<longleftrightarrow> lookup_page c t q \<noteq> Some (e_seg e)"
proof -
  have wf: "trie_wf c t" and L: "0 < Levels c" using t by (simp_all add: trie_ready_def params_ok_def)
  have "leaf_holds (nodes t) e (e_seg e OR kLeafTag) = Some (page_val c t q = e_seg e OR kLeafTag)"
    using load_page_slot [OF wf L e(1)] by (simp add: leaf_holds_def e(2))
  then show ?thesis using page_val_tagged [OF t e(3,4)] by (simp add: stale_def)
qed

lemma slot_not_stale:
  "trie_ready c t \<Longrightarrow> e_leaf e = page_slot c t q \<Longrightarrow> lookup_page c t q = Some (e_seg e) \<Longrightarrow>
   e_seg e \<noteq> 0 \<Longrightarrow> even (e_seg e) \<Longrightarrow> \<not> stale t e"
  by (simp add: stale_def slot_holds)

lemma lookup_impl_spec:
  assumes t: "trie_ready c t" and ok: "cache_ok c pl t es"
  shows "\<exists>v es'. lookup_impl c pl t es addr = Some (v, es') \<and> cache_ok c pl t es' \<and> even v \<and>
    (v \<noteq> 0 \<longrightarrow> lookup_page c t (drop_bit (page_shift pl) addr) = Some v \<and> e_seg (es' ! 0) = v \<and>
      \<not> stale t (es' ! 0)) \<and>
    ((\<forall>e \<in> set es. covers e addr \<longrightarrow> \<not> stale t e) \<longrightarrow>
      lookup_page c t (drop_bit (page_shift pl) addr) = Some v)"
  using lookup_from_cases [of 0 es addr "nodes t"]
proof (elim disjE exE conjE)
  assume "lookup_from (nodes t) es addr 0 = Some (None, es)"
  then show ?thesis using lookup_miss [OF t ok] slot_not_stale [OF t] by metis
next
  fix j
  assume fc: "first_cover es addr 0 j"
    and eq: "lookup_from (nodes t) es addr 0 =
        do { ok \<leftarrow> leaf_holds (nodes t) (es ! j) (e_seg (es ! j) OR kLeafTag);
             if ok then Some (Some (e_seg (move_to_front es j ! 0)), move_to_front es j)
             else Some (Some nullptr, evict es j) }"
  have len: "length es = kSize" and j: "j < kSize" "covers (es ! j) addr"
    using ok fc by (simp_all add: cache_ok_def first_cover_def)
  have e: "es ! j \<in> set es" "es ! j \<noteq> no_entry" "entry_ok c pl t (es ! j)"
    using len j ok by (auto simp: cache_ok_def)
  obtain b where b: "leaf_holds (nodes t) (es ! j) (e_seg (es ! j) OR kLeafTag) = Some b"
    "b \<longrightarrow> e_seg (es ! j) \<noteq> nullptr \<and>
      (\<forall>a. covers (es ! j) a \<longrightarrow> lookup_page c t (drop_bit (page_shift pl) a) = Some (e_seg (es ! j)))"
    using leaf_holds_entry [OF t e(3,2)] by blast
  have mf: "cache_ok c pl t (move_to_front es j)"
    using cache_ok_subset [OF ok, of "move_to_front es j" no_entry] set_move_to_front [of j es] len j
    by auto
  have ev: "cache_ok c pl t (evict es j)"
    using cache_ok_subset [OF ok, of "evict es j" no_entry] set_evict [OF j(1) len] len by simp
  have "even (e_seg (es ! j))" using e(2,3) by (auto simp: entry_ok_def)
  moreover have "stale t (es ! j)" if "\<not> b" using b(1) that by (simp add: stale_def)
  ultimately show ?thesis
    using b j e(1) mf ev len
    by (cases b) (auto simp: lookup_impl_def eq move_to_front_0 stale_def)
qed

text \<open>
  What is left of this when a segment pointer is used again for another segment: an entry still
  remembers the slot of some page, so the lookup reads no dangling slot, and what it answers is a
  value the trie holds for some page.
\<close>

definition entry_slot :: "trie_params \<Rightarrow> ncrit_trie \<Rightarrow> tls_entry \<Rightarrow> bool" where
  "entry_slot c t e \<longleftrightarrow>
     e = no_entry \<or> e_seg e \<noteq> nullptr \<and> even (e_seg e) \<and> (\<exists>p s. e_leaf e = Some s \<and> page_slot c t p = Some s)"

definition cache_slots :: "trie_params \<Rightarrow> ncrit_trie \<Rightarrow> tls_cache \<Rightarrow> bool" where
  "cache_slots c t es \<longleftrightarrow> length es = kSize \<and> (\<forall>e \<in> set es. entry_slot c t e)"

lemma cache_slots_init [simp]: "cache_slots c t tls_cache_init"
  by (simp add: cache_slots_def tls_cache_init_def entry_slot_def)

lemma cache_slots_invalidate [simp]: "length es = kSize \<Longrightarrow> cache_slots c t (invalidate es)"
  by (auto simp: cache_slots_def invalidate_def entry_slot_def)

lemma cache_slots_subset:
  "cache_slots c t es \<Longrightarrow> set es' \<subseteq> insert e (set es) \<Longrightarrow> entry_slot c t e \<Longrightarrow> length es' = kSize \<Longrightarrow> cache_slots c t es'"
  by (auto simp: cache_slots_def)

lemma cache_slots_keep:
  "cache_slots c t es \<Longrightarrow> \<forall>q s. page_slot c t q = Some s \<longrightarrow> page_slot c t' q = Some s \<Longrightarrow> cache_slots c t' es"
  unfolding cache_slots_def entry_slot_def by metis

lemma cache_slots_expand:
  assumes "cache_slots c t es" "seg \<noteq> nullptr"
  shows "cache_slots c t (expand_cache_bounds_top es base sz seg)"
proof (cases "e_seg (es ! 0) = seg")
  case True
  let ?e = "(es ! 0)\<lparr>e_base := base, e_end := base + sz\<rparr>"
  have "es ! 0 \<in> set es" using assms(1) by (simp add: cache_slots_def kSize_def)
  then have "entry_slot c t (es ! 0)" using assms(1) by (simp add: cache_slots_def)
  moreover have "es ! 0 \<noteq> no_entry" using True assms(2) by (auto simp: no_entry_def)
  ultimately have "entry_slot c t ?e" by (simp add: entry_slot_def)
  then show ?thesis
    using True cache_slots_subset [OF assms(1) set_update_subset_insert] assms(1)
    by (simp add: expand_cache_bounds_top_def cache_slots_def)
qed (use assms(1) in \<open>simp add: expand_cache_bounds_top_def\<close>)

lemma lookup_safe:
  assumes wf: "trie_wf c t" and L: "0 < Levels c" and ok: "cache_slots c t es"
  shows "\<exists>v es'. trie_lookup c pl t es addr = Some (v, es') \<and> cache_slots c t es' \<and>
    (v \<noteq> nullptr \<longrightarrow> (\<exists>q. lookup_page c t q = Some v)) \<and>
    ((\<forall>e \<in> set es. \<not> covers e addr) \<longrightarrow> lookup_page c t (drop_bit (page_shift pl) addr) = Some v)"
  using lookup_from_cases [of 0 es addr "nodes t"]
proof (elim disjE exE conjE)
  let ?q = "drop_bit (page_shift pl) addr"
  assume l: "lookup_from (nodes t) es addr 0 = Some (None, es)"
  obtain v leaf where vl: "lookup_page_with_slot c t ?q = Some (v, leaf)"
    and s: "v = 0 \<or> page_val c t ?q \<noteq> 0 \<and> leaf = page_slot c t ?q"
    using lookup_page_with_slot_spec [OF wf L, of ?q] by (cases "page_val c t ?q = 0") auto
  have lk: "lookup_page c t ?q = Some v" using vl by (simp add: lookup_page_def)
  then have ev: "even v" by (auto simp: lookup_page_spec [OF wf L] kLeafTag_def even_and_iff)
  show ?thesis
  proof (cases "v = 0")
    case False
    let ?b = "push_bit (page_shift pl) ?q"
    have "page_slot c t ?q \<noteq> None" using s False
      by (cases "node_at (nodes t) (root t) (butlast (page_path c ?q))") (auto simp: page_slot_def page_val_def leaf_val_def)
    then have "\<exists>x. leaf = Some x" using s False by auto
    then have "entry_slot c t \<lparr>e_base = ?b, e_end = ?b + push_bit (page_shift pl) 1, e_seg = v, e_leaf = leaf\<rparr>"
      using s False ev by (auto simp: entry_slot_def)
    then have "cache_slots c t (cache_insert es ?b (?b + push_bit (page_shift pl) 1) v leaf)"
      using cache_slots_subset [OF ok set_cache_insert] ok by (simp add: cache_slots_def)
    then show ?thesis using l vl False lk by (auto simp: trie_lookup_def lookup_impl_def Let_def)
  qed (use l vl lk ok in \<open>simp add: trie_lookup_def lookup_impl_def Let_def\<close>)
next
  fix j
  assume fc: "first_cover es addr 0 j"
    and eq: "lookup_from (nodes t) es addr 0 =
        do { ok \<leftarrow> leaf_holds (nodes t) (es ! j) (e_seg (es ! j) OR kLeafTag);
             if ok then Some (Some (e_seg (move_to_front es j ! 0)), move_to_front es j)
             else Some (Some nullptr, evict es j) }"
  have len: "length es = kSize" and j: "j < kSize" "covers (es ! j) addr"
    using ok fc by (simp_all add: cache_slots_def first_cover_def)
  then have e: "es ! j \<in> set es" "es ! j \<noteq> no_entry" by auto
  then obtain p s where s: "e_seg (es ! j) \<noteq> nullptr" "even (e_seg (es ! j))" "e_leaf (es ! j) = Some s" "page_slot c t p = Some s"
    using ok by (auto simp: cache_slots_def entry_slot_def)
  have h: "leaf_holds (nodes t) (es ! j) (e_seg (es ! j) OR kLeafTag) = Some (lookup_page c t p = Some (e_seg (es ! j)))"
    using load_page_slot [OF wf L s(4)] page_val_tagged_wf [OF wf L s(1,2)] by (simp add: leaf_holds_def s(3))
  have mf: "cache_slots c t (move_to_front es j)"
    using cache_slots_subset [OF ok, of "move_to_front es j" no_entry] set_move_to_front [of j es] len j
    by (auto simp: entry_slot_def)
  have ev: "cache_slots c t (evict es j)"
    using cache_slots_subset [OF ok set_evict [OF j(1) len]] len by (simp add: entry_slot_def)
  show ?thesis
    using h mf ev len j e(1)
    by (cases "lookup_page c t p = Some (e_seg (es ! j))") (auto simp: trie_lookup_def lookup_impl_def eq move_to_front_0)
qed

text \<open>A lookup adds at most one entry, at the front.\<close>

lemma lookup_entries:
  assumes "trie_lookup c pl t es addr = Some (v, es')" "length es = kSize"
  shows "length es' = kSize \<and> set (tl es') \<subseteq> insert no_entry (set es) \<and>
    (v = nullptr \<longrightarrow> set es' \<subseteq> insert no_entry (set es))"
  using lookup_from_cases [of 0 es addr "nodes t"]
proof (elim disjE exE conjE)
  assume "lookup_from (nodes t) es addr 0 = Some (None, es)"
  then obtain v0 o' where w: "lookup_page_with_slot c t (drop_bit (page_shift pl) addr) = Some (v0, o')"
    and e: "es' = es \<or> (\<exists>x. v \<noteq> nullptr \<and> es' = x # butlast es)"
    using assms by (auto simp: trie_lookup_def lookup_impl_def Let_def cache_insert_eq split: bind_splits if_splits)
  have "set (butlast es) \<subseteq> set es" "set (tl es) \<subseteq> set es" using in_set_butlastD [of _ es] by (auto, cases es, auto)
  then show ?thesis using e assms(2) by (auto simp: kSize_def)
next
  fix j
  assume fc: "first_cover es addr 0 j"
    and eq: "lookup_from (nodes t) es addr 0 =
        do { ok \<leftarrow> leaf_holds (nodes t) (es ! j) (e_seg (es ! j) OR kLeafTag);
             if ok then Some (Some (e_seg (move_to_front es j ! 0)), move_to_front es j)
             else Some (Some nullptr, evict es j) }"
  have j: "j < kSize" using fc by (simp add: first_cover_def)
  obtain ok where ok: "leaf_holds (nodes t) (es ! j) (e_seg (es ! j) OR kLeafTag) = Some ok"
    using assms(1) by (auto simp: trie_lookup_def lookup_impl_def eq split: bind_splits)
  show ?thesis
  proof (cases ok)
    case True
    then have "es' = move_to_front es j" using assms(1) ok by (auto simp: trie_lookup_def lookup_impl_def eq)
    moreover have "set (tl (move_to_front es j)) \<subseteq> set es"
      using j assms(2) by (auto simp: move_to_front_eq dest: in_set_takeD in_set_dropD)
    ultimately show ?thesis using j assms(2) set_move_to_front [of j es] by auto
  next
    case False
    then have e: "es' = evict es j" using assms(1) ok by (auto simp: trie_lookup_def lookup_impl_def eq)
    have "set (tl es') \<subseteq> set es'" by (cases es') auto
    then show ?thesis using set_evict [OF j assms(2)] assms(2) e by auto
  qed
qed

text \<open>An entry at the front that is not stale answers for every address it covers.\<close>

lemma front_hit:
  assumes "length es = kSize" "covers (es ! 0) a" "leaf_holds (nodes t) (es ! 0) (e_seg (es ! 0) OR kLeafTag) = Some True"
  shows "trie_lookup c pl t es a = Some (e_seg (es ! 0), es)"
  using assms
  by (simp add: trie_lookup_def lookup_impl_def lookup_from.simps [of _ _ _ 0] kSize_def move_to_front_def)

text \<open>Widening the first entry to the bounds of its segment keeps the cache sound.\<close>

lemma cache_ok_expand:
  assumes "cache_ok c pl t es"
    and "\<And>p a. seg \<noteq> 0 \<Longrightarrow> lookup_page c t p = Some seg \<Longrightarrow> in_range base sz a \<Longrightarrow>
      lookup_page c t (drop_bit (page_shift pl) a) = Some seg"
    and "seg \<noteq> 0"
  shows "cache_ok c pl t (expand_cache_bounds_top es base sz seg)"
proof (cases "e_seg (es ! 0) = seg")
  case True
  let ?e = "(es ! 0)\<lparr>e_base := base, e_end := base + sz\<rparr>"
  have "0 < length es" using assms(1) by (simp add: cache_ok_def kSize_def)
  then have "entry_ok c pl t (es ! 0)" using assms(1) unfolding cache_ok_def by (meson nth_mem)
  moreover have "es ! 0 \<noteq> no_entry" using True assms(3) by (auto simp: no_entry_def)
  ultimately obtain p s where "even seg" "e_leaf (es ! 0) = Some s" "page_slot c t p = Some s"
    using True unfolding entry_ok_def by blast
  then have "entry_ok c pl t ?e"
    using True assms(2) [of p] assms(3) unfolding entry_ok_def covers_def in_range_def by auto
  then show ?thesis
    using assms(1) True set_update_subset_insert [of es 0 ?e]
    by (auto simp: expand_cache_bounds_top_def cache_ok_def)
qed (use assms(1) in \<open>simp add: expand_cache_bounds_top_def\<close>)

section \<open>Ranges\<close>

lemma insert_range_spec:
  assumes "trie_ready c t" "even val"
  shows "\<exists>t'. insert_range c pl t es base sz val = Some (t', invalidate es) \<and> trie_ready c t' \<and>
    (\<forall>q s. page_slot c t q = Some s \<longrightarrow> page_slot c t' q = Some s) \<and>
    (\<forall>q. lookup_page c t' q =
       (if page_in c (page_begin pl base) (page_end pl base sz) q then Some val else lookup_page c t q))"
  using insert_pages_spec [OF assms, of "page_begin pl base" "page_end pl base sz"]
  by (auto simp: insert_range_def)

text \<open>The same without any promise of \<^verbatim>\<open>new\<close>.\<close>

lemma insert_range_effect:
  assumes "trie_wf c t" "params_ok c" "alloc_ok c" "even val"
  shows "\<exists>t'. insert_range c pl t es base sz val = Some (t', invalidate es) \<and> trie_wf c t' \<and>
    (\<forall>q s. page_slot c t q = Some s \<longrightarrow> page_slot c t' q = Some s) \<and>
    (\<forall>q. lookup_page c t' q = lookup_page c t q \<or>
       page_in c (page_begin pl base) (page_end pl base sz) q \<and> lookup_page c t' q = Some val) \<and>
    ((\<forall>q. page_in c (page_begin pl base) (page_end pl base sz) q \<longrightarrow> lookup_page c t' q = Some val) \<or>
     \<not> alloc_total c \<and> (\<exists>h. new_node c h = 0 \<and> dom (nodes t) \<subseteq> dom h \<and> dom h \<subseteq> dom (nodes t')))"
  using insert_pages_effect [OF assms, of "word_range (page_begin pl base) (page_end pl base sz)"]
  unfolding page_in_def insert_range_def insert_pages_foldM set_word_range by fastforce

lemma remove_range_effect:
  assumes "trie_wf c t" "0 < Levels c"
  shows "\<exists>t'. remove_range c pl t es base sz = Some (t', invalidate es) \<and> trie_wf c t' \<and>
    (\<forall>q s. page_slot c t q = Some s \<longrightarrow> page_slot c t' q = Some s) \<and>
    (\<forall>q. lookup_page c t' q =
       (if page_in c (page_begin pl base) (page_end pl base sz) q then Some 0 else lookup_page c t q))"
  using remove_pages_effect [OF assms, of "word_range (page_begin pl base) (page_end pl base sz)"]
  by (auto simp: remove_range_def page_in_def remove_pages_foldM set_word_range)

lemma remove_range_spec:
  assumes "trie_ready c t"
  shows "\<exists>t'. remove_range c pl t es base sz = Some (t', invalidate es) \<and> trie_ready c t' \<and>
    (\<forall>q s. page_slot c t q = Some s \<longrightarrow> page_slot c t' q = Some s) \<and>
    (\<forall>q. lookup_page c t' q =
       (if page_in c (page_begin pl base) (page_end pl base sz) q then Some 0 else lookup_page c t q))"
  using remove_pages_spec [OF assms, of "page_begin pl base" "page_end pl base sz"]
  by (auto simp: remove_range_def)

text \<open>
  C31: \<^verbatim>\<open>insert_range\<close> is memory safe and maps the pages of a byte range, best effort when memory runs
  out: the page of an address that shares no page with the range (up to the covered bits) looks up
  as before, the page of any other address to the inserted value, or as before; the latter happens
  only if \<^verbatim>\<open>new\<close> has returned null for some set of nodes allocated during the loop. The caller is not
  told. The calling thread's cache is emptied.
\<close>

theorem insert_range_correct:
  assumes "trie_wf c t" "params_ok c" "alloc_ok c" "even val" "range_ok pl base sz"
  defines "touched \<equiv> \<lambda>a. \<exists>b. in_range base sz b \<and> same_page c (drop_bit (page_shift pl) b) (drop_bit (page_shift pl) a)"
  shows "\<exists>t'. insert_range c pl t es base sz val = Some (t', invalidate es) \<and> trie_wf c t' \<and>
    (\<forall>a. \<not> touched a \<longrightarrow> lookup_page c t' (drop_bit (page_shift pl) a) = lookup_page c t (drop_bit (page_shift pl) a)) \<and>
    (\<forall>a. touched a \<longrightarrow> lookup_page c t' (drop_bit (page_shift pl) a) \<in> {Some val, lookup_page c t (drop_bit (page_shift pl) a)}) \<and>
    ((\<forall>a. touched a \<longrightarrow> lookup_page c t' (drop_bit (page_shift pl) a) = Some val) \<or>
     \<not> alloc_total c \<and> (\<exists>h. new_node c h = 0 \<and> dom (nodes t) \<subseteq> dom h \<and> dom h \<subseteq> dom (nodes t')))"
proof -
  have pg: "touched a \<longleftrightarrow> page_in c (page_begin pl base) (page_end pl base sz) (drop_bit (page_shift pl) a)" for a
    using page_in_range [OF assms(5), of c "drop_bit (page_shift pl) a"] by (auto simp: touched_def)
  obtain t' where t': "insert_range c pl t es base sz val = Some (t', invalidate es)" "trie_wf c t'"
    and each: "\<forall>q. lookup_page c t' q = lookup_page c t q \<or>
        page_in c (page_begin pl base) (page_end pl base sz) q \<and> lookup_page c t' q = Some val"
    and all: "(\<forall>q. page_in c (page_begin pl base) (page_end pl base sz) q \<longrightarrow> lookup_page c t' q = Some val) \<or>
        \<not> alloc_total c \<and> (\<exists>h. new_node c h = 0 \<and> dom (nodes t) \<subseteq> dom h \<and> dom h \<subseteq> dom (nodes t'))"
    using insert_range_effect [OF assms(1-4)] by blast
  show ?thesis
    unfolding pg using t' all each by (intro exI [of _ t']) auto
qed

text \<open>
  \<^verbatim>\<open>remove_range\<close> after \<^verbatim>\<open>insert_range\<close> of the same bytes is the identity on the mapping of
  every page, when no page of the range was mapped before.
\<close>

lemma remove_range_undoes_insert_range:
  assumes "trie_ready c t" "even val"
    and "\<And>q. page_in c (page_begin pl base) (page_end pl base sz) q \<Longrightarrow> lookup_page c t q = Some 0"
  shows "\<exists>t1 t2. insert_range c pl t es base sz val = Some (t1, invalidate es) \<and>
    remove_range c pl t1 es' base sz = Some (t2, invalidate es') \<and> trie_ready c t2 \<and>
    (\<forall>q. lookup_page c t2 q = lookup_page c t q)"
proof -
  obtain t1 where t1: "insert_range c pl t es base sz val = Some (t1, invalidate es)" "trie_ready c t1"
    "\<forall>q. lookup_page c t1 q =
       (if page_in c (page_begin pl base) (page_end pl base sz) q then Some val else lookup_page c t q)"
    using insert_range_spec [OF assms(1,2)] by blast
  with assms(3) show ?thesis using remove_range_spec [OF t1(2), of pl es' base sz] by auto
qed

text \<open>A trie that maps the two pages at \<open>0x10000\<close>, for the witnesses.\<close>

lemma demo_range: "range_ok linux_x86 0x10000 0x2000"
  by (simp add: range_ok_def)

lemma demo_page_begin: "page_begin linux_x86 0x10000 = 16" "page_end linux_x86 0x10000 0x2000 = 18"
proof -
  show "page_begin linux_x86 0x10000 = 16"
    unfolding word_unat_eq_iff range_ok_unat(2) [OF demo_range] by simp
  show "page_end linux_x86 0x10000 0x2000 = 18"
    unfolding word_unat_eq_iff range_ok_unat(3) [OF demo_range] by simp
qed

lemma demo_page_in:
  "page_in default_params (page_begin linux_x86 0x10000) (page_end linux_x86 0x10000 0x2000) 16"
  "page_in default_params (page_begin linux_x86 0x10000) (page_end linux_x86 0x10000 0x2000) 17"
  "\<not> page_in default_params (page_begin linux_x86 0x10000) (page_end linux_x86 0x10000 0x2000) 18"
proof -
  show "page_in default_params (page_begin linux_x86 0x10000) (page_end linux_x86 0x10000 0x2000) 16"
    unfolding demo_page_begin page_in_def same_page_def by (rule bexI [of _ 16]) simp_all
  show "page_in default_params (page_begin linux_x86 0x10000) (page_end linux_x86 0x10000 0x2000) 17"
    unfolding demo_page_begin page_in_def same_page_def by (rule bexI [of _ 17]) simp_all
  have "\<not> same_page default_params p 18" if "p \<in> {16..<18}" for p
    using that by (subst same_page_covered) (auto simp: unat_word_less)
  then show "\<not> page_in default_params (page_begin linux_x86 0x10000) (page_end linux_x86 0x10000 0x2000) 18"
    unfolding demo_page_begin page_in_def by blast
qed

theorem insert_range_correct_witness:
  "trie_wf default_params empty_trie \<and> params_ok default_params \<and> alloc_ok default_params \<and> even (0x5000 :: u64) \<and>
   range_ok linux_x86 0x10000 0x2000 \<and>
   (\<exists>t'. insert_range default_params linux_x86 empty_trie tls_cache_init 0x10000 0x2000 0x5000 =
       Some (t', invalidate tls_cache_init) \<and>
     lookup_page default_params t' (drop_bit 12 0x11234) = Some 0x5000)"
proof -
  have wf: "trie_wf default_params empty_trie" using empty_trie_ready by (simp add: trie_ready_def)
  have "in_range 0x10000 0x2000 0x11234" by (simp add: in_range_def)
  moreover have "same_page default_params q q" for q by (simp add: same_page_def)
  ultimately have ex: "\<exists>b. in_range 0x10000 0x2000 b \<and>
      same_page default_params (drop_bit 12 b) (drop_bit 12 0x11234)" by blast
  obtain t' where t': "insert_range default_params linux_x86 empty_trie tls_cache_init 0x10000 0x2000 0x5000 =
      Some (t', invalidate tls_cache_init)"
    and l: "\<forall>a. (\<exists>b. in_range 0x10000 0x2000 b \<and> same_page default_params (drop_bit 12 b) (drop_bit 12 a)) \<longrightarrow>
      lookup_page default_params t' (drop_bit 12 a) = Some 0x5000"
    using insert_range_correct [OF wf default_params_ok default_alloc_ok _ demo_range, of "0x5000" tls_cache_init]
      default_alloc_total unfolding linux_x86_page by auto
  have "lookup_page default_params t' (drop_bit 12 0x11234) = Some 0x5000"
    using spec [OF l, of "0x11234"] ex by (simp only: simp_thms)
  then show ?thesis using t' wf default_params_ok default_alloc_ok demo_range by simp
qed

lemma remove_range_undoes_insert_range_witness:
  "\<exists>t1 t2. insert_range default_params linux_x86 empty_trie tls_cache_init 0x10000 0x2000 0x5000 =
       Some (t1, invalidate tls_cache_init) \<and>
     remove_range default_params linux_x86 t1 tls_cache_init 0x10000 0x2000 =
       Some (t2, invalidate tls_cache_init) \<and>
     lookup_page default_params t2 16 = Some 0"
  using remove_range_undoes_insert_range [of default_params empty_trie "0x5000" linux_x86 "0x10000" "0x2000"
      tls_cache_init tls_cache_init] by auto

section \<open>Properties of the cached lookup\<close>

text \<open>
  C30: The cached lookup never dereferences a dangling slot and is sound: with a sound cache it
  returns null or the value the trie holds for the page of the address, it leaves a sound
  cache, and it returns the value of the trie itself whenever no stale entry covers the address.
\<close>

theorem lookup_sound:
  assumes "trie_ready c t" "cache_ok c pl t es"
  shows "\<exists>v es'. trie_lookup c pl t es addr = Some (v, es') \<and> cache_ok c pl t es' \<and>
    (v = nullptr \<or> lookup_page c t (drop_bit (page_shift pl) addr) = Some v) \<and>
    ((\<forall>e \<in> set es. covers e addr \<longrightarrow> \<not> stale t e) \<longrightarrow>
      lookup_page c t (drop_bit (page_shift pl) addr) = Some v)"
  using lookup_impl_spec [OF assms, of addr] unfolding trie_lookup_def by blast

lemma demo_trie:
  "\<exists>t. insert_range default_params linux_x86 empty_trie tls_cache_init 0x10000 0x2000 0x5000 =
      Some (t, invalidate tls_cache_init) \<and> trie_ready default_params t \<and>
    lookup_page default_params t 16 = Some 0x5000 \<and> lookup_page default_params t 17 = Some 0x5000 \<and>
    lookup_page default_params t 18 = Some 0"
  using insert_range_spec [OF empty_trie_ready, of "0x5000" linux_x86 tls_cache_init "0x10000" "0x2000"]
    demo_page_in by auto

theorem lookup_sound_witness:
  "\<exists>t es. trie_ready default_params t \<and> cache_ok default_params linux_x86 t tls_cache_init \<and>
     trie_lookup default_params linux_x86 t tls_cache_init 0x11234 = Some (0x5000, es)"
proof -
  obtain t where t: "trie_ready default_params t" "lookup_page default_params t 17 = Some 0x5000"
    using demo_trie by blast
  have d: "drop_bit 12 (0x11234 :: u64) = 17" by simp
  have ns: "\<forall>e \<in> set tls_cache_init. covers e 0x11234 \<longrightarrow> \<not> stale t e"
    by (auto simp: tls_cache_init_def)
  show ?thesis
    using lookup_sound [OF t(1) cache_ok_init(1), of linux_x86 "0x11234"] t ns
    unfolding linux_x86_page d by auto
qed

text \<open>
  C33: A lookup whose first covering entry is stale returns null and evicts that entry, whatever
  the trie holds for the page: it does not fall back to the traversal, so an address of a
  mapped page can look up to null once.
\<close>

theorem stale_entry_hides_mapping:
  assumes "first_cover es addr 0 j" and "stale t (es ! j)"
  shows "lookup_impl c pl t es addr = Some (nullptr, evict es j)"
proof -
  have "covers (es ! j) addr" "j < kSize" using assms(1) by (simp_all add: first_cover_def)
  then have "lookup_from (nodes t) es addr 0 =
      do { ok \<leftarrow> leaf_holds (nodes t) (es ! j) (e_seg (es ! j) OR kLeafTag);
           if ok then Some (Some (e_seg (move_to_front es j ! 0)), move_to_front es j)
           else Some (Some nullptr, evict es j) }"
    using lookup_from_cases [of 0 es addr "nodes t"] first_cover_unique [OF assms(1)] by auto
  then show ?thesis using assms(2) by (simp add: lookup_impl_def stale_def)
qed

theorem stale_entry_hides_mapping_witness:
  "\<exists>t es. trie_ready default_params t \<and> cache_ok default_params linux_x86 t es \<and>
     lookup_page default_params t (drop_bit (page_shift linux_x86) 0x10008) = Some 0x5000 \<and>
     lookup_impl default_params linux_x86 t es 0x10008 = Some (nullptr, evict es 0)"
proof -
  obtain t where t: "trie_ready default_params t" "lookup_page default_params t 16 = Some 0x5000"
    using demo_trie by blast
  then have wf: "trie_wf default_params t" by (simp add: trie_ready_def)
  have d: "drop_bit 12 (0x10008 :: u64) = 16" by simp
  obtain s where s: "page_slot default_params t 16 = Some s"
    using slot_exists [OF t] by auto
  let ?e = "\<lparr>e_base = 0x10000, e_end = 0x11000, e_seg = 0x4000, e_leaf = Some s\<rparr>"
  let ?es = "?e # replicate 15 no_entry"
  have ok: "cache_ok default_params linux_x86 t ?es"
    using s t(2) by (cases s) (auto simp: cache_ok_def kSize_def entry_ok_def)
  have "page_val default_params t 16 \<noteq> 0x4000 OR kLeafTag"
    using page_val_tagged [OF t(1), of "0x4000" 16] t(2) by simp
  then have "stale t ?e"
    using load_page_slot [OF wf _ s] by (simp add: stale_def leaf_holds_def)
  moreover have "first_cover ?es 0x10008 0 0" by (simp add: first_cover_def kSize_def covers_def)
  ultimately show ?thesis
    using stale_entry_hides_mapping [of ?es "0x10008" 0 t default_params linux_x86] ok t d
    by (metis linux_x86_page(2) nth_Cons_0)
qed

end
