(* ===== verification/Sub_Segment.thy ===== *)
theory Sub_Segment
  imports Platform
begin

text \<open>
  The descriptor of one mapped region, \<^verbatim>\<open>include/segmented_interprocess/sub_segment.hpp\<close>, and the
  layout of the segment table that lives at the start of sub-segment 0. A factory returns
  \<open>None\<close> where the code returns a null \<^verbatim>\<open>unique_ptr\<close>. The only functions the code stores in the
  two callback fields are those of the owning manager, so a field is whether it is set.
\<close>

section \<open>Definitions\<close>

subsection \<open>The shared segment table\<close>

definition kMaxSubSegments :: nat where
  "kMaxSubSegments = 64"

definition kShmNameMax :: nat where
  "kShmNameMax = 128"

definition kSegmentTableMagic :: u64 where
  "kSegmentTableMagic = 0xB0015EF5DEADBEEF"

definition kSegmentTableVersion :: u32 where
  "kSegmentTableVersion = 1"

record segment_entry =
  ent_file_offset :: u64
  ent_size :: u64

record segment_table_t =
  magic :: u64
  version :: u32
  capacity :: u32
  count :: u32
  entries :: "segment_entry list"

text \<open>A fresh shared-memory object is zero-filled, and so is the table in it.\<close>

definition zero_table :: segment_table_t where
  "zero_table = \<lparr>magic = 0, version = 0, capacity = 0, count = 0,
     entries = replicate kMaxSubSegments \<lparr>ent_file_offset = 0, ent_size = 0\<rparr>\<rparr>"

text \<open>The size of the table depends on the mutex of Boost in it, which is a parameter.\<close>

definition segment_manager_offset :: "platform \<Rightarrow> u64 \<Rightarrow> u64" where
  "segment_manager_offset pl sizeof_segment_table = align_up sizeof_segment_table (page_size pl)"

subsection \<open>Descriptors\<close>

record sub_segment =
  base_vaddr :: u64
  size_of :: u64
  is_primary :: bool
  is_creator :: bool
  is_anon :: bool
  shm_name :: string
  file_offset :: u64
  manager :: u64
  discover_growth_fn :: bool
  find_by_file_offset_fn :: bool

definition default_sub_segment :: sub_segment where
  "default_sub_segment =
     \<lparr>base_vaddr = nullptr, size_of = 0, is_primary = False, is_creator = False, is_anon = False,
      shm_name = [], file_offset = 0, manager = nullptr, discover_growth_fn = False,
      find_by_file_offset_fn = False\<rparr>"

text \<open>\<^verbatim>\<open>strncpy\<close> into a zeroed buffer keeps at most \<^verbatim>\<open>kShmNameMax - 1\<close> characters.\<close>

definition strncpy :: "string \<Rightarrow> nat \<Rightarrow> string" where
  "strncpy src n = take n src"

subsection \<open>Factories\<close>

definition create_anon :: "os \<Rightarrow> u64 \<Rightarrow> history \<Rightarrow> sub_segment option \<times> history" where
  "create_anon os sz h =
     (let (base, h) = mmap_alloc os sz h
      in if base = nullptr then (None, h)
         else (Some (default_sub_segment\<lparr>base_vaddr := base, size_of := sz, is_anon := True,
                     is_creator := True\<rparr>), h))"

definition create_shm :: "os \<Rightarrow> platform \<Rightarrow> string \<Rightarrow> u64 \<Rightarrow> history \<Rightarrow> sub_segment option \<times> history" where
  "create_shm os pl name sz h =
     (let (base, h) = Platform.shm_create os pl name sz h
      in if base = nullptr then (None, h)
         else (Some (default_sub_segment\<lparr>base_vaddr := base, size_of := sz, is_anon := False,
                     is_creator := True, shm_name := strncpy name (kShmNameMax - 1)\<rparr>), h))"

definition open_shm_chunk ::
  "os \<Rightarrow> platform \<Rightarrow> string \<Rightarrow> u64 \<Rightarrow> u64 \<Rightarrow> history \<Rightarrow> sub_segment option \<times> history" where
  "open_shm_chunk os pl name sz off h =
     (let (base, h) = shm_map_chunk os pl name sz off h
      in if base = nullptr then (None, h)
         else (Some (default_sub_segment\<lparr>base_vaddr := base, size_of := sz, is_anon := False,
                     is_creator := False, file_offset := off,
                     shm_name := strncpy name (kShmNameMax - 1)\<rparr>), h))"

definition open_shm :: "os \<Rightarrow> platform \<Rightarrow> string \<Rightarrow> u64 \<Rightarrow> history \<Rightarrow> sub_segment option \<times> history" where
  "open_shm os pl name sz h = open_shm_chunk os pl name sz 0 h"

subsection \<open>Destructor and accessors\<close>

definition destroy_sub_segment :: "os \<Rightarrow> platform \<Rightarrow> sub_segment \<Rightarrow> history \<Rightarrow> history" where
  "destroy_sub_segment os pl s h =
     (if base_vaddr s = nullptr then h
      else if is_anon s then mmap_free (base_vaddr s) (size_of s) h
      else if is_creator s then shm_destroy os pl (base_vaddr s) (size_of s) (shm_name s) h
      else shm_close (base_vaddr s) (size_of s) h)"

definition base_addr :: "platform \<Rightarrow> sub_segment \<Rightarrow> u64" where
  "base_addr pl s = ptr_to_vaddr pl (base_vaddr s)"

definition end_addr :: "platform \<Rightarrow> sub_segment \<Rightarrow> u64" where
  "end_addr pl s = base_addr pl s + size_of s"

definition contains :: "platform \<Rightarrow> sub_segment \<Rightarrow> u64 \<Rightarrow> bool" where
  "contains pl s addr \<longleftrightarrow> addr \<ge> base_addr pl s \<and> addr < end_addr pl s"

section \<open>Ownership of the mapping\<close>

text \<open>
  What the code relies on from the kernel: \<^verbatim>\<open>mmap\<close> does not answer the null address.
\<close>

definition mmap_nonnull :: "os \<Rightarrow> bool" where
  "mmap_nonnull os \<longleftrightarrow> (\<forall>h sz fl fd off. sys_mmap os h sz fl fd off \<noteq> nullptr)"

lemma demo_os_nonnull [simp]: "mmap_nonnull demo_os"
  by (simp add: mmap_nonnull_def demo_os_mmap)

lemmas factory_defs = create_anon_def create_shm_def open_shm_chunk_def open_shm_def
  mmap_alloc_def Platform.shm_create_def shm_map_chunk_def syscall_defs

definition factories :: "os \<Rightarrow> platform \<Rightarrow> string \<Rightarrow> u64 \<Rightarrow> u64 \<Rightarrow> history \<Rightarrow> (sub_segment option \<times> history) set" where
  "factories os pl name sz off h =
     {create_anon os sz h, create_shm os pl name sz h, open_shm_chunk os pl name sz off h,
      open_shm os pl name sz h}"

lemma live_maps_calls [simp]:
  "live_maps (snd (do_open os path fl m h)) = live_maps h"
  "live_maps (snd (do_unlink os path h)) = live_maps h"
  "live_maps (snd (platform_shm_open os pl name fl m h)) = live_maps h"
  "live_maps (snd (platform_shm_unlink os pl name h)) = live_maps h"
  "live_maps (snd (do_ftruncate os fd sz h)) = live_maps h"
  "live_maps (do_close fd h) = live_maps h"
  by (simp_all add: platform_shm_open_def platform_shm_unlink_def syscall_defs Let_def live_maps_def map_event_def)

lemma do_mmap_live:
  "fst (do_mmap os sz fl fd off h) = sys_mmap os h sz fl fd off"
  "live_maps (snd (do_mmap os sz fl fd off h)) =
     (if sys_mmap os h sz fl fd off = MAP_FAILED then live_maps h else (sys_mmap os h sz fl fd off, sz) # live_maps h)"
  by (simp_all add: syscall_defs Let_def live_maps_def map_event_def)

text \<open>A helper that maps memory: it fails and maps nothing, or returns the one mapping it added.\<close>

definition maps_one :: "os \<Rightarrow> u64 \<Rightarrow> history \<Rightarrow> u64 \<times> history \<Rightarrow> bool" where
  "maps_one os sz h r \<longleftrightarrow>
     (fst r = nullptr \<and> live_maps (snd r) = live_maps h) \<or>
     (\<exists>h1 fl fd o'. live_maps h1 = live_maps h \<and> fst r = sys_mmap os h1 sz fl fd o' \<and> fst r \<noteq> MAP_FAILED \<and>
        live_maps (snd r) = (fst r, sz) # live_maps h)"

lemma maps_one_intro:
  assumes "live_maps h1 = live_maps h" "sys_mmap os h1 sz fl fd o' \<noteq> MAP_FAILED" "fst r = sys_mmap os h1 sz fl fd o'"
    "live_maps (snd r) = (sys_mmap os h1 sz fl fd o', sz) # live_maps h"
  shows "maps_one os sz h r"
  using assms unfolding maps_one_def by metis

lemma maps_one_null: "fst r = nullptr \<Longrightarrow> live_maps (snd r) = live_maps h \<Longrightarrow> maps_one os sz h r"
  by (simp add: maps_one_def)

lemma mmap_alloc_maps: "maps_one os sz h (mmap_alloc os sz h)"
proof (cases "sys_mmap os h sz [MAP_PRIVATE, MAP_ANON] (-1) 0 = MAP_FAILED")
  case True
  then show ?thesis by (intro maps_one_null) (simp_all add: mmap_alloc_def case_prod_beta Let_def do_mmap_live)
next
  case False
  then show ?thesis by (intro maps_one_intro [OF refl False]) (simp_all add: mmap_alloc_def case_prod_beta Let_def do_mmap_live)
qed

lemma shm_create_maps: "maps_one os sz h (Platform.shm_create os pl name sz h)"
proof -
  define h1 where "h1 = snd (do_unlink os (get_platform_shm_path pl name) h)"
  define fd h2 where "fd = fst (do_open os (get_platform_shm_path pl name) [O_CREAT, O_RDWR, O_EXCL] mode_0600 h1)"
    and "h2 = snd (do_open os (get_platform_shm_path pl name) [O_CREAT, O_RDWR, O_EXCL] mode_0600 h1)"
  define r h3 where "r = fst (do_ftruncate os fd sz h2)" and "h3 = snd (do_ftruncate os fd sz h2)"
  note d = Platform.shm_create_def case_prod_beta Let_def h1_def [symmetric] fd_def [symmetric] h2_def [symmetric]
    r_def [symmetric] h3_def [symmetric] do_mmap_live
  have l: "live_maps h3 = live_maps h" by (simp add: h3_def h2_def h1_def)
  have l2: "live_maps h2 = live_maps h" by (simp add: h2_def h1_def)
  show ?thesis
  proof (cases "fd < 0 \<or> r \<noteq> 0 \<or> sys_mmap os h3 sz [MAP_SHARED] fd 0 = MAP_FAILED")
    case True
    then show ?thesis by (intro maps_one_null) (auto simp: d l l2)
  next
    case False
    then show ?thesis by (intro maps_one_intro [OF l, of _ _ "[MAP_SHARED]" fd 0]) (auto simp: d l)
  qed
qed

lemma shm_map_chunk_maps: "maps_one os sz h (shm_map_chunk os pl name sz off h)"
proof -
  define fd h2 where "fd = fst (do_open os (get_platform_shm_path pl name) [O_RDWR] mode_0600 h)"
    and "h2 = snd (do_open os (get_platform_shm_path pl name) [O_RDWR] mode_0600 h)"
  note d = shm_map_chunk_def case_prod_beta Let_def fd_def [symmetric] h2_def [symmetric] do_mmap_live
  have l: "live_maps h2 = live_maps h" by (simp add: h2_def)
  show ?thesis
  proof (cases "fd < 0 \<or> sys_mmap os h2 sz [MAP_SHARED] fd off = MAP_FAILED")
    case True
    then show ?thesis by (intro maps_one_null) (auto simp: d l)
  next
    case False
    then show ?thesis by (intro maps_one_intro [OF l, of _ _ "[MAP_SHARED]" fd off]) (auto simp: d l)
  qed
qed

text \<open>Every factory wraps one such helper.\<close>

lemma factory_from_mapping:
  assumes "(r, h') \<in> factories os pl name sz off h"
  shows "\<exists>p. maps_one os sz h (p, h') \<and>
    (case r of None \<Rightarrow> p = nullptr | Some s \<Rightarrow> p \<noteq> nullptr \<and> base_vaddr s = p \<and> size_of s = sz)"
proof -
  have "(\<exists>q. maps_one os sz h q \<and> (r, h') = (if fst q = nullptr then (None, snd q)
      else (Some (f (default_sub_segment\<lparr>base_vaddr := fst q, size_of := sz\<rparr>)), snd q)) \<and>
      base_vaddr (f (default_sub_segment\<lparr>base_vaddr := fst q, size_of := sz\<rparr>)) = fst q \<and>
      size_of (f (default_sub_segment\<lparr>base_vaddr := fst q, size_of := sz\<rparr>)) = sz) \<Longrightarrow> ?thesis" for f
    by (auto split: if_splits option.splits intro: exI [of _ nullptr])
  note c = this
  consider "(r, h') = create_anon os sz h" | "(r, h') = create_shm os pl name sz h"
    | o' where "(r, h') = open_shm_chunk os pl name sz o' h"
    using assms by (auto simp: factories_def open_shm_def)
  then show ?thesis
  proof cases
    case 1
    show ?thesis
      by (rule c [of "\<lambda>s. s\<lparr>is_anon := True, is_creator := True\<rparr>"], rule exI [of _ "mmap_alloc os sz h"])
        (use 1 mmap_alloc_maps in \<open>simp add: create_anon_def case_prod_beta Let_def\<close>)
  next
    case 2
    show ?thesis
      by (rule c [of "\<lambda>s. s\<lparr>is_anon := False, is_creator := True, shm_name := strncpy name (kShmNameMax - 1)\<rparr>"],
          rule exI [of _ "Platform.shm_create os pl name sz h"])
        (use 2 shm_create_maps in \<open>simp add: create_shm_def case_prod_beta Let_def\<close>)
  next
    case 3
    show ?thesis
      by (rule c [of "\<lambda>s. s\<lparr>is_anon := False, is_creator := False, file_offset := o',
            shm_name := strncpy name (kShmNameMax - 1)\<rparr>"], rule exI [of _ "shm_map_chunk os pl name sz o' h"])
        (use 3 shm_map_chunk_maps in \<open>simp add: open_shm_chunk_def case_prod_beta Let_def\<close>)
  qed
qed

lemma factory_maps:
  assumes "mmap_nonnull os" "(r, h') \<in> factories os pl name sz off h"
  shows "case r of None \<Rightarrow> live_maps h' = live_maps h
    | Some s \<Rightarrow> live_maps h' = (base_vaddr s, size_of s) # live_maps h \<and>
        base_vaddr s \<noteq> nullptr \<and> base_vaddr s \<noteq> MAP_FAILED \<and> size_of s = sz"
proof -
  obtain p where p: "maps_one os sz h (p, h')"
    "case r of None \<Rightarrow> p = nullptr | Some s \<Rightarrow> p \<noteq> nullptr \<and> base_vaddr s = p \<and> size_of s = sz"
    using factory_from_mapping [OF assms(2)] by blast
  then show ?thesis using assms(1) by (cases r) (auto simp: maps_one_def mmap_nonnull_def)
qed

lemma destroy_maps:
  assumes "base_vaddr s \<noteq> nullptr" "base_vaddr s \<noteq> MAP_FAILED"
  shows "live_maps (destroy_sub_segment os pl s h) = remove1 (base_vaddr s, size_of s) (live_maps h)"
  using assms
  by (auto simp: destroy_sub_segment_def mmap_free_def shm_destroy_def shm_close_def syscall_defs
      map_event_def Let_def)

text \<open>
  A sub-segment owns its mapping: a factory that fails leaves no mapping behind, one that
  succeeds adds exactly the mapping the descriptor names, and the destructor releases exactly
  that mapping, whatever was mapped before and whichever factory made the descriptor.
\<close>

lemma sub_segment_owns_mapping:
  assumes "mmap_nonnull os" "(r, h') \<in> factories os pl name sz off h"
  shows "case r of
      None \<Rightarrow> live_maps h' = live_maps h
    | Some s \<Rightarrow> live_maps h' = (base_vaddr s, sz) # live_maps h \<and>
        live_maps (destroy_sub_segment os pl s h') = live_maps h"
  using factory_maps [OF assms] by (cases r) (auto simp: destroy_maps)

lemma sub_segment_owns_mapping_witness:
  "\<exists>s h'. mmap_nonnull demo_os \<and>
     (Some s, h') \<in> factories demo_os linux_x86 ''/seg'' 0x100000 0 [] \<and>
     live_maps h' = [(0x10000000, 0x100000)] \<and> live_maps (destroy_sub_segment demo_os linux_x86 s h') = []"
proof -
  obtain s h' where r: "create_anon demo_os 0x100000 [] = (Some s, h')" "base_vaddr s = 0x10000000"
    by (simp add: create_anon_def mmap_alloc_def syscall_defs demo_os_def MAP_FAILED_def Let_def)
  then have f: "(Some s, h') \<in> factories demo_os linux_x86 ''/seg'' 0x100000 0 []"
    unfolding factories_def by (metis insertI1)
  show ?thesis
    using sub_segment_owns_mapping [OF demo_os_nonnull f] f r(2) by (auto simp: live_maps_def)
qed

text \<open>
  The creator of a shared-memory object unlinks it: for names that fit the descriptor, the
  last action of the destructor is to unlink the very path \<^verbatim>\<open>create_shm\<close> created, while a
  descriptor made by opening the object never unlinks anything.
\<close>

lemma creator_unlinks_its_object:
  assumes "mmap_nonnull os" "name \<noteq> []" "length name < kShmNameMax"
  shows "(create_shm os pl name sz h = (Some s, h') \<longrightarrow>
      (\<exists>r. destroy_sub_segment os pl s h' =
        h' @ [Ev_munmap (base_vaddr s) sz, Ev_unlink (get_platform_shm_path pl name) r])) \<and>
    (open_shm_chunk os pl name sz off h = (Some s, h') \<longrightarrow>
      destroy_sub_segment os pl s h' = h' @ [Ev_munmap (base_vaddr s) sz])"
proof (intro conjI impI)
  have nm: "strncpy name (kShmNameMax - Suc 0) = name" using assms(3) by (simp add: strncpy_def kShmNameMax_def)
  assume c: "create_shm os pl name sz h = (Some s, h')"
  then have s: "shm_name s = name" "size_of s = sz" "\<not> is_anon s" "is_creator s"
    by (auto simp: create_shm_def Let_def nm default_sub_segment_def split: if_splits prod.splits)
  have "(Some s, h') \<in> factories os pl name sz off h" using c by (simp add: factories_def)
  then have "base_vaddr s \<noteq> nullptr" "base_vaddr s \<noteq> MAP_FAILED"
    using factory_maps [OF assms(1)] by fastforce+
  with s assms(2) show "\<exists>r. destroy_sub_segment os pl s h' =
      h' @ [Ev_munmap (base_vaddr s) sz, Ev_unlink (get_platform_shm_path pl name) r]"
    by (simp add: destroy_sub_segment_def shm_destroy_def syscall_defs Let_def)
next
  assume c: "open_shm_chunk os pl name sz off h = (Some s, h')"
  then have s: "size_of s = sz" "\<not> is_anon s" "\<not> is_creator s"
    by (auto simp: open_shm_chunk_def Let_def default_sub_segment_def split: if_splits prod.splits)
  have "(Some s, h') \<in> factories os pl name sz off h" using c by (simp add: factories_def)
  then have "base_vaddr s \<noteq> nullptr" "base_vaddr s \<noteq> MAP_FAILED"
    using factory_maps [OF assms(1)] by fastforce+
  with s show "destroy_sub_segment os pl s h' = h' @ [Ev_munmap (base_vaddr s) sz]"
    by (simp add: destroy_sub_segment_def shm_close_def syscall_defs)
qed

lemma creator_unlinks_its_object_witness:
  "\<exists>s h' r. mmap_nonnull demo_os \<and> length ''/seg'' < kShmNameMax \<and>
     create_shm demo_os linux_x86 ''/seg'' 0x100000 [] = (Some s, h') \<and>
     destroy_sub_segment demo_os linux_x86 s h' =
       h' @ [Ev_munmap 0x40000000 0x100000, Ev_unlink ''/dev/shm/seg'' r]"
proof -
  obtain s h' where c: "create_shm demo_os linux_x86 ''/seg'' 0x100000 [] = (Some s, h')"
    and b: "base_vaddr s = 0x40000000"
    by (simp add: create_shm_def Platform.shm_create_def syscall_defs demo_os_def MAP_FAILED_def Let_def)
  have "get_platform_shm_path linux_x86 ''/seg'' = ''/dev/shm/seg''"
    by (simp add: get_platform_shm_path_def is_custom_path_iff linux_x86_def)
  then show ?thesis
    using creator_unlinks_its_object [of demo_os "''/seg''" linux_x86 "0x100000" "[]" s h' 0] c b
    by (simp add: kShmNameMax_def)
qed

text \<open>
  Names of \<^verbatim>\<open>kShmNameMax\<close> characters or more are truncated in the descriptor, so the destructor
  of the creator unlinks the path of the truncated name and the object stays linked.
\<close>

lemma long_name_not_unlinked:
  "let name = replicate 130 CHR ''a''; (s, h') = create_shm demo_os linux_x86 name 0x100000 [] in
   (\<exists>seg. s = Some seg \<and>
     (\<forall>r. Ev_unlink (get_platform_shm_path linux_x86 name) r \<notin>
        set (drop (length h') (destroy_sub_segment demo_os linux_x86 seg h'))))"
proof -
  have p: "get_platform_shm_path linux_x86 (replicate n CHR ''a'') = ''/dev/shm/'' @ replicate n CHR ''a''" for n
    by (cases n) (auto simp: get_platform_shm_path_def is_custom_path_iff linux_x86_def)
  let ?n = "replicate 130 CHR ''a''"
  obtain s h' where c: "create_shm demo_os linux_x86 ?n 0x100000 [] = (Some s, h')"
    and s: "base_vaddr s = 0x40000000" "shm_name s = replicate 127 CHR ''a''" "\<not> is_anon s" "is_creator s"
    by (simp add: create_shm_def Platform.shm_create_def syscall_defs demo_os_def MAP_FAILED_def Let_def
        strncpy_def kShmNameMax_def default_sub_segment_def)
  have "replicate 127 CHR ''a'' \<noteq> ?n" by simp
  then show ?thesis
    unfolding Let_def c
    by (simp add: Let_def destroy_sub_segment_def shm_destroy_def syscall_defs MAP_FAILED_def s p)
qed

end
