(* ===== verification/Segment_Registry.thy ===== *)
theory Segment_Registry
  imports Tls_Cache Sub_Segment
begin

text \<open>
  The process-local registry, \<^verbatim>\<open>include/segmented_interprocess/segment_registry.hpp\<close>. The state
  of a process is the trie of the singleton, the cache of every thread and the heap of
  \<^verbatim>\<open>sub_segment\<close> objects; \<open>None\<close> is the use of a freed descriptor or of a dangling slot.
  Every operation is one atomic step of the calling thread, and threads interleave between
  operations.
\<close>

section \<open>Definitions\<close>

record process =
  trie :: ncrit_trie
  tls :: "nat \<Rightarrow> tls_cache"
  descs :: "u64 \<rightharpoonup> sub_segment"

definition instance_init :: "trie_params \<Rightarrow> process option" where
  "instance_init c =
     do { t \<leftarrow> new_ncrit_trie c; Some \<lparr>trie = t, tls = (\<lambda>_. tls_cache_init), descs = Map.empty\<rparr> }"

definition register_segment :: "trie_params \<Rightarrow> platform \<Rightarrow> nat \<Rightarrow> u64 \<Rightarrow> process \<Rightarrow> process option" where
  "register_segment c pl th seg w =
     do {
       d \<leftarrow> descs w seg;
       (t, es) \<leftarrow> insert_range c pl (trie w) (tls w th) (base_addr pl d) (size_of d) seg;
       (_, es) \<leftarrow> trie_lookup c pl t es (base_addr pl d);
       let es = expand_cache_bounds_top es (base_addr pl d) (size_of d) seg;
       Some (w\<lparr>trie := t, tls := (tls w)(th := es)\<rparr>)
     }"

definition unregister_segment :: "trie_params \<Rightarrow> platform \<Rightarrow> nat \<Rightarrow> u64 \<Rightarrow> process \<Rightarrow> process option" where
  "unregister_segment c pl th seg w =
     do {
       d \<leftarrow> descs w seg;
       (t, es) \<leftarrow> remove_range c pl (trie w) (tls w th) (base_addr pl d) (size_of d);
       let es = invalidate es;
       Some (w\<lparr>trie := t, tls := (tls w)(th := es)\<rparr>)
     }"

definition find_seg :: "trie_params \<Rightarrow> platform \<Rightarrow> nat \<Rightarrow> u64 \<Rightarrow> process \<Rightarrow> (u64 \<times> process) option" where
  "find_seg c pl th addr w =
     do {
       (seg, es) \<leftarrow> trie_lookup c pl (trie w) (tls w th) addr;
       es \<leftarrow> (if seg \<noteq> nullptr
              then do { d \<leftarrow> descs w seg;
                        Some (expand_cache_bounds_top es (base_addr pl d) (size_of d) seg) }
              else Some es);
       Some (seg, w\<lparr>tls := (tls w)(th := es)\<rparr>)
     }"

subsection \<open>Invariant\<close>

text \<open>
  The pages of a descriptor, and what it takes for a descriptor to be registered: exactly its
  pages map to it. In a good state every mapped page belongs to such a descriptor.
\<close>

definition seg_page :: "trie_params \<Rightarrow> platform \<Rightarrow> sub_segment \<Rightarrow> u64 \<Rightarrow> bool" where
  "seg_page c pl d q \<longleftrightarrow> page_in c (page_begin pl (base_addr pl d)) (page_end pl (base_addr pl d) (size_of d)) q"

definition registered :: "trie_params \<Rightarrow> platform \<Rightarrow> process \<Rightarrow> u64 \<Rightarrow> sub_segment \<Rightarrow> bool" where
  "registered c pl w seg d \<longleftrightarrow>
     descs w seg = Some d \<and> seg \<noteq> nullptr \<and> even seg \<and> range_ok pl (base_addr pl d) (size_of d) \<and>
     (\<forall>q. lookup_page c (trie w) q = Some seg \<longleftrightarrow> seg_page c pl d q)"

definition reg_inv :: "trie_params \<Rightarrow> platform \<Rightarrow> process \<Rightarrow> bool" where
  "reg_inv c pl w \<longleftrightarrow>
     trie_ready c (trie w) \<and> (\<forall>th. cache_ok c pl (trie w) (tls w th)) \<and>
     (\<forall>q seg. lookup_page c (trie w) q = Some seg \<longrightarrow> seg \<noteq> nullptr \<longrightarrow> (\<exists>d. registered c pl w seg d))"

text \<open>
  When a descriptor may be registered: it is a live object, no page of it is mapped, and no
  thread's cache still names an older object that had the same address.
\<close>

definition can_register :: "trie_params \<Rightarrow> platform \<Rightarrow> process \<Rightarrow> u64 \<Rightarrow> sub_segment \<Rightarrow> bool" where
  "can_register c pl w seg d \<longleftrightarrow>
     descs w seg = Some d \<and> seg \<noteq> nullptr \<and> even seg \<and> range_ok pl (base_addr pl d) (size_of d) \<and>
     (\<forall>q. seg_page c pl d q \<longrightarrow> lookup_page c (trie w) q = Some nullptr) \<and>
     (\<forall>th. \<forall>e \<in> set (tls w th). e_seg e \<noteq> seg)"

text \<open>The thread's first entry spans the whole segment and its slot holds the segment.\<close>

definition hot :: "platform \<Rightarrow> process \<Rightarrow> nat \<Rightarrow> u64 \<Rightarrow> sub_segment \<Rightarrow> bool" where
  "hot pl w th seg d \<longleftrightarrow>
     e_seg (tls w th ! 0) = seg \<and> e_base (tls w th ! 0) = base_addr pl d \<and>
     e_end (tls w th ! 0) = end_addr pl d \<and> \<not> stale (trie w) (tls w th ! 0)"

text \<open>No entry of the thread has outlived a registration, as when only this thread unregisters.\<close>

definition no_stale :: "process \<Rightarrow> nat \<Rightarrow> bool" where
  "no_stale w th \<longleftrightarrow> (\<forall>e \<in> set (tls w th). e \<noteq> no_entry \<longrightarrow> \<not> stale (trie w) e)"

section \<open>Operations keep the invariant\<close>

lemma registered_page:
  "registered c pl w seg d \<Longrightarrow> in_range (base_addr pl d) (size_of d) a \<Longrightarrow>
   lookup_page c (trie w) (drop_bit (page_shift pl) a) = Some seg"
  unfolding registered_def seg_page_def page_in_def using page_of_in_range by (auto simp: same_page_def)

lemma base_in_range: "range_ok pl b sz \<Longrightarrow> in_range b sz b"
  using range_ok_unat(1) [of pl b sz]
  by (auto simp: in_range_def range_ok_def unat_word_less word_gt_0 unat_gt_0)

lemma cache_ok_other:
  assumes ok: "cache_ok c pl t es"
    and slots: "\<forall>q s. page_slot c t q = Some s \<longrightarrow> page_slot c t' q = Some s"
    and bwd: "\<And>e q. e \<in> set es \<Longrightarrow> e \<noteq> no_entry \<Longrightarrow> lookup_page c t' q = Some (e_seg e) \<Longrightarrow>
      lookup_page c t q = Some (e_seg e)"
    and fwd: "\<And>e p q. e \<in> set es \<Longrightarrow> e \<noteq> no_entry \<Longrightarrow> lookup_page c t' p = Some (e_seg e) \<Longrightarrow>
      lookup_page c t q = Some (e_seg e) \<Longrightarrow> lookup_page c t' q = Some (e_seg e)"
  shows "cache_ok c pl t' es"
  unfolding cache_ok_def
proof (intro conjI ballI)
  fix e assume e: "e \<in> set es"
  have "entry_ok c pl t e" using ok e by (simp add: cache_ok_def)
  then show "entry_ok c pl t' e"
    unfolding entry_ok_def using slots bwd [OF e] fwd [OF e] by metis
qed (use ok in \<open>simp add: cache_ok_def\<close>)

lemma lookup_then_expand:
  assumes t: "trie_ready c t" and ok: "cache_ok c pl t es"
    and all: "\<And>p seg. lookup_page c t p = Some seg \<Longrightarrow> seg \<noteq> nullptr \<Longrightarrow> P seg"
  shows "\<exists>v es'. trie_lookup c pl t es addr = Some (v, es') \<and> cache_ok c pl t es' \<and> (v \<noteq> nullptr \<longrightarrow> P v) \<and>
    (v \<noteq> nullptr \<longrightarrow> e_seg (es' ! 0) = v \<and> \<not> stale t (es' ! 0)) \<and>
    (v \<noteq> nullptr \<longrightarrow> lookup_page c t (drop_bit (page_shift pl) addr) = Some v) \<and>
    ((\<forall>e \<in> set es. covers e addr \<longrightarrow> \<not> stale t e) \<longrightarrow>
      lookup_page c t (drop_bit (page_shift pl) addr) = Some v)"
  using lookup_impl_spec [OF t ok, of addr] all unfolding trie_lookup_def by blast

lemma expand_front:
  assumes "length es = kSize" "e_seg (es ! 0) = seg" "\<not> stale t (es ! 0)"
  shows "hot pl (w\<lparr>trie := t, tls := (tls w)(th := expand_cache_bounds_top es (base_addr pl d) (size_of d) seg)\<rparr>) th seg d"
  using assms
  by (simp add: hot_def expand_cache_bounds_top_def kSize_def end_addr_def stale_def leaf_holds_def)

lemma hot_find:
  assumes inv: "reg_inv c pl w" and hot: "hot pl w th seg d" and d: "descs w seg = Some d" "seg \<noteq> nullptr"
    and a: "contains pl d a"
  shows "\<exists>w'. find_seg c pl th a w = Some (seg, w')"
proof -
  let ?e = "tls w th ! 0"
  have len: "length (tls w th) = kSize" and t: "trie_ready c (trie w)"
    using inv by (auto simp: reg_inv_def cache_ok_def)
  then have "?e \<in> set (tls w th)" by (simp add: kSize_def)
  then have "entry_ok c pl (trie w) ?e" using inv unfolding reg_inv_def cache_ok_def by blast
  moreover have "?e \<noteq> no_entry" using hot d(2) by (auto simp: hot_def no_entry_def)
  ultimately obtain b where b: "leaf_holds (nodes (trie w)) ?e (e_seg ?e OR kLeafTag) = Some b"
    using leaf_holds_entry [OF t] by blast
  then have "b" using hot by (cases b) (auto simp: hot_def stale_def)
  moreover have "covers ?e a" using hot a by (simp add: hot_def covers_def contains_def)
  ultimately have "trie_lookup c pl (trie w) (tls w th) a = Some (seg, tls w th)"
    using front_hit [OF len, of a "trie w" c pl] b hot by (simp add: hot_def)
  then show ?thesis using d by (simp add: find_seg_def)
qed

text \<open>\<^verbatim>\<open>find\<close>: total on good states, sound, and exact when no stale entry covers the address.\<close>

lemma find_spec:
  assumes inv: "reg_inv c pl w"
  shows "\<exists>seg w'. find_seg c pl th addr w = Some (seg, w') \<and> reg_inv c pl w' \<and>
    trie w' = trie w \<and> descs w' = descs w \<and> (\<forall>u. u \<noteq> th \<longrightarrow> tls w' u = tls w u) \<and>
    (seg \<noteq> nullptr \<longrightarrow> lookup_page c (trie w) (drop_bit (page_shift pl) addr) = Some seg \<and>
      (\<exists>d. registered c pl w seg d \<and> hot pl w' th seg d)) \<and>
    ((\<forall>e \<in> set (tls w th). covers e addr \<longrightarrow> \<not> stale (trie w) e) \<longrightarrow>
      lookup_page c (trie w) (drop_bit (page_shift pl) addr) = Some seg)"
proof -
  have t: "trie_ready c (trie w)" and ok: "cache_ok c pl (trie w) (tls w th)"
    and own: "\<And>q seg. lookup_page c (trie w) q = Some seg \<Longrightarrow> seg \<noteq> nullptr \<Longrightarrow> \<exists>d. registered c pl w seg d"
    using inv by (auto simp: reg_inv_def)
  obtain v es where l: "trie_lookup c pl (trie w) (tls w th) addr = Some (v, es)"
    and es: "cache_ok c pl (trie w) es" and v: "v \<noteq> nullptr \<longrightarrow> (\<exists>d. registered c pl w v d)"
    and val: "v \<noteq> nullptr \<longrightarrow> lookup_page c (trie w) (drop_bit (page_shift pl) addr) = Some v"
    and fr: "v \<noteq> nullptr \<longrightarrow> e_seg (es ! 0) = v \<and> \<not> stale (trie w) (es ! 0)"
    and ex: "(\<forall>e \<in> set (tls w th). covers e addr \<longrightarrow> \<not> stale (trie w) e) \<longrightarrow>
      lookup_page c (trie w) (drop_bit (page_shift pl) addr) = Some v"
    using lookup_then_expand [OF t ok, of "\<lambda>v. \<exists>d. registered c pl w v d" addr] own by metis
  have frame: "reg_inv c pl (w\<lparr>tls := (tls w)(th := es')\<rparr>)" if "cache_ok c pl (trie w) es'" for es'
    using inv that by (simp add: reg_inv_def registered_def)
  show ?thesis
  proof (cases "v = nullptr")
    case True
    then show ?thesis using l frame [OF es] ex by (auto simp: find_seg_def)
  next
    case False
    then obtain d where d: "registered c pl w v d" using v by blast
    have "cache_ok c pl (trie w) (expand_cache_bounds_top es (base_addr pl d) (size_of d) v)"
      using cache_ok_expand [OF es _ False] registered_page [OF d] by blast
    moreover have "hot pl (w\<lparr>tls := (tls w)(th := expand_cache_bounds_top es (base_addr pl d) (size_of d) v)\<rparr>) th v d"
      using expand_front [of es v "trie w" pl w th d] es fr False by (simp add: cache_ok_def)
    ultimately show ?thesis
      using l frame False d val ex by (auto simp: find_seg_def registered_def)
  qed
qed

lemma find_exact:
  assumes inv: "reg_inv c pl w" and ns: "no_stale w th"
  shows "\<exists>v w'. find_seg c pl th addr w = Some (v, w') \<and> reg_inv c pl w' \<and> no_stale w' th \<and>
    trie w' = trie w \<and> descs w' = descs w \<and>
    lookup_page c (trie w) (drop_bit (page_shift pl) addr) = Some v \<and>
    (v \<noteq> nullptr \<longrightarrow> (\<exists>d. registered c pl w v d))"
proof -
  obtain v w' where f: "find_seg c pl th addr w = Some (v, w')" "reg_inv c pl w'" "trie w' = trie w" "descs w' = descs w"
    and v: "v \<noteq> nullptr \<longrightarrow> (\<exists>d. registered c pl w v d \<and> hot pl w' th v d)"
    and ex: "(\<forall>e \<in> set (tls w th). covers e addr \<longrightarrow> \<not> stale (trie w) e) \<longrightarrow>
      lookup_page c (trie w) (drop_bit (page_shift pl) addr) = Some v"
    using find_spec [OF inv, of th addr] by blast
  have lk: "lookup_page c (trie w) (drop_bit (page_shift pl) addr) = Some v"
    using ex ns not_covers_no_entry unfolding no_stale_def by metis
  have len: "length (tls w th) = kSize" using inv by (auto simp: reg_inv_def cache_ok_def)
  obtain es where l: "trie_lookup c pl (trie w) (tls w th) addr = Some (v, es)"
    and r: "(if v \<noteq> nullptr then do { d \<leftarrow> descs w v; Some (expand_cache_bounds_top es (base_addr pl d) (size_of d) v) }
       else Some es) = Some (tls w' th)"
    using f(1) unfolding find_seg_def by (auto split: bind_splits)
  have es: "v = nullptr \<longrightarrow> tls w' th = es"
      "v \<noteq> nullptr \<longrightarrow> (\<exists>b sz. tls w' th = expand_cache_bounds_top es b sz v)"
    using r by (auto split: if_splits bind_splits) metis
  note le = lookup_entries [OF l len]
  have "\<not> stale (trie w) e" if e: "e \<in> set (tls w' th)" "e \<noteq> no_entry" for e
  proof (cases "v = nullptr")
    case True
    then show ?thesis using e es(1) le ns by (auto simp: no_stale_def)
  next
    case False
    then obtain b sz where x: "tls w' th = expand_cache_bounds_top es b sz v" using es(2) by blast
    have "es \<noteq> []" using le by (auto simp: kSize_def)
    then have "tl (tls w' th) = tl es" "tls w' th \<noteq> []"
      by (cases es; simp add: x expand_cache_bounds_top_def)+
    then have "e = tls w' th ! 0 \<or> e \<in> set (tl es)"
      using e(1) by (cases "tls w' th") auto
    moreover have "\<not> stale (trie w) (tls w' th ! 0)" using v False f(3) by (auto simp: hot_def)
    ultimately show ?thesis using le e(2) ns by (auto simp: no_stale_def)
  qed
  then have "no_stale w' th" using f(3) by (simp add: no_stale_def)
  then show ?thesis using f lk v by blast
qed

text \<open>What the trie writes of a registration mean for the directory and for the caches.\<close>

lemma registered_insert:
  assumes inv: "reg_inv c pl w" and can: "can_register c pl w seg d" and ds: "descs w' = descs w"
    and lk: "\<And>q. lookup_page c (trie w') q = (if seg_page c pl d q then Some seg else lookup_page c (trie w) q)"
  shows "registered c pl w' seg d"
    and "lookup_page c (trie w') q = Some v \<Longrightarrow> v \<noteq> nullptr \<Longrightarrow> \<exists>d. registered c pl w' v d"
proof -
  have own: "\<And>q v. lookup_page c (trie w) q = Some v \<Longrightarrow> v \<noteq> nullptr \<Longrightarrow> \<exists>d. registered c pl w v d"
    using inv by (auto simp: reg_inv_def)
  have d: "descs w seg = Some d" "seg \<noteq> 0" "even seg" "range_ok pl (base_addr pl d) (size_of d)"
    and free: "\<And>q. seg_page c pl d q \<Longrightarrow> lookup_page c (trie w) q = Some 0" using can by (auto simp: can_register_def)
  have "lookup_page c (trie w) q \<noteq> Some seg" for q
  proof
    assume q: "lookup_page c (trie w) q = Some seg"
    then have "registered c pl w seg d" using own [OF q d(2)] d(1) by (auto simp: registered_def)
    then have "seg_page c pl d q" using q by (simp add: registered_def)
    with free [of q] q d(2) show False by simp
  qed
  then show reg: "registered c pl w' seg d" using ds d lk by (auto simp: registered_def)
  show "\<exists>d. registered c pl w' v d" if a: "lookup_page c (trie w') q = Some v" "v \<noteq> nullptr"
  proof (cases "v = seg")
    case False
    then have "lookup_page c (trie w) q = Some v" using a(1) lk by (auto split: if_splits)
    then obtain d' where "registered c pl w v d'" using own a(2) by blast
    moreover have "lookup_page c (trie w') p = Some v \<longleftrightarrow> lookup_page c (trie w) p = Some v" for p
      using lk [of p] free [of p] False a(2) by auto
    ultimately have "registered c pl w' v d'" using ds by (simp add: registered_def)
    then show ?thesis by blast
  qed (use reg in blast)
qed

lemma caches_insert:
  assumes inv: "reg_inv c pl w" and can: "can_register c pl w seg d"
    and slots: "\<forall>q s. page_slot c (trie w) q = Some s \<longrightarrow> page_slot c t' q = Some s"
    and lk: "\<And>q. lookup_page c t' q = (if seg_page c pl d q then Some seg else lookup_page c (trie w) q)"
  shows "cache_ok c pl t' (tls w u)"
proof (rule cache_ok_other [OF _ slots])
  have free: "\<And>q. seg_page c pl d q \<Longrightarrow> lookup_page c (trie w) q = Some 0"
    and fresh: "\<And>th e. e \<in> set (tls w th) \<Longrightarrow> e_seg e \<noteq> seg" using can by (auto simp: can_register_def)
  show ok: "cache_ok c pl (trie w) (tls w u)" using inv by (simp add: reg_inv_def)
  fix e p q assume e: "e \<in> set (tls w u)" "e \<noteq> no_entry"
  then have nz: "e_seg e \<noteq> 0" using ok by (auto simp: cache_ok_def entry_ok_def)
  show "lookup_page c (trie w) q = Some (e_seg e)" if "lookup_page c t' q = Some (e_seg e)"
    using that lk [of q] fresh [OF e(1)] by (auto split: if_splits)
  show "lookup_page c t' q = Some (e_seg e)" if "lookup_page c (trie w) q = Some (e_seg e)"
    using that lk [of q] free [of q] nz by auto
qed

lemma register_spec:
  assumes inv: "reg_inv c pl w" and can: "can_register c pl w seg d"
  shows "\<exists>w'. register_segment c pl th seg w = Some w' \<and> reg_inv c pl w' \<and> registered c pl w' seg d \<and>
    descs w' = descs w \<and> hot pl w' th seg d \<and>
    (\<forall>q. lookup_page c (trie w') q = (if seg_page c pl d q then Some seg else lookup_page c (trie w) q)) \<and>
    (\<forall>u. u \<noteq> th \<longrightarrow> tls w' u = tls w u) \<and>
    (\<forall>q s. page_slot c (trie w) q = Some s \<longrightarrow> page_slot c (trie w') q = Some s)"
proof -
  have t: "trie_ready c (trie w)" using inv by (simp add: reg_inv_def)
  have d: "descs w seg = Some d" "seg \<noteq> 0" "even seg" "range_ok pl (base_addr pl d) (size_of d)"
    using can by (auto simp: can_register_def)
  obtain t' where t': "insert_range c pl (trie w) (tls w th) (base_addr pl d) (size_of d) seg =
      Some (t', invalidate (tls w th))" "trie_ready c t'"
    and slots: "\<forall>q s. page_slot c (trie w) q = Some s \<longrightarrow> page_slot c t' q = Some s"
    and lk: "\<And>q. lookup_page c t' q = (if seg_page c pl d q then Some seg else lookup_page c (trie w) q)"
    using insert_range_spec [OF t d(3), of pl "tls w th" "base_addr pl d" "size_of d"]
    unfolding seg_page_def by blast
  have len: "length (tls w th) = kSize" using inv by (auto simp: reg_inv_def cache_ok_def)
  obtain v es where l: "trie_lookup c pl t' (invalidate (tls w th)) (base_addr pl d) = Some (v, es)"
    and es: "cache_ok c pl t' es" and fr: "v \<noteq> nullptr \<longrightarrow> e_seg (es ! 0) = v \<and> \<not> stale t' (es ! 0)"
    and ex: "(\<forall>e \<in> set (invalidate (tls w th)). covers e (base_addr pl d) \<longrightarrow> \<not> stale t' e) \<longrightarrow>
      lookup_page c t' (drop_bit (page_shift pl) (base_addr pl d)) = Some v"
    using lookup_then_expand [OF t'(2) cache_ok_invalidate [OF len], of "\<lambda>_. True" pl "base_addr pl d"] by blast
  let ?w = "w\<lparr>trie := t', tls := (tls w)(th := expand_cache_bounds_top es (base_addr pl d) (size_of d) seg)\<rparr>"
  have rw: "registered c pl ?w seg d" and own: "\<And>q v. lookup_page c (trie ?w) q = Some v \<Longrightarrow> v \<noteq> nullptr \<Longrightarrow>
      \<exists>d. registered c pl ?w v d"
    using registered_insert [OF inv can, of ?w] lk by simp_all
  have "cache_ok c pl t' (expand_cache_bounds_top es (base_addr pl d) (size_of d) seg)"
    using cache_ok_expand [OF es _ d(2)] registered_page [OF rw] by simp
  then have "reg_inv c pl ?w"
    using caches_insert [OF inv can slots lk] own t'(2) by (auto simp: reg_inv_def)
  moreover have "v = seg"
    using ex registered_page [OF rw base_in_range [OF d(4)]] by (auto simp: invalidate_def)
  then have "hot pl ?w th seg d" using expand_front [of es seg t' pl w th d] es fr d(2) by (simp add: cache_ok_def)
  moreover have "register_segment c pl th seg w = Some ?w"
    using d(1) t'(1) l by (simp add: register_segment_def)
  ultimately show ?thesis using rw lk slots by auto
qed

lemma register_cache:
  assumes inv: "reg_inv c pl w" and can: "can_register c pl w seg d" and run: "register_segment c pl th seg w = Some w'"
  shows "no_stale w' th" "\<forall>e \<in> set (tls w' th). e = no_entry \<or> e_seg e = seg"
proof -
  have hot: "hot pl w' th seg d" using register_spec [OF inv can, of th] run by auto
  have d: "descs w seg = Some d" using can by (simp add: can_register_def)
  have len: "length (tls w th) = kSize" using inv by (auto simp: reg_inv_def cache_ok_def)
  obtain t v es where l: "trie_lookup c pl t (invalidate (tls w th)) (base_addr pl d) = Some (v, es)"
    and w': "tls w' th = expand_cache_bounds_top es (base_addr pl d) (size_of d) seg"
    using run d by (auto simp: register_segment_def insert_range_def Let_def split: bind_splits)
  have i: "length (invalidate (tls w th)) = kSize" "set (invalidate (tls w th)) = {no_entry}"
    using len by (cases "tls w th"; auto simp: invalidate_def kSize_def)+
  note le = lookup_entries [OF l i(1)]
  have "tl (tls w' th) = tl es" "tls w' th \<noteq> []"
    using le by (cases es; simp add: w' expand_cache_bounds_top_def kSize_def)+
  then have cs: "e = tls w' th ! 0 \<or> e = no_entry" if "e \<in> set (tls w' th)" for e
    using that le i(2) by (cases "tls w' th") auto
  then show "\<forall>e \<in> set (tls w' th). e = no_entry \<or> e_seg e = seg" using hot by (auto simp: hot_def)
  show "no_stale w' th" using cs hot by (auto simp: no_stale_def hot_def)
qed

text \<open>Registration makes no entry of any thread stale.\<close>

lemma register_no_stale:
  assumes inv: "reg_inv c pl w" and can: "can_register c pl w seg d" and run: "register_segment c pl th seg w = Some w'"
    and ns: "no_stale w u"
  shows "no_stale w' u"
proof (cases "u = th")
  case True
  then show ?thesis using register_cache(1) [OF inv can run] by simp
next
  case False
  have r: "reg_inv c pl w'" "tls w' u = tls w u"
    and lk: "\<forall>q. lookup_page c (trie w') q = (if seg_page c pl d q then Some seg else lookup_page c (trie w) q)"
    and sl: "\<forall>q s. page_slot c (trie w) q = Some s \<longrightarrow> page_slot c (trie w') q = Some s"
    using register_spec [OF inv can, of th] run False by auto
  have t: "trie_ready c (trie w)" "trie_ready c (trie w')" using inv r(1) by (simp_all add: reg_inv_def)
  show ?thesis
    unfolding no_stale_def
  proof (intro ballI impI)
    fix e assume e: "e \<in> set (tls w' u)" "e \<noteq> no_entry"
    then have "entry_ok c pl (trie w) e" using inv r(2) by (auto simp: reg_inv_def cache_ok_def)
    then obtain p s where p: "e_leaf e = Some s" "page_slot c (trie w) p = Some s" "e_seg e \<noteq> 0" "even (e_seg e)"
      using e(2) by (auto simp: entry_ok_def)
    have "\<not> stale (trie w) e" using ns e r(2) by (simp add: no_stale_def)
    then have l: "lookup_page c (trie w) p = Some (e_seg e)" using stale_iff [OF t(1) p(2,1,3,4)] by simp
    then have "\<not> seg_page c pl d p" using can p(3) by (auto simp: can_register_def)
    then have "lookup_page c (trie w') p = Some (e_seg e)" using lk l by simp
    then show "\<not> stale (trie w') e" using stale_iff [OF t(2) _ p(1,3,4), of p] sl p(2) by metis
  qed
qed

lemma unregister_spec:
  assumes inv: "reg_inv c pl w" and reg: "registered c pl w seg d"
  shows "\<exists>w'. unregister_segment c pl th seg w = Some w' \<and> reg_inv c pl w' \<and> descs w' = descs w \<and>
    (\<forall>u. u \<noteq> th \<longrightarrow> tls w' u = tls w u) \<and>
    (\<forall>q. lookup_page c (trie w') q = (if seg_page c pl d q then Some nullptr else lookup_page c (trie w) q)) \<and>
    (\<forall>q s. page_slot c (trie w) q = Some s \<longrightarrow> page_slot c (trie w') q = Some s)"
proof -
  have t: "trie_ready c (trie w)" and own: "\<And>q v. lookup_page c (trie w) q = Some v \<Longrightarrow> v \<noteq> nullptr \<Longrightarrow>
      \<exists>d. registered c pl w v d" using inv by (auto simp: reg_inv_def)
  have d: "descs w seg = Some d" "seg \<noteq> 0"
    and pages: "\<And>q. lookup_page c (trie w) q = Some seg \<longleftrightarrow> seg_page c pl d q"
    using reg by (auto simp: registered_def)
  obtain t' where t': "remove_range c pl (trie w) (tls w th) (base_addr pl d) (size_of d) =
      Some (t', invalidate (tls w th))" "trie_ready c t'"
    and slots: "\<forall>q s. page_slot c (trie w) q = Some s \<longrightarrow> page_slot c t' q = Some s"
    and lk: "\<And>q. lookup_page c t' q = (if seg_page c pl d q then Some 0 else lookup_page c (trie w) q)"
    using remove_range_spec [OF t, of pl "tls w th" "base_addr pl d" "size_of d"]
    unfolding seg_page_def by blast
  have same: "lookup_page c t' q = Some v \<longleftrightarrow> lookup_page c (trie w) q = Some v \<and> v \<noteq> seg" if "v \<noteq> 0" for q v
    using lk [of q] pages [of q] that d(2) by auto
  let ?w = "w\<lparr>trie := t', tls := (tls w)(th := invalidate (invalidate (tls w th)))\<rparr>"
  have own': "\<exists>d. registered c pl ?w v d" if a: "lookup_page c t' q = Some v" "v \<noteq> 0" for q v
  proof -
    have v: "lookup_page c (trie w) q = Some v" "v \<noteq> seg" using a same by auto
    then obtain d' where "registered c pl w v d'" using own a(2) by blast
    then have "registered c pl ?w v d'" using same [OF a(2)] v(2) by (simp add: registered_def)
    then show ?thesis by blast
  qed
  have others: "cache_ok c pl t' (tls w u)" for u
  proof (rule cache_ok_other [OF _ slots])
    show ok: "cache_ok c pl (trie w) (tls w u)" using inv by (simp add: reg_inv_def)
    fix e p q assume e: "e \<in> set (tls w u)" "e \<noteq> no_entry"
    then have nz: "e_seg e \<noteq> 0" using ok by (auto simp: cache_ok_def entry_ok_def)
    show "lookup_page c (trie w) q = Some (e_seg e)" if "lookup_page c t' q = Some (e_seg e)"
      using that same [OF nz] by simp
    show "lookup_page c t' q = Some (e_seg e)"
      if "lookup_page c t' p = Some (e_seg e)" "lookup_page c (trie w) q = Some (e_seg e)"
      using that same [OF nz] by simp
  qed
  have "length (tls w th) = kSize" using inv by (auto simp: reg_inv_def cache_ok_def)
  then have "reg_inv c pl ?w" using others own' t'(2) by (auto simp: reg_inv_def)
  moreover have "unregister_segment c pl th seg w = Some ?w"
    using d(1) t'(1) by (simp add: unregister_segment_def)
  ultimately show ?thesis using lk slots by auto
qed

text \<open>Descriptors come and go while no page maps to them; their other fields may change.\<close>

lemma reg_inv_descs:
  assumes "reg_inv c pl w"
    and "\<And>d. registered c pl w seg d \<Longrightarrow>
      \<exists>d'. x = Some d' \<and> base_addr pl d' = base_addr pl d \<and> size_of d' = size_of d"
  shows "reg_inv c pl (w\<lparr>descs := (descs w)(seg := x)\<rparr>)"
proof -
  have "\<exists>d. registered c pl (w\<lparr>descs := (descs w)(seg := x)\<rparr>) v d" if "registered c pl w v d" for v d
    using that assms(2) [of d] by (cases "v = seg") (auto simp: registered_def seg_page_def)
  then show ?thesis using assms(1) unfolding reg_inv_def by fastforce
qed

lemma unmapped_not_registered:
  assumes "\<And>q. lookup_page c (trie w) q \<noteq> Some seg"
  shows "\<not> registered c pl w seg d"
proof
  assume r: "registered c pl w seg d"
  then have "in_range (base_addr pl d) (size_of d) (base_addr pl d)"
    using base_in_range by (auto simp: registered_def)
  with registered_page [OF r] assms show False by blast
qed

lemma init_spec:
  assumes "instance_init c = Some w" "params_ok c" "alloc_ok c" "alloc_total c"
  shows "reg_inv c pl w \<and> (\<forall>q. lookup_page c (trie w) q = Some nullptr)"
proof -
  obtain t where t: "new_ncrit_trie c = Some t" "w = \<lparr>trie = t, tls = (\<lambda>_. tls_cache_init), descs = Map.empty\<rparr>"
    using assms(1) by (auto simp: instance_init_def split: bind_splits)
  have L: "0 < Levels c" using assms(2) by (simp add: params_ok_def)
  have wf: "trie_wf c t" and z: "\<forall>q. page_val c t q = 0" using new_trie_spec [OF t(1) L] by auto
  have lk: "lookup_page c t q = Some 0" for q by (simp add: lookup_page_spec [OF wf L] z)
  show ?thesis using wf assms(2-4) lk by (simp add: t(2) reg_inv_def trie_ready_def)
qed

section \<open>The registry as a state machine\<close>

text \<open>
  Any thread may create and delete descriptors, register and unregister them and look
  addresses up, in any order that respects the lifetimes: only unmapped, uncached descriptors
  are registered, only registered ones are unregistered, only unmapped ones are deleted.
\<close>

definition reg_init :: "trie_params \<Rightarrow> process \<Rightarrow> bool" where
  "reg_init c w \<longleftrightarrow> instance_init c = Some w \<and> params_ok c \<and> alloc_ok c \<and> alloc_total c"

inductive reg_step :: "trie_params \<Rightarrow> platform \<Rightarrow> process \<Rightarrow> process \<Rightarrow> bool" for c pl where
  new_desc [step_intros]:
    "descs w seg = None \<Longrightarrow> reg_step c pl w (w\<lparr>descs := (descs w)(seg \<mapsto> d)\<rparr>)"
| register [step_intros]:
    "can_register c pl w seg d \<Longrightarrow> register_segment c pl th seg w = Some w' \<Longrightarrow> reg_step c pl w w'"
| unregister [step_intros]:
    "registered c pl w seg d \<Longrightarrow> unregister_segment c pl th seg w = Some w' \<Longrightarrow> reg_step c pl w w'"
| delete_desc [step_intros]:
    "(\<And>q. lookup_page c (trie w) q \<noteq> Some seg) \<Longrightarrow> reg_step c pl w (w\<lparr>descs := (descs w)(seg := None)\<rparr>)"
| find [step_intros]:
    "find_seg c pl th addr w = Some (seg, w') \<Longrightarrow> reg_step c pl w w'"

lemma reg_step_inv:
  assumes "reg_inv c pl w" "reg_step c pl w w'"
  shows "reg_inv c pl w'"
  using assms(2)
proof cases
  case (new_desc seg d)
  then show ?thesis using reg_inv_descs [OF assms(1), of seg "Some d"] by (simp add: registered_def)
next
  case (register seg d th)
  then show ?thesis using register_spec [OF assms(1)] by (metis option.inject)
next
  case (unregister seg d th)
  then show ?thesis using unregister_spec [OF assms(1)] by (metis option.inject)
next
  case (delete_desc seg)
  then show ?thesis using reg_inv_descs [OF assms(1), of seg None] unmapped_not_registered [of c w seg] by simp
next
  case (find th addr seg)
  then show ?thesis using find_spec [OF assms(1), of th addr] by auto
qed

interpretation reg: stepper "reg_init c" "reg_step c pl" "reg_inv c pl" for c pl
proof
  show "reg_inv c pl w" if "reg_init c w" for w
    using that init_spec by (auto simp: reg_init_def)
  show "reg_inv c pl w'" if "reg_inv c pl w" "reg_step c pl w w'" for w w'
    using that by (rule reg_step_inv)
qed

subsection \<open>Any calls\<close>

text \<open>
  The same without the restrictions on when a descriptor is registered or unregistered and without
  any promise of \<^verbatim>\<open>new\<close>: every live descriptor, at whatever address, may be registered and
  unregistered at any time. One rule is left: a descriptor is deleted when no page maps to it.
\<close>

inductive reg_call :: "trie_params \<Rightarrow> platform \<Rightarrow> process \<Rightarrow> process \<Rightarrow> bool" for c pl where
  call_new [step_intros]:
    "descs w seg = None \<Longrightarrow> reg_call c pl w (w\<lparr>descs := (descs w)(seg \<mapsto> d)\<rparr>)"
| call_register [step_intros]:
    "descs w seg = Some d \<Longrightarrow> seg \<noteq> nullptr \<Longrightarrow> even seg \<Longrightarrow> register_segment c pl th seg w = Some w' \<Longrightarrow>
     reg_call c pl w w'"
| call_unregister [step_intros]:
    "descs w seg = Some d \<Longrightarrow> unregister_segment c pl th seg w = Some w' \<Longrightarrow> reg_call c pl w w'"
| call_delete [step_intros]:
    "(\<And>q. lookup_page c (trie w) q \<noteq> Some seg) \<Longrightarrow> reg_call c pl w (w\<lparr>descs := (descs w)(seg := None)\<rparr>)"
| call_find [step_intros]:
    "find_seg c pl th addr w = Some (seg, w') \<Longrightarrow> reg_call c pl w w'"

definition call_inv :: "trie_params \<Rightarrow> platform \<Rightarrow> process \<Rightarrow> bool" where
  "call_inv c pl w \<longleftrightarrow>
     trie_wf c (trie w) \<and> params_ok c \<and> alloc_ok c \<and> (\<forall>th. cache_slots c (trie w) (tls w th)) \<and>
     (\<forall>q seg. lookup_page c (trie w) q = Some seg \<longrightarrow> seg \<noteq> nullptr \<longrightarrow>
        (\<exists>d. descs w seg = Some d \<and> seg_page c pl d q))"

lemma find_safe:
  assumes inv: "call_inv c pl w"
  shows "\<exists>seg w'. find_seg c pl th addr w = Some (seg, w') \<and> call_inv c pl w' \<and>
    (seg = nullptr \<or> (\<exists>d q. descs w seg = Some d \<and> lookup_page c (trie w) q = Some seg \<and> seg_page c pl d q)) \<and>
    ((\<forall>e \<in> set (tls w th). \<not> covers e addr) \<longrightarrow>
      lookup_page c (trie w) (drop_bit (page_shift pl) addr) = Some seg)"
proof -
  have wf: "trie_wf c (trie w)" "0 < Levels c" and ok: "cache_slots c (trie w) (tls w th)"
    and own: "\<And>q seg. lookup_page c (trie w) q = Some seg \<Longrightarrow> seg \<noteq> nullptr \<Longrightarrow> \<exists>d. descs w seg = Some d \<and> seg_page c pl d q"
    using inv by (auto simp: call_inv_def params_ok_def)
  obtain v es where l: "trie_lookup c pl (trie w) (tls w th) addr = Some (v, es)" "cache_slots c (trie w) es"
    "v \<noteq> nullptr \<longrightarrow> (\<exists>q. lookup_page c (trie w) q = Some v)"
    "(\<forall>e \<in> set (tls w th). \<not> covers e addr) \<longrightarrow> lookup_page c (trie w) (drop_bit (page_shift pl) addr) = Some v"
    using lookup_safe [OF wf ok, of pl addr] by blast
  have keep: "call_inv c pl (w\<lparr>tls := (tls w)(th := es')\<rparr>)" if "cache_slots c (trie w) es'" for es'
    using inv that by (simp add: call_inv_def)
  show ?thesis
  proof (cases "v = nullptr")
    case True
    then show ?thesis using l keep by (simp add: find_seg_def)
  next
    case False
    then obtain q d where d: "lookup_page c (trie w) q = Some v" "descs w v = Some d" "seg_page c pl d q"
      using l(3) own by blast
    then have "find_seg c pl th addr w = Some (v, w\<lparr>tls := (tls w)(th :=
        expand_cache_bounds_top es (base_addr pl d) (size_of d) v)\<rparr>)"
      using l(1) False by (simp add: find_seg_def)
    then show ?thesis using keep [OF cache_slots_expand [OF l(2) False]] d l(4) by blast
  qed
qed

lemma register_safe:
  assumes inv: "call_inv c pl w" and d: "descs w seg = Some d" "seg \<noteq> nullptr" "even seg"
  shows "\<exists>w'. register_segment c pl th seg w = Some w' \<and> call_inv c pl w'"
proof -
  have wf: "trie_wf c (trie w)" "params_ok c" "alloc_ok c" "0 < Levels c" and len: "length (tls w th) = kSize"
    using inv by (auto simp: call_inv_def params_ok_def cache_slots_def)
  obtain t' where t': "insert_range c pl (trie w) (tls w th) (base_addr pl d) (size_of d) seg =
      Some (t', invalidate (tls w th))" "trie_wf c t'"
    and slots: "\<forall>q s. page_slot c (trie w) q = Some s \<longrightarrow> page_slot c t' q = Some s"
    and lk: "\<And>q. lookup_page c t' q = lookup_page c (trie w) q \<or> seg_page c pl d q \<and> lookup_page c t' q = Some seg"
    using insert_range_effect [OF wf(1-3) d(3), of pl "tls w th" "base_addr pl d" "size_of d"]
    unfolding seg_page_def by blast
  obtain v es where l: "trie_lookup c pl t' (invalidate (tls w th)) (base_addr pl d) = Some (v, es)"
    and es: "cache_slots c t' es"
    using lookup_safe [OF t'(2) wf(4) cache_slots_invalidate [OF len], of pl "base_addr pl d"] by blast
  let ?w = "w\<lparr>trie := t', tls := (tls w)(th := expand_cache_bounds_top es (base_addr pl d) (size_of d) seg)\<rparr>"
  have "\<exists>d. descs w v = Some d \<and> seg_page c pl d q" if "lookup_page c t' q = Some v" "v \<noteq> nullptr" for q v
    using that lk [of q] d(1) inv by (auto simp: call_inv_def)
  then have "call_inv c pl ?w"
    using inv t'(2) wf cache_slots_expand [OF es d(2)] cache_slots_keep [OF _ slots] by (simp add: call_inv_def)
  moreover have "register_segment c pl th seg w = Some ?w" using d(1) t'(1) l by (simp add: register_segment_def)
  ultimately show ?thesis by blast
qed

lemma unregister_safe:
  assumes inv: "call_inv c pl w" and d: "descs w seg = Some d"
  shows "\<exists>w'. unregister_segment c pl th seg w = Some w' \<and> call_inv c pl w'"
proof -
  have wf: "trie_wf c (trie w)" "0 < Levels c" and len: "length (tls w th) = kSize"
    using inv by (auto simp: call_inv_def params_ok_def cache_slots_def)
  obtain t' where t': "remove_range c pl (trie w) (tls w th) (base_addr pl d) (size_of d) =
      Some (t', invalidate (tls w th))" "trie_wf c t'"
    and slots: "\<forall>q s. page_slot c (trie w) q = Some s \<longrightarrow> page_slot c t' q = Some s"
    and lk: "\<And>q. lookup_page c t' q = (if seg_page c pl d q then Some 0 else lookup_page c (trie w) q)"
    using remove_range_effect [OF wf, of pl "tls w th" "base_addr pl d" "size_of d"] unfolding seg_page_def by blast
  let ?w = "w\<lparr>trie := t', tls := (tls w)(th := invalidate (invalidate (tls w th)))\<rparr>"
  have "\<exists>d. descs w v = Some d \<and> seg_page c pl d q" if "lookup_page c t' q = Some v" "v \<noteq> nullptr" for q v
    using that lk [of q] inv by (auto simp: call_inv_def split: if_splits)
  then have "call_inv c pl ?w"
    using inv t'(2) len cache_slots_keep [OF _ slots] by (simp add: call_inv_def)
  moreover have "unregister_segment c pl th seg w = Some ?w" using d t'(1) by (simp add: unregister_segment_def)
  ultimately show ?thesis by blast
qed

interpretation calls: stepper "\<lambda>w. instance_init c = Some w \<and> params_ok c \<and> alloc_ok c" "reg_call c pl" "call_inv c pl"
  for c pl
proof
  fix w assume a: "instance_init c = Some w \<and> params_ok c \<and> alloc_ok c"
  then obtain t where t: "new_ncrit_trie c = Some t" "w = \<lparr>trie = t, tls = (\<lambda>_. tls_cache_init), descs = Map.empty\<rparr>"
    by (auto simp: instance_init_def split: bind_splits)
  have L: "0 < Levels c" using a by (simp add: params_ok_def)
  have wf: "trie_wf c t" and z: "\<forall>q. page_val c t q = 0" using new_trie_spec [OF t(1) L] by auto
  show "call_inv c pl w" using a wf z lookup_page_spec [OF wf L] by (simp add: t(2) call_inv_def)
next
  fix w w' assume inv: "call_inv c pl w" and st: "reg_call c pl w w'"
  from st show "call_inv c pl w'"
  proof cases
    case (call_new seg d)
    then show ?thesis using inv by (fastforce simp: call_inv_def)
  next
    case (call_register seg d th)
    then show ?thesis using register_safe [OF inv] by (metis option.inject)
  next
    case (call_unregister seg d th)
    then show ?thesis using unregister_safe [OF inv] by (metis option.inject)
  next
    case (call_delete seg)
    then show ?thesis using inv by (auto simp: call_inv_def)
  next
    case (call_find th addr seg)
    then show ?thesis using find_safe [OF inv, of th addr] by auto
  qed
qed

text \<open>The restricted steps are such calls.\<close>

lemma step_is_call: "reg_step c pl w w' \<Longrightarrow> reg_call c pl w w'"
proof (induction rule: reg_step.cases)
  case (register w seg d th w')
  then show ?case using call_register [of w seg d] by (auto simp: can_register_def)
next
  case (unregister w seg d th w')
  then show ?case using call_unregister [of w seg d] by (auto simp: registered_def)
qed (auto intro: reg_call.intros)

lemma steps_are_calls: "(reg_step c pl)\<^sup>*\<^sup>* w w' \<Longrightarrow> (reg_call c pl)\<^sup>*\<^sup>* w w'"
  using rtranclp_mono [of "reg_step c pl" "reg_call c pl"] step_is_call by blast

section \<open>Properties\<close>

lemma registered_overlaps:
  assumes "registered c pl w seg d" "lookup_page c (trie w) q = Some seg"
  shows "\<exists>b. contains pl d b \<and> same_page c (drop_bit (page_shift pl) b) q"
  using assms page_in_range [of pl "base_addr pl d" "size_of d" c q]
  by (auto simp: registered_def seg_page_def contains_def end_addr_def in_range_def)

lemma find_is_sound:
  assumes "reg_init c w0" "(reg_step c pl)\<^sup>*\<^sup>* w0 w"
  shows "\<exists>seg w'. find_seg c pl th addr w = Some (seg, w') \<and> reg_inv c pl w' \<and>
    (seg = nullptr \<or> (\<exists>d b. descs w seg = Some d \<and> contains pl d b \<and>
       same_page c (drop_bit (page_shift pl) b) (drop_bit (page_shift pl) addr))) \<and>
    ((\<forall>e \<in> set (tls w th). covers e addr \<longrightarrow> \<not> stale (trie w) e) \<longrightarrow>
       lookup_page c (trie w) (drop_bit (page_shift pl) addr) = Some seg)"
proof -
  have inv: "reg_inv c pl w" using assms by (rule reg.inv_reachable)
  obtain seg w' where f: "find_seg c pl th addr w = Some (seg, w')" "reg_inv c pl w'"
    "seg \<noteq> nullptr \<longrightarrow> lookup_page c (trie w) (drop_bit (page_shift pl) addr) = Some seg \<and>
      (\<exists>d. registered c pl w seg d)"
    "(\<forall>e \<in> set (tls w th). covers e addr \<longrightarrow> \<not> stale (trie w) e) \<longrightarrow>
       lookup_page c (trie w) (drop_bit (page_shift pl) addr) = Some seg"
    using find_spec [OF inv, of th addr] by blast
  moreover have "\<exists>d b. descs w seg = Some d \<and> contains pl d b \<and>
       same_page c (drop_bit (page_shift pl) b) (drop_bit (page_shift pl) addr)" if "seg \<noteq> nullptr"
    using f(3) that registered_overlaps unfolding registered_def by metis
  ultimately show ?thesis by blast
qed

text \<open>
  C34: However the threads of a process call the registry -- registering and unregistering live
  descriptors in any order and in any overlap, at new addresses or at addresses that caches still
  name, with node allocation failing or not --, as long as a descriptor is deleted only when no page
  maps to it, a lookup of any address by any thread touches no freed object and returns null or a
  live descriptor to which the trie maps one of the descriptor's own pages; when no entry of the
  thread's cache covers the address, it returns what the trie holds for the address's page. If moreover
  no allocation failed and every segment was registered on unmapped pages, under an address that no
  cache named, and unregistered while it was registered, the answer is null or a live descriptor that
  has an address on the page that was asked for, and it is what the trie holds unless a stale entry of
  the thread's cache covers the address.
\<close>

theorem find_sound:
  assumes "instance_init c = Some w0" "params_ok c" "alloc_ok c" "(reg_call c pl)\<^sup>*\<^sup>* w0 w"
  shows "\<exists>seg w'. find_seg c pl th addr w = Some (seg, w') \<and>
    (seg = nullptr \<or>
      (\<exists>d q. descs w seg = Some d \<and> lookup_page c (trie w) q = Some seg \<and> seg_page c pl d q)) \<and>
    ((\<forall>e \<in> set (tls w th). \<not> covers e addr) \<longrightarrow>
      lookup_page c (trie w) (drop_bit (page_shift pl) addr) = Some seg) \<and>
    (alloc_total c \<and> (reg_step c pl)\<^sup>*\<^sup>* w0 w \<longrightarrow>
      (seg = nullptr \<or> (\<exists>d b. descs w seg = Some d \<and> contains pl d b \<and>
         same_page c (drop_bit (page_shift pl) b) (drop_bit (page_shift pl) addr))) \<and>
      ((\<forall>e \<in> set (tls w th). covers e addr \<longrightarrow> \<not> stale (trie w) e) \<longrightarrow>
         lookup_page c (trie w) (drop_bit (page_shift pl) addr) = Some seg))"
proof -
  have inv: "call_inv c pl w" using calls.inv_reachable assms by blast
  obtain seg w' where f: "find_seg c pl th addr w = Some (seg, w')"
    "seg = nullptr \<or> (\<exists>d q. descs w seg = Some d \<and> lookup_page c (trie w) q = Some seg \<and> seg_page c pl d q)"
    "(\<forall>e \<in> set (tls w th). \<not> covers e addr) \<longrightarrow> lookup_page c (trie w) (drop_bit (page_shift pl) addr) = Some seg"
    using find_safe [OF inv, of th addr] by blast
  then show ?thesis
    using find_is_sound [of c w0 pl w th addr] assms(1-3) by (auto simp: reg_init_def)
qed

text \<open>
  Registration is visible at once: after \<^verbatim>\<open>register_segment\<close> the registering thread finds the
  segment from every address it contains, and from then on a thread that found the segment
  finds it again from every address of it.
\<close>

lemma register_then_find:
  assumes "reg_inv c pl w" "can_register c pl w seg d" "contains pl d a"
  shows "\<exists>w1 w2. register_segment c pl th seg w = Some w1 \<and> find_seg c pl th a w1 = Some (seg, w2) \<and>
    (\<forall>b. contains pl d b \<longrightarrow> (\<exists>w3. find_seg c pl th b w2 = Some (seg, w3)))"
proof -
  obtain w1 where w1: "register_segment c pl th seg w = Some w1" "reg_inv c pl w1" "registered c pl w1 seg d"
    "hot pl w1 th seg d"
    using register_spec [OF assms(1,2)] by blast
  have d: "descs w1 seg = Some d" "seg \<noteq> nullptr" using w1(3) by (simp_all add: registered_def)
  obtain w2 where f: "find_seg c pl th a w1 = Some (seg, w2)" using hot_find [OF w1(2,4) d assms(3)] by blast
  then have w2: "reg_inv c pl w2" "descs w2 = descs w1" "hot pl w2 th seg d"
    using find_spec [OF w1(2), of th a] d unfolding registered_def by (metis option.inject prod.inject)+
  have "\<exists>w3. find_seg c pl th b w2 = Some (seg, w3)" if "contains pl d b" for b
    using hot_find [OF w2(1,3) _ d(2) that] d(1) w2(2) by simp
  with w1(1) f show ?thesis by blast
qed

text \<open>
  After \<^verbatim>\<open>unregister_segment\<close> no thread finds the segment any more, however warm its cache
  was, and the lookup of every address outside the segment is what it was in the trie.
\<close>

lemma unregister_then_not_found:
  assumes "reg_inv c pl w" "registered c pl w seg d"
  shows "\<exists>w'. unregister_segment c pl th seg w = Some w' \<and> reg_inv c pl w' \<and>
    (\<forall>u a v w''. find_seg c pl u a w' = Some (v, w'') \<longrightarrow> v \<noteq> seg) \<and>
    (\<forall>q. \<not> seg_page c pl d q \<longrightarrow> lookup_page c (trie w') q = lookup_page c (trie w) q)"
proof -
  obtain w' where w': "unregister_segment c pl th seg w = Some w'" "reg_inv c pl w'"
    and lk: "\<forall>q. lookup_page c (trie w') q = (if seg_page c pl d q then Some nullptr else lookup_page c (trie w) q)"
    using unregister_spec [OF assms] by blast
  have "v \<noteq> seg" if "find_seg c pl u a w' = Some (v, w'')" for u a v w''
  proof
    assume "v = seg"
    then have "lookup_page c (trie w') (drop_bit (page_shift pl) a) = Some seg"
      using find_spec [OF w'(2), of u a] that assms(2) by (auto simp: registered_def)
    then show False using lk assms(2) by (auto simp: registered_def split: if_splits)
  qed
  then have "\<forall>u a v w''. find_seg c pl u a w' = Some (v, w'') \<longrightarrow> v \<noteq> seg" by blast
  with w' lk show ?thesis by (intro exI [of _ w']) simp
qed

section \<open>Concrete runs\<close>

definition demo_desc :: "u64 \<Rightarrow> u64 \<Rightarrow> sub_segment" where
  "demo_desc base sz = default_sub_segment\<lparr>base_vaddr := base, size_of := sz, is_anon := True\<rparr>"

definition demo_process :: process where
  "demo_process = \<lparr>trie = empty_trie, tls = (\<lambda>_. tls_cache_init), descs = [0x5000 \<mapsto> demo_desc 0x10000 0x2000]\<rparr>"

lemma demo_desc_simps [simp]:
  "base_addr linux_x86 (demo_desc b sz) = b" "size_of (demo_desc b sz) = sz"
  by (simp_all add: base_addr_def ptr_to_vaddr_def strip_pac_def linux_x86_def demo_desc_def)

lemma demo_process_simps [simp]:
  "trie demo_process = empty_trie" "tls demo_process th = tls_cache_init"
  "descs demo_process = [0x5000 \<mapsto> demo_desc 0x10000 0x2000]"
  by (simp_all add: demo_process_def)

lemma demo_reachable:
  "\<exists>w0. reg_init default_params w0 \<and> (reg_step default_params linux_x86)\<^sup>*\<^sup>* w0 demo_process"
proof -
  let ?w0 = "\<lparr>trie = empty_trie, tls = (\<lambda>_. tls_cache_init), descs = Map.empty\<rparr>"
  have "reg_init default_params ?w0" by (simp add: reg_init_def instance_init_def new_default_trie)
  moreover have "reg_step default_params linux_x86 ?w0
      (?w0\<lparr>descs := (descs ?w0)(0x5000 \<mapsto> demo_desc 0x10000 0x2000)\<rparr>)"
    by (rule new_desc) simp
  then have "reg_step default_params linux_x86 ?w0 demo_process" by (simp add: demo_process_def)
  ultimately show ?thesis by blast
qed

lemma demo_inv: "reg_inv default_params linux_x86 demo_process"
  using demo_reachable reg.inv_reachable by blast

lemma demo_can_register: "can_register default_params linux_x86 demo_process 0x5000 (demo_desc 0x10000 0x2000)"
  using demo_range by (auto simp: can_register_def tls_cache_init_def no_entry_def)

lemma demo_seg_page:
  "seg_page default_params linux_x86 (demo_desc 0x10000 0x2000) 16"
  "seg_page default_params linux_x86 (demo_desc 0x10000 0x2000) 17"
  using demo_page_in by (simp_all add: seg_page_def)

lemma register_then_find_witness:
  "reg_inv default_params linux_x86 demo_process \<and>
   can_register default_params linux_x86 demo_process 0x5000 (demo_desc 0x10000 0x2000) \<and>
   (\<exists>w1 w2. register_segment default_params linux_x86 0 0x5000 demo_process = Some w1 \<and>
      find_seg default_params linux_x86 0 0x11ff8 w1 = Some (0x5000, w2))"
proof -
  have "contains linux_x86 (demo_desc 0x10000 0x2000) 0x11ff8" by (simp add: contains_def end_addr_def)
  from register_then_find [OF demo_inv demo_can_register this, of 0] show ?thesis
    using demo_inv demo_can_register by blast
qed

theorem find_sound_witness:
  "\<exists>w0 w w'. instance_init default_params = Some w0 \<and> params_ok default_params \<and> alloc_ok default_params \<and>
     (reg_call default_params linux_x86)\<^sup>*\<^sup>* w0 w \<and>
     find_seg default_params linux_x86 2 0x11234 w = Some (0x5000, w')"
proof -
  obtain w0 where w0: "reg_init default_params w0" "(reg_step default_params linux_x86)\<^sup>*\<^sup>* w0 demo_process"
    using demo_reachable by blast
  obtain w where w: "register_segment default_params linux_x86 0 0x5000 demo_process = Some w"
    "lookup_page default_params (trie w) 17 = Some 0x5000" "tls w 2 = tls_cache_init"
    using register_spec [OF demo_inv demo_can_register, of 0] demo_seg_page by auto
  have "(reg_step default_params linux_x86)\<^sup>*\<^sup>* w0 w"
    using w0(2) register [OF demo_can_register w(1)] by (rule rtranclp.rtrancl_into_rtrancl)
  then have r: "(reg_call default_params linux_x86)\<^sup>*\<^sup>* w0 w" by (rule steps_are_calls)
  have i: "instance_init default_params = Some w0" using w0(1) by (simp add: reg_init_def)
  have d: "drop_bit 12 (0x11234 :: u64) = 17" by simp
  have "\<forall>e \<in> set (tls w 2). \<not> covers e 0x11234"
    by (auto simp: w(3) tls_cache_init_def)
  then show ?thesis
    using find_sound [OF i default_params_ok default_alloc_ok r, of 2 "0x11234"] w(2) i r
    unfolding linux_x86_page d by force
qed

lemma unregister_then_not_found_witness:
  "\<exists>w w'. reg_inv default_params linux_x86 w \<and>
     registered default_params linux_x86 w 0x5000 (demo_desc 0x10000 0x2000) \<and>
     unregister_segment default_params linux_x86 1 0x5000 w = Some w' \<and>
     (\<forall>v w''. find_seg default_params linux_x86 0 0x10000 w' = Some (v, w'') \<longrightarrow> v \<noteq> 0x5000)"
proof -
  obtain w where w: "reg_inv default_params linux_x86 w"
    "registered default_params linux_x86 w 0x5000 (demo_desc 0x10000 0x2000)"
    using register_spec [OF demo_inv demo_can_register, of 0] by blast
  then show ?thesis using unregister_then_not_found [OF w, of 1] by blast
qed

section \<open>Reuse of a descriptor's address\<close>

lemma register_effect:
  assumes t: "trie_ready c (trie w)" and d: "descs w seg = Some d" "even seg" and len: "length (tls w th) = kSize"
  shows "\<exists>w'. register_segment c pl th seg w = Some w' \<and> descs w' = descs w \<and> trie_ready c (trie w') \<and>
    (\<forall>u. u \<noteq> th \<longrightarrow> tls w' u = tls w u) \<and>
    (\<forall>q. lookup_page c (trie w') q = (if seg_page c pl d q then Some seg else lookup_page c (trie w) q)) \<and>
    (\<forall>q s. page_slot c (trie w) q = Some s \<longrightarrow> page_slot c (trie w') q = Some s)"
proof -
  obtain t' where t': "insert_range c pl (trie w) (tls w th) (base_addr pl d) (size_of d) seg =
      Some (t', invalidate (tls w th))" "trie_ready c t'"
    and rest: "\<forall>q s. page_slot c (trie w) q = Some s \<longrightarrow> page_slot c t' q = Some s"
    "\<forall>q. lookup_page c t' q = (if seg_page c pl d q then Some seg else lookup_page c (trie w) q)"
    using insert_range_spec [OF t d(2), of pl "tls w th" "base_addr pl d" "size_of d"]
    unfolding seg_page_def by blast
  obtain v es where "trie_lookup c pl t' (invalidate (tls w th)) (base_addr pl d) = Some (v, es)"
    using lookup_then_expand [OF t'(2) cache_ok_invalidate [OF len], of "\<lambda>_. True" pl "base_addr pl d"] by blast
  then show ?thesis using t' rest d(1) by (auto simp: register_segment_def)
qed

text \<open>A thread with an empty cache remembers the slot of the page it asked for.\<close>

lemma cold_find:
  assumes inv: "reg_inv c pl w" and cold: "tls w th = tls_cache_init"
    and l: "lookup_page c (trie w) (drop_bit (page_shift pl) a) = Some seg" "seg \<noteq> nullptr"
  shows "\<exists>w' d. find_seg c pl th a w = Some (seg, w') \<and> descs w seg = Some d \<and> trie w' = trie w \<and> descs w' = descs w \<and>
    (\<forall>u. u \<noteq> th \<longrightarrow> tls w' u = tls w u) \<and> length (tls w' th) = kSize \<and>
    tls w' th ! 0 = \<lparr>e_base = base_addr pl d, e_end = end_addr pl d, e_seg = seg,
      e_leaf = page_slot c (trie w) (drop_bit (page_shift pl) a)\<rparr>"
proof -
  have t: "trie_ready c (trie w)" and ok: "cache_ok c pl (trie w) tls_cache_init" and
    own: "\<exists>d. registered c pl w seg d" using inv l by (auto simp: reg_inv_def)
  have "lookup_from (nodes (trie w)) tls_cache_init a 0 = Some (None, tls_cache_init)"
    using lookup_from_cases [of 0 tls_cache_init a "nodes (trie w)"]
    by (auto simp: first_cover_def tls_cache_init_def)
  from lookup_miss [OF t ok this] l obtain es where
    es: "trie_lookup c pl (trie w) tls_cache_init a = Some (seg, es)" "cache_ok c pl (trie w) es"
      "e_seg (es ! 0) = seg" "e_leaf (es ! 0) = page_slot c (trie w) (drop_bit (page_shift pl) a)"
    by (auto simp: trie_lookup_def)
  obtain d where "descs w seg = Some d" using own by (auto simp: registered_def)
  then show ?thesis
    using es cold l(2)
    by (auto simp: find_seg_def cache_ok_def expand_cache_bounds_top_def kSize_def end_addr_def)
qed

lemma small_seg_page:
  "seg_page default_params linux_x86 (demo_desc 0x10000 0x1000) 16"
  "\<not> seg_page default_params linux_x86 (demo_desc 0x10000 0x1000) 17"
proof -
  have r: "range_ok linux_x86 0x10000 0x1000" by (simp add: range_ok_def)
  have e: "page_end linux_x86 0x10000 0x1000 = 17"
    unfolding word_unat_eq_iff range_ok_unat(3) [OF r] by simp
  show "seg_page default_params linux_x86 (demo_desc 0x10000 0x1000) 16"
    unfolding seg_page_def demo_desc_simps demo_page_begin e page_in_def same_page_def
    by (rule bexI [of _ 16]) simp_all
  have "\<not> same_page default_params p 17" if "p \<in> {16..<17}" for p
    using that by (subst same_page_covered) (auto simp: unat_word_less)
  then show "\<not> seg_page default_params linux_x86 (demo_desc 0x10000 0x1000) 17"
    unfolding seg_page_def demo_desc_simps demo_page_begin e page_in_def by blast
qed

text \<open>
  C35: The validation of cache entries does not rule out ABA: a thread that cached a segment, after
  the segment was unregistered and a smaller one was registered whose descriptor was
  allocated at the same address, still finds that descriptor from addresses the new segment
  does not contain and that no segment maps.
\<close>

theorem descriptor_reuse_misleads_cache:
  "\<exists>w1 w2 w3 w4 w5.
     register_segment default_params linux_x86 0 0x5000 demo_process = Some w1 \<and>
     find_seg default_params linux_x86 2 0x10000 w1 = Some (0x5000, w2) \<and>
     unregister_segment default_params linux_x86 0 0x5000 w2 = Some w3 \<and>
     register_segment default_params linux_x86 0 0x5000
       (w3\<lparr>descs := (descs w3)(0x5000 \<mapsto> demo_desc 0x10000 0x1000)\<rparr>) = Some w4 \<and>
     find_seg default_params linux_x86 2 0x11000 w4 = Some (0x5000, w5) \<and>
     \<not> contains linux_x86 (demo_desc 0x10000 0x1000) 0x11000 \<and>
     lookup_page default_params (trie w4) (drop_bit (page_shift linux_x86) 0x11000) = Some nullptr"
proof -
  let ?c = default_params and ?d1 = "demo_desc 0x10000 0x2000" and ?d2 = "demo_desc 0x10000 0x1000"
  have d: "drop_bit 12 (0x10000 :: u64) = 16" "drop_bit 12 (0x11000 :: u64) = 17" by simp_all
  obtain w1 where w1: "register_segment ?c linux_x86 0 0x5000 demo_process = Some w1" "reg_inv ?c linux_x86 w1"
    "registered ?c linux_x86 w1 0x5000 ?d1" "lookup_page ?c (trie w1) 16 = Some 0x5000" "tls w1 2 = tls_cache_init"
    using register_spec [OF demo_inv demo_can_register, of 0] demo_seg_page by auto
  obtain w2 where w2: "find_seg ?c linux_x86 2 0x10000 w1 = Some (0x5000, w2)" "trie w2 = trie w1" "descs w2 = descs w1"
    and e: "length (tls w2 2) = kSize" "tls w2 2 ! 0 = \<lparr>e_base = 0x10000, e_end = 0x12000, e_seg = 0x5000,
      e_leaf = page_slot ?c (trie w1) 16\<rparr>"
    using cold_find [OF w1(2,5), of "0x10000" "0x5000"] w1(3,4) unfolding linux_x86_page d
    by (auto simp: registered_def end_addr_def)
  have inv2: "reg_inv ?c linux_x86 w2" using find_spec [OF w1(2), of 2 "0x10000"] w2(1) by auto
  have "registered ?c linux_x86 w2 0x5000 ?d1" using w1(3) w2 by (simp add: registered_def)
  then obtain w3 where w3: "unregister_segment ?c linux_x86 0 0x5000 w2 = Some w3" "reg_inv ?c linux_x86 w3"
      "tls w3 2 = tls w2 2" "lookup_page ?c (trie w3) 17 = Some 0"
      "\<forall>q s. page_slot ?c (trie w2) q = Some s \<longrightarrow> page_slot ?c (trie w3) q = Some s"
    using unregister_spec [OF inv2, of "0x5000" ?d1 0] demo_seg_page(2) by auto
  let ?w3 = "w3\<lparr>descs := (descs w3)(0x5000 \<mapsto> ?d2)\<rparr>"
  obtain s1 s2 where s: "page_slot ?c (trie w1) 16 = Some (s1, s2)"
    using slot_exists [of ?c "trie w1" 16] w1(2,4) by (auto simp: reg_inv_def)
  have ready: "trie_ready ?c (trie ?w3)" "length (tls ?w3 0) = kSize" using w3(2) by (auto simp: reg_inv_def cache_ok_def)
  obtain w4 where w4: "register_segment ?c linux_x86 0 0x5000 ?w3 = Some w4" "descs w4 0x5000 = Some ?d2"
      "trie_ready ?c (trie w4)" "tls w4 2 = tls w2 2" "lookup_page ?c (trie w4) 16 = Some 0x5000"
      "lookup_page ?c (trie w4) 17 = Some 0" "page_slot ?c (trie w4) 16 = Some (s1, s2)"
    using register_effect [OF ready(1) _ _ ready(2), of "0x5000" ?d2 linux_x86] small_seg_page w3 w2(2) s by auto
  have "leaf_holds (nodes (trie w4)) (tls w4 2 ! 0) (e_seg (tls w4 2 ! 0) OR kLeafTag) = Some True"
    by (rule slot_holds [OF w4(3), of _ 16]) (simp_all add: w4 e(2) s)
  then have "trie_lookup ?c linux_x86 (trie w4) (tls w4 2) 0x11000 = Some (0x5000, tls w4 2)"
    using front_hit [of "tls w4 2" "0x11000" "trie w4" ?c linux_x86] e w4(4) by (simp add: covers_def)
  then obtain w5 where "find_seg ?c linux_x86 2 0x11000 w4 = Some (0x5000, w5)"
    using w4(2) by (simp add: find_seg_def)
  moreover have "\<not> contains linux_x86 ?d2 0x11000" by (simp add: contains_def end_addr_def)
  ultimately show ?thesis using w1(1) w2(1) w3(1) w4(1,6) unfolding linux_x86_page d by blast
qed

end
