(* ===== verification/Segment_Manager.thy ===== *)
theory Segment_Manager
  imports Segment_Registry
begin

text \<open>
  The multi-segment memory manager, \<^verbatim>\<open>include/segmented_interprocess/segmented_segment_manager.hpp\<close>.
  The world of one process is the registry with its descriptors, the manager objects by
  address, the Boost segment managers by the place they live at, the segment tables at the
  start of the shared-memory objects, the history of system calls and the calls made to the
  prefetch worker. Boost's \<^verbatim>\<open>segment_manager\<close> is a parameter: a record of operations on an
  abstract state whose addresses are offsets from the manager, so that the state means the
  same in every process that maps it. An operation returns \<open>None\<close> where the code would use a
  freed object, and an \<open>exn\<close> on the left where it throws.
\<close>

section \<open>Definitions\<close>

subsection \<open>Parameters\<close>

datatype exn = Bad_alloc | Runtime_error string | Already_exists | Terminate

text \<open>
  Boost's \<^verbatim>\<open>construct<T>(name)(args...)\<close> returns an address or null, or throws: its
  \<^verbatim>\<open>bad_alloc\<close>, which the callers catch, or another exception, which they do not.
\<close>

datatype construct_result = C_ok u64 | C_null | C_bad_alloc | C_throw exn

record 'm boost_smgr =
  sm_new :: "u64 \<Rightarrow> 'm"
  sm_allocate :: "u64 \<Rightarrow> 'm \<Rightarrow> u64 option \<times> 'm"
  sm_deallocate :: "u64 \<Rightarrow> 'm \<Rightarrow> 'm"
  sm_free :: "'m \<Rightarrow> u64"
  sm_construct :: "u64 \<Rightarrow> string \<Rightarrow> 'm \<Rightarrow> construct_result \<times> 'm"
  sm_find :: "string \<Rightarrow> 'm \<Rightarrow> (u64 \<times> u64) option"
  sm_destroy :: "string \<Rightarrow> 'm \<Rightarrow> bool \<times> 'm"
  sm_destructor :: "'m \<Rightarrow> 'm"

record 'm env =
  boost :: "'m boost_smgr"
  kernel :: os
  plat :: platform
  trie_cfg :: trie_params
  new_sub_segment :: "process \<Rightarrow> u64"
  sizeof_segment_table :: u64
  alignof_smgr :: u64

subsection \<open>State\<close>

definition kMinSegmentSize :: u64 where
  "kMinSegmentSize = push_bit 20 1"

definition kDefaultSegSize :: u64 where
  "kDefaultSegSize = push_bit 20 16"

definition kGrowMultiplier :: u64 where
  "kGrowMultiplier = 2"

record seg_info =
  seg :: u64
  smgr :: u64

record seg_manager =
  anon :: bool
  shm_root_name :: string
  segments :: "seg_info list"

text \<open>Private memory by address, or a byte of a shared object by its path.\<close>

datatype place = Private u64 | Shared string u64

text \<open>The calls the manager makes into the prefetch worker, in order.\<close>

datatype prefetch_call = Register_manager u64 | Unregister_manager u64 | Hint_growth u64

record 'm world =
  proc :: process
  managers :: "u64 \<rightharpoonup> seg_manager"
  smgrs :: "place \<rightharpoonup> 'm"
  tables :: "string \<Rightarrow> segment_table_t"
  hist :: history
  prefetch :: "prefetch_call list"

text \<open>The shared object of a manager, and the place of an address inside one of its segments.\<close>

definition object_of :: "'m env \<Rightarrow> seg_manager \<Rightarrow> string" where
  "object_of e m = get_platform_shm_path (plat e) (shm_root_name m)"

definition place_of :: "'m env \<Rightarrow> seg_manager \<Rightarrow> sub_segment \<Rightarrow> u64 \<Rightarrow> place" where
  "place_of e m d addr =
     (if is_anon d then Private addr else Shared (object_of e m) (file_offset d + (addr - base_vaddr d)))"

text \<open>The Boost manager an entry of \<^verbatim>\<open>segments_\<close> points to.\<close>

definition smgr_at :: "'m env \<Rightarrow> 'm world \<Rightarrow> seg_manager \<Rightarrow> seg_info \<Rightarrow> (place \<times> 'm) option" where
  "smgr_at e w m i =
     do {
       d \<leftarrow> descs (proc w) (seg i);
       s \<leftarrow> smgrs w (place_of e m d (smgr i));
       Some (place_of e m d (smgr i), s)
     }"

definition upd_desc :: "u64 \<Rightarrow> (sub_segment \<Rightarrow> sub_segment) \<Rightarrow> 'm world \<Rightarrow> 'm world" where
  "upd_desc a f w =
     w\<lparr>proc := (proc w)\<lparr>descs := (descs (proc w))(a := map_option f (descs (proc w) a))\<rparr>\<rparr>"

text \<open>
  The result of a factory: the address of the new descriptor, or null. The factories are
  \<^verbatim>\<open>noexcept\<close>, so a failing \<^verbatim>\<open>operator new\<close> (address 0) in them terminates the process.
\<close>

definition make_unique ::
  "'m env \<Rightarrow> sub_segment option \<times> history \<Rightarrow> 'm world \<Rightarrow> (exn + u64) \<times> 'm world" where
  "make_unique e r w =
     (case r of
        (None, h) \<Rightarrow> (Inr nullptr, w\<lparr>hist := h\<rparr>)
      | (Some d, h) \<Rightarrow>
          let a = new_sub_segment e (proc w);
              w = w\<lparr>hist := h\<rparr>
          in if a = nullptr then (Inl Terminate, w)
             else (Inr a, w\<lparr>proc := (proc w)\<lparr>descs := (descs (proc w))(a \<mapsto> d)\<rparr>\<rparr>))"

text \<open>A shared object that was just created is zero-filled.\<close>

definition clear_object :: "string \<Rightarrow> (place \<rightharpoonup> 'm) \<Rightarrow> place \<rightharpoonup> 'm" where
  "clear_object path s p =
     (case p of Private a \<Rightarrow> s p | Shared q off \<Rightarrow> if q = path then None else s p)"

definition zero_object :: "string \<Rightarrow> 'm world \<Rightarrow> 'm world" where
  "zero_object path w =
     w\<lparr>tables := (tables w)(path := zero_table), smgrs := clear_object path (smgrs w)\<rparr>"

definition push_segment :: "u64 \<Rightarrow> seg_info \<Rightarrow> 'm world \<Rightarrow> 'm world option" where
  "push_segment this i w =
     do {
       m \<leftarrow> managers w this;
       Some (w\<lparr>managers := (managers w)(this \<mapsto> m\<lparr>segments := segments m @ [i]\<rparr>)\<rparr>)
     }"

subsection \<open>Adding segments\<close>

definition smgr_offset :: "'m env \<Rightarrow> bool \<Rightarrow> u64" where
  "smgr_offset e primary = (if primary then align_up (sizeof_segment_table e) (alignof_smgr e) else 0)"

definition adopt_desc :: "u64 \<Rightarrow> sub_segment \<Rightarrow> sub_segment" where
  "adopt_desc this d = d\<lparr>manager := this, discover_growth_fn := True, find_by_file_offset_fn := True\<rparr>"

definition add_segment_anon_preallocated ::
  "'m env \<Rightarrow> nat \<Rightarrow> u64 \<Rightarrow> u64 \<Rightarrow> bool \<Rightarrow> 'm world \<Rightarrow> 'm world option" where
  "add_segment_anon_preallocated e th this a primary w =
     do {
       d \<leftarrow> descs (proc w) a;
       let sz = size_of d;
       let w = upd_desc a (\<lambda>d. d\<lparr>is_primary := primary\<rparr>) w;
       p \<leftarrow> register_segment (trie_cfg e) (plat e) th a (proc w);
       let w = w\<lparr>proc := p\<rparr>;
       let smgr_base = base_vaddr d + smgr_offset e primary;
       let smgr_size = sz - smgr_offset e primary;
       m \<leftarrow> managers w this;
       let w = w\<lparr>smgrs := (smgrs w)(place_of e m d smgr_base \<mapsto> sm_new (boost e) smgr_size)\<rparr>;
       let w = upd_desc a (adopt_desc this) w;
       push_segment this \<lparr>seg = a, smgr = smgr_base\<rparr> w
     }"

definition add_segment_anon ::
  "'m env \<Rightarrow> nat \<Rightarrow> u64 \<Rightarrow> u64 \<Rightarrow> bool \<Rightarrow> 'm world \<Rightarrow> ((exn + unit) \<times> 'm world) option" where
  "add_segment_anon e th this sz primary w =
     (case make_unique e (create_anon (kernel e) sz (hist w)) w of
        (Inl x, w) \<Rightarrow> Some (Inl x, w)
      | (Inr a, w) \<Rightarrow>
          if a = nullptr then Some (Inl Bad_alloc, w)
          else do { w \<leftarrow> add_segment_anon_preallocated e th this a primary w; Some (Inr (), w) })"

text \<open>The mapping of \<^verbatim>\<open>add_segment_shm\<close>: a new object for the creator, else a chunk of the object.\<close>

definition map_shm ::
  "'m env \<Rightarrow> seg_manager \<Rightarrow> u64 \<Rightarrow> u64 \<Rightarrow> bool \<Rightarrow> 'm world \<Rightarrow> (exn + u64) \<times> 'm world" where
  "map_shm e m file_off sz creator w =
     (if creator then
        case make_unique e (create_shm (kernel e) (plat e) (shm_root_name m) sz (hist w)) w of
          (Inl x, w) \<Rightarrow> (Inl x, w)
        | (Inr a, w) \<Rightarrow> (Inr a, if a = nullptr then w else zero_object (object_of e m) w)
      else make_unique e (open_shm_chunk (kernel e) (plat e) (shm_root_name m) sz file_off (hist w)) w)"

definition add_segment_shm ::
  "'m env \<Rightarrow> nat \<Rightarrow> u64 \<Rightarrow> u64 \<Rightarrow> u64 \<Rightarrow> bool \<Rightarrow> bool \<Rightarrow> bool \<Rightarrow> 'm world \<Rightarrow>
   ((exn + unit) \<times> 'm world) option" where
  "add_segment_shm e th this file_off sz primary creator initialize_smgr w =
     do {
       m \<leftarrow> managers w this;
       case map_shm e m file_off sz creator w of
         (Inl x, w) \<Rightarrow> Some (Inl x, w)
       | (Inr a, w) \<Rightarrow>
           if a = nullptr then
             Some (Inl (Runtime_error ''segmented_segment_manager: failed to map SHM chunk''), w)
           else
             do {
               let w = upd_desc a (\<lambda>d. d\<lparr>is_primary := primary\<rparr>) w;
               p \<leftarrow> register_segment (trie_cfg e) (plat e) th a (proc w);
               let w = w\<lparr>proc := p\<rparr>;
               d \<leftarrow> descs (proc w) a;
               let smgr_base = base_vaddr d + smgr_offset e primary;
               let smgr_size = sz - smgr_offset e primary;
               let w = upd_desc a (adopt_desc this) w;
               w \<leftarrow> push_segment this \<lparr>seg = a, smgr = smgr_base\<rparr> w;
               Some (Inr (), if creator \<or> initialize_smgr
                 then w\<lparr>smgrs := (smgrs w)(place_of e m d smgr_base \<mapsto> sm_new (boost e) smgr_size)\<rparr>
                 else w)
             }
     }"

subsection \<open>Introspection\<close>

fun free_memory_of :: "'m env \<Rightarrow> 'm world \<Rightarrow> seg_manager \<Rightarrow> seg_info list \<Rightarrow> u64 \<Rightarrow> u64 option" where
  "free_memory_of e w m [] acc = Some acc"
| "free_memory_of e w m (i # is) acc =
     do { (_, s) \<leftarrow> smgr_at e w m i; free_memory_of e w m is (acc + sm_free (boost e) s) }"

fun size_of_segments :: "'m world \<Rightarrow> seg_info list \<Rightarrow> u64 \<Rightarrow> u64 option" where
  "size_of_segments w [] acc = Some acc"
| "size_of_segments w (i # is) acc =
     do { d \<leftarrow> descs (proc w) (seg i); size_of_segments w is (acc + size_of d) }"

definition get_free_memory :: "'m env \<Rightarrow> u64 \<Rightarrow> 'm world \<Rightarrow> u64 option" where
  "get_free_memory e this w = do { m \<leftarrow> managers w this; free_memory_of e w m (segments m) 0 }"

definition get_size :: "u64 \<Rightarrow> 'm world \<Rightarrow> u64 option" where
  "get_size this w = do { m \<leftarrow> managers w this; size_of_segments w (segments m) 0 }"

definition segment_count :: "u64 \<Rightarrow> 'm world \<Rightarrow> nat option" where
  "segment_count this w = do { m \<leftarrow> managers w this; Some (length (segments m)) }"

subsection \<open>The shared segment table\<close>

definition init_segment_table :: "'m env \<Rightarrow> u64 \<Rightarrow> 'm world \<Rightarrow> 'm world option" where
  "init_segment_table e this w =
     do {
       m \<leftarrow> managers w this;
       case segments m of
         [] \<Rightarrow> Some w
       | i # _ \<Rightarrow>
           do {
             s0 \<leftarrow> descs (proc w) (seg i);
             let tbl = tables w (object_of e m);
             let ent = \<lparr>ent_file_offset = 0, ent_size = size_of s0\<rparr>;
             Some (w\<lparr>tables := (tables w)(object_of e m :=
               tbl\<lparr>magic := kSegmentTableMagic, version := kSegmentTableVersion,
                   capacity := of_nat kMaxSubSegments, count := 1, entries := (entries tbl)[0 := ent]\<rparr>)\<rparr>)
           }
     }"

definition update_segment_table :: "'m env \<Rightarrow> u64 \<Rightarrow> 'm world \<Rightarrow> ((exn + unit) \<times> 'm world) option" where
  "update_segment_table e this w =
     do {
       m \<leftarrow> managers w this;
       case segments m of
         [] \<Rightarrow> Some (Inr (), w)
       | i # _ \<Rightarrow>
           do {
             s0 \<leftarrow> descs (proc w) (seg i);
             if \<not> is_primary s0 then Some (Inr (), w)
             else
               let new_idx = length (segments m) - 1
               in if new_idx \<ge> kMaxSubSegments then Some (Inl (Runtime_error ''Too many sub-segments''), w)
                  else do {
                    ns \<leftarrow> descs (proc w) (seg (segments m ! new_idx));
                    let tbl = tables w (object_of e m);
                    let ent = \<lparr>ent_file_offset = file_offset ns, ent_size = size_of ns\<rparr>;
                    Some (Inr (), w\<lparr>tables := (tables w)(object_of e m :=
                      tbl\<lparr>entries := (entries tbl)[new_idx := ent], count := of_nat (new_idx + 1)\<rparr>)\<rparr>)
                  }
           }
     }"

subsection \<open>Growth\<close>

text \<open>
  The first critical section of \<^verbatim>\<open>grow\<close>: the size of the chunk to add and the current total,
  or nothing when enough memory is free.
\<close>

definition grow_plan :: "'m env \<Rightarrow> u64 \<Rightarrow> u64 \<Rightarrow> 'm world \<Rightarrow> (u64 \<times> u64) option option" where
  "grow_plan e this min_bytes w =
     do {
       m \<leftarrow> managers w this;
       free \<leftarrow> free_memory_of e w m (segments m) 0;
       if free \<ge> min_bytes then Some None
       else do {
         chunk \<leftarrow> (if segments m = [] then Some kDefaultSegSize
                  else do { d \<leftarrow> descs (proc w) (seg (last (segments m))); Some (size_of d * kGrowMultiplier) });
         let new_chunk_size = align_up (max min_bytes chunk) (page_size (plat e));
         current_file_size \<leftarrow> size_of_segments w (segments m) 0;
         Some (Some (new_chunk_size, current_file_size))
       }
     }"

definition grow_commit ::
  "'m env \<Rightarrow> nat \<Rightarrow> u64 \<Rightarrow> u64 \<Rightarrow> u64 \<Rightarrow> 'm world \<Rightarrow> ((exn + unit) \<times> 'm world) option" where
  "grow_commit e th this new_chunk_size current_file_size w =
     do {
       m \<leftarrow> managers w this;
       if anon m then add_segment_anon e th this new_chunk_size False w
       else
         let (ok, h) = shm_grow (kernel e) (plat e) (shm_root_name m) (current_file_size + new_chunk_size) (hist w);
             w = w\<lparr>hist := h\<rparr>
         in if \<not> ok then Some (Inl Bad_alloc, w)
            else do {
              (r, w) \<leftarrow> add_segment_shm e th this current_file_size new_chunk_size False False True w;
              case r of Inl x \<Rightarrow> Some (Inl x, w) | Inr _ \<Rightarrow> update_segment_table e this w
            }
     }"

definition grow :: "'m env \<Rightarrow> nat \<Rightarrow> u64 \<Rightarrow> u64 \<Rightarrow> 'm world \<Rightarrow> ((exn + unit) \<times> 'm world) option" where
  "grow e th this min_bytes w =
     do {
       plan \<leftarrow> grow_plan e this min_bytes w;
       case plan of
         None \<Rightarrow> Some (Inr (), w)
       | Some (chunk, current) \<Rightarrow> grow_commit e th this chunk current w
     }"

text \<open>
  \<^verbatim>\<open>grow_background\<close>, run by the worker: the flag says whether \<^verbatim>\<open>grow_mtx_\<close> was free. The method
  is \<^verbatim>\<open>noexcept\<close>, so an exception that leaves it terminates the process.
\<close>

definition no_except :: "((exn + 'a) \<times> 'm world) option \<Rightarrow> ((exn + 'a) \<times> 'm world) option" where
  "no_except r = map_option (\<lambda>(x, w). (case x of Inl _ \<Rightarrow> Inl Terminate | Inr v \<Rightarrow> Inr v, w)) r"

text \<open>
  Its two critical sections on \<^verbatim>\<open>list_mtx_\<close>: the decision, and the addition, which checks again that
  no other thread has added a segment in between.
\<close>

definition background_plan :: "'m env \<Rightarrow> u64 \<Rightarrow> 'm world \<Rightarrow> (u64 \<times> u64) option option" where
  "background_plan e this w =
     do {
       m \<leftarrow> managers w this;
       if segments m = [] then Some None
       else do {
         (_, s) \<leftarrow> smgr_at e w m (last (segments m));
         d \<leftarrow> descs (proc w) (seg (last (segments m)));
         if sm_free (boost e) s \<ge> size_of d div 2 then Some None
         else do {
           let new_chunk_size = align_up (max kMinSegmentSize (size_of d * kGrowMultiplier)) (page_size (plat e));
           current_file_size \<leftarrow> size_of_segments w (segments m) 0;
           Some (Some (new_chunk_size, current_file_size))
         }
       }
     }"

definition background_commit ::
  "'m env \<Rightarrow> nat \<Rightarrow> u64 \<Rightarrow> u64 \<Rightarrow> u64 \<Rightarrow> 'm world \<Rightarrow> ((exn + unit) \<times> 'm world) option" where
  "background_commit e th this new_chunk_size current_file_size w =
     do {
       m \<leftarrow> managers w this;
       if anon m then
         case make_unique e (create_anon (kernel e) new_chunk_size (hist w)) w of
           (Inl x, w) \<Rightarrow> Some (Inl x, w)
         | (Inr a, w) \<Rightarrow>
             if a = nullptr then Some (Inr (), w)
             else do { w \<leftarrow> add_segment_anon_preallocated e th this a False w; Some (Inr (), w) }
       else
         let (ok, h) = shm_grow (kernel e) (plat e) (shm_root_name m)
                         (current_file_size + new_chunk_size) (hist w);
             w = w\<lparr>hist := h\<rparr>
         in if \<not> ok then Some (Inr (), w)
            else do {
              now \<leftarrow> size_of_segments w (segments m) 0;
              if current_file_size = now then
                no_except (do {
                  (r, w) \<leftarrow> add_segment_shm e th this current_file_size new_chunk_size False False True w;
                  case r of Inl x \<Rightarrow> Some (Inl x, w) | Inr _ \<Rightarrow> update_segment_table e this w
                })
              else Some (Inr (), w)
            }
     }"

definition grow_background ::
  "'m env \<Rightarrow> nat \<Rightarrow> u64 \<Rightarrow> bool \<Rightarrow> 'm world \<Rightarrow> ((exn + unit) \<times> 'm world) option" where
  "grow_background e th this owns_lock w =
     (if \<not> owns_lock then Some (Inr (), w)
      else do {
        plan \<leftarrow> background_plan e this w;
        case plan of
          None \<Rightarrow> Some (Inr (), w)
        | Some (chunk, current) \<Rightarrow> background_commit e th this chunk current w
      })"

lemmas grow_background_defs = grow_background_def background_plan_def background_commit_def

subsection \<open>Raw allocation\<close>

fun allocate_in ::
  "'m env \<Rightarrow> u64 \<Rightarrow> seg_manager \<Rightarrow> seg_info list \<Rightarrow> 'm world \<Rightarrow> (u64 \<times> 'm world) option" where
  "allocate_in e bytes m [] w = Some (nullptr, w)"
| "allocate_in e bytes m (i # is) w =
     do {
       (l, s) \<leftarrow> smgr_at e w m i;
       let (off, s') = sm_allocate (boost e) bytes s;
       let w = w\<lparr>smgrs := (smgrs w)(l \<mapsto> s')\<rparr>;
       let p = (case off of None \<Rightarrow> nullptr | Some o' \<Rightarrow> smgr i + o');
       if p \<noteq> nullptr then Some (p, w) else allocate_in e bytes m is w
     }"

definition try_allocate_locked :: "'m env \<Rightarrow> u64 \<Rightarrow> u64 \<Rightarrow> 'm world \<Rightarrow> (u64 \<times> 'm world) option" where
  "try_allocate_locked e this bytes w =
     do {
       m \<leftarrow> managers w this;
       (p, w) \<leftarrow> allocate_in e bytes m (segments m) w;
       if p \<noteq> nullptr then
         do {
           (_, s) \<leftarrow> smgr_at e w m (last (segments m));
           d \<leftarrow> descs (proc w) (seg (last (segments m)));
           Some (p, if sm_free (boost e) s < size_of d div 2
                    then w\<lparr>prefetch := prefetch w @ [Hint_growth this]\<rparr> else w)
         }
       else Some (p, w)
     }"

definition allocate :: "'m env \<Rightarrow> nat \<Rightarrow> u64 \<Rightarrow> u64 \<Rightarrow> 'm world \<Rightarrow> ((exn + u64) \<times> 'm world) option" where
  "allocate e th this bytes w =
     do {
       (p, w) \<leftarrow> try_allocate_locked e this bytes w;
       if p \<noteq> nullptr then Some (Inr p, w)
       else do {
         (r, w) \<leftarrow> grow e th this (bytes + kMinSegmentSize) w;
         case r of
           Inl x \<Rightarrow> Some (Inl x, w)
         | Inr _ \<Rightarrow>
             do {
               (p, w) \<leftarrow> try_allocate_locked e this bytes w;
               Some (if p = nullptr then Inl Bad_alloc else Inr p, w)
             }
       }
     }"

definition allocate_nothrow :: "'m env \<Rightarrow> nat \<Rightarrow> u64 \<Rightarrow> u64 \<Rightarrow> 'm world \<Rightarrow> ((exn + u64) \<times> 'm world) option" where
  "allocate_nothrow e th this bytes w =
     do {
       (p, w) \<leftarrow> try_allocate_locked e this bytes w;
       if p \<noteq> nullptr then Some (Inr p, w)
       else do {
         (r, w) \<leftarrow> grow e th this (bytes + kMinSegmentSize) w;
         case r of
           Inl x \<Rightarrow> Some (if x = Terminate then Inl Terminate else Inr nullptr, w)
         | Inr _ \<Rightarrow> do { (p, w) \<leftarrow> try_allocate_locked e this bytes w; Some (Inr p, w) }
       }
     }"

definition smgr_for :: "u64 \<Rightarrow> u64 \<Rightarrow> 'm world \<Rightarrow> seg_info option option" where
  "smgr_for this a w = do { m \<leftarrow> managers w this; Some (List.find (\<lambda>i. seg i = a) (segments m)) }"

definition deallocate :: "'m env \<Rightarrow> nat \<Rightarrow> u64 \<Rightarrow> u64 \<Rightarrow> 'm world \<Rightarrow> 'm world option" where
  "deallocate e th this ptr w =
     (if ptr = nullptr then Some w
      else do {
        (a, p) \<leftarrow> find_seg (trie_cfg e) (plat e) th (ptr_to_vaddr (plat e) ptr) (proc w);
        let w = w\<lparr>proc := p\<rparr>;
        if a = nullptr then Some w
        else do {
          r \<leftarrow> smgr_for this a w;
          case r of
            None \<Rightarrow> Some w
          | Some i \<Rightarrow>
              if smgr i = nullptr then Some w
              else do {
                m \<leftarrow> managers w this;
                (l, s) \<leftarrow> smgr_at e w m i;
                Some (w\<lparr>smgrs := (smgrs w)(l \<mapsto> sm_deallocate (boost e) (ptr - smgr i) s)\<rparr>)
              }
        }
      })"

subsection \<open>Named objects\<close>

text \<open>
  The loop of \<^verbatim>\<open>construct\<close> over the segments: an address, null when no segment gave one, or the
  exception that the handler of \<^verbatim>\<open>bad_alloc\<close> lets through.
\<close>

fun construct_in ::
  "'m env \<Rightarrow> u64 \<Rightarrow> string \<Rightarrow> seg_manager \<Rightarrow> seg_info list \<Rightarrow> 'm world \<Rightarrow> ((exn + u64) \<times> 'm world) option" where
  "construct_in e sizeof_T name m [] w = Some (Inr nullptr, w)"
| "construct_in e sizeof_T name m (i # is) w =
     do {
       (l, s) \<leftarrow> smgr_at e w m i;
       let (r, s') = sm_construct (boost e) sizeof_T name s;
       let w = w\<lparr>smgrs := (smgrs w)(l \<mapsto> s')\<rparr>;
       case r of
         C_ok off \<Rightarrow> if smgr i + off \<noteq> nullptr then Some (Inr (smgr i + off), w)
                     else construct_in e sizeof_T name m is w
       | C_null \<Rightarrow> construct_in e sizeof_T name m is w
       | C_bad_alloc \<Rightarrow> construct_in e sizeof_T name m is w
       | C_throw x \<Rightarrow> Some (Inl x, w)
     }"

definition construct ::
  "'m env \<Rightarrow> nat \<Rightarrow> u64 \<Rightarrow> u64 \<Rightarrow> string \<Rightarrow> 'm world \<Rightarrow> ((exn + u64) \<times> 'm world) option" where
  "construct e th this sizeof_T name w =
     do {
       m \<leftarrow> managers w this;
       (r, w) \<leftarrow> construct_in e sizeof_T name m (segments m) w;
       case r of
         Inl x \<Rightarrow> Some (Inl x, w)
       | Inr p \<Rightarrow>
           if p \<noteq> nullptr then Some (Inr p, w)
           else do {
             (r, w) \<leftarrow> grow e th this (sizeof_T + 1024) w;
             case r of
               Inl x \<Rightarrow> Some (Inl x, w)
             | Inr _ \<Rightarrow>
                 do {
                   m \<leftarrow> managers w this;
                   let i = last (segments m);
                   (l, s) \<leftarrow> smgr_at e w m i;
                   let (r, s') = sm_construct (boost e) sizeof_T name s;
                   let w = w\<lparr>smgrs := (smgrs w)(l \<mapsto> s')\<rparr>;
                   Some (case r of
                           C_ok off \<Rightarrow> Inr (smgr i + off)
                         | C_null \<Rightarrow> Inr nullptr
                         | C_bad_alloc \<Rightarrow> Inl Bad_alloc
                         | C_throw x \<Rightarrow> Inl x, w)
                 }
           }
     }"

fun find_in :: "'m env \<Rightarrow> string \<Rightarrow> seg_manager \<Rightarrow> 'm world \<Rightarrow> seg_info list \<Rightarrow> (u64 \<times> u64) option" where
  "find_in e name m w [] = Some (nullptr, 0)"
| "find_in e name m w (i # is) =
     do {
       (_, s) \<leftarrow> smgr_at e w m i;
       case sm_find (boost e) name s of
         Some (off, n) \<Rightarrow> if smgr i + off \<noteq> nullptr then Some (smgr i + off, n) else find_in e name m w is
       | None \<Rightarrow> find_in e name m w is
     }"

definition find_object :: "'m env \<Rightarrow> u64 \<Rightarrow> string \<Rightarrow> 'm world \<Rightarrow> (u64 \<times> u64) option" where
  "find_object e this name w = do { m \<leftarrow> managers w this; find_in e name m w (segments m) }"

fun destroy_in ::
  "'m env \<Rightarrow> string \<Rightarrow> seg_manager \<Rightarrow> seg_info list \<Rightarrow> 'm world \<Rightarrow> (bool \<times> 'm world) option" where
  "destroy_in e name m [] w = Some (False, w)"
| "destroy_in e name m (i # is) w =
     do {
       (l, s) \<leftarrow> smgr_at e w m i;
       let (ok, s') = sm_destroy (boost e) name s;
       let w = w\<lparr>smgrs := (smgrs w)(l \<mapsto> s')\<rparr>;
       if ok then Some (True, w) else destroy_in e name m is w
     }"

definition destroy_object :: "'m env \<Rightarrow> u64 \<Rightarrow> string \<Rightarrow> 'm world \<Rightarrow> (bool \<times> 'm world) option" where
  "destroy_object e this name w = do { m \<leftarrow> managers w this; destroy_in e name m (segments m) w }"

subsection \<open>Discovering segments of other processes\<close>

text \<open>The two loops over the entries of the table add one segment per index.\<close>

fun add_listed ::
  "'m env \<Rightarrow> nat \<Rightarrow> u64 \<Rightarrow> nat list \<Rightarrow> 'm world \<Rightarrow> ((exn + unit) \<times> 'm world) option" where
  "add_listed e th this [] w = Some (Inr (), w)"
| "add_listed e th this (i # is) w =
     do {
       m \<leftarrow> managers w this;
       let es = entries (tables w (object_of e m));
       if i < length es then
         do {
           (r, w) \<leftarrow> add_segment_shm e th this (ent_file_offset (es ! i)) (ent_size (es ! i)) False False False w;
           case r of Inl x \<Rightarrow> Some (Inl x, w) | Inr _ \<Rightarrow> add_listed e th this is w
         }
       else None
     }"

definition find_segment_by_file_offset :: "u64 \<Rightarrow> u64 \<Rightarrow> 'm world \<Rightarrow> u64 option" where
  "find_segment_by_file_offset this off w =
     do {
       m \<leftarrow> managers w this;
       foldr (\<lambda>i rest.
           do {
             d \<leftarrow> descs (proc w) (seg i);
             if off \<ge> file_offset d \<and> off < file_offset d + size_of d then Some (seg i) else rest
           })
         (segments m) (Some nullptr)
     }"

definition lazy_discover_growth ::
  "'m env \<Rightarrow> nat \<Rightarrow> u64 \<Rightarrow> u64 \<Rightarrow> 'm world \<Rightarrow> ((exn + bool) \<times> 'm world) option" where
  "lazy_discover_growth e th this required w =
     do {
       m \<leftarrow> managers w this;
       if anon m then Some (Inr False, w)
       else do {
         mapped \<leftarrow> size_of_segments w (segments m) 0;
         if required < mapped then Some (Inr True, w)
         else do {
           let tbl = tables w (object_of e m);
           let idxs = [length (segments m)..<unat (count tbl)];
           let mapped = foldl (\<lambda>n i. n + ent_size (entries tbl ! i)) mapped idxs;
           (r, w) \<leftarrow> add_listed e th this idxs w;
           Some (case r of Inl x \<Rightarrow> Inl x | Inr _ \<Rightarrow> Inr (idxs \<noteq> [] \<and> required < mapped), w)
         }
       }
     }"

text \<open>
  \<^verbatim>\<open>open_all_segments\<close>: map a first megabyte, read the header, map again at the right size, then
  the rest. The descriptor of segment 0 is a local \<^verbatim>\<open>unique_ptr\<close> until it is pushed, so the
  throws before that destroy it.
\<close>

definition delete_desc :: "'m env \<Rightarrow> u64 \<Rightarrow> 'm world \<Rightarrow> 'm world option" where
  "delete_desc e a w =
     do {
       d \<leftarrow> descs (proc w) a;
       Some (w\<lparr>hist := destroy_sub_segment (kernel e) (plat e) d (hist w),
               proc := (proc w)\<lparr>descs := (descs (proc w))(a := None)\<rparr>\<rparr>)
     }"

text \<open>The second mapping of segment 0, at the size the table gives.\<close>

definition remap_primary ::
  "'m env \<Rightarrow> nat \<Rightarrow> u64 \<Rightarrow> string \<Rightarrow> u64 \<Rightarrow> u64 \<Rightarrow> 'm world \<Rightarrow> ((exn + u64) \<times> 'm world) option" where
  "remap_primary e th this name a s0_size w =
     do {
       p \<leftarrow> unregister_segment (trie_cfg e) (plat e) th a (proc w);
       case make_unique e (open_shm_chunk (kernel e) (plat e) name s0_size 0 (hist w)) (w\<lparr>proc := p\<rparr>) of
         (Inl x, w) \<Rightarrow> Some (Inl x, w)
       | (Inr b, w) \<Rightarrow>
           do {
             w \<leftarrow> delete_desc e a w;
             if b = nullptr then Some (Inl Bad_alloc, w)
             else do {
               let w = upd_desc b (\<lambda>d. adopt_desc this (d\<lparr>is_primary := True\<rparr>)) w;
               p \<leftarrow> register_segment (trie_cfg e) (plat e) th b (proc w);
               Some (Inr b, w\<lparr>proc := p\<rparr>)
             }
           }
     }"

definition open_all_segments :: "'m env \<Rightarrow> nat \<Rightarrow> u64 \<Rightarrow> 'm world \<Rightarrow> ((exn + unit) \<times> 'm world) option" where
  "open_all_segments e th this w =
     do {
       m \<leftarrow> managers w this;
       let name = shm_root_name m;
       case make_unique e (open_shm_chunk (kernel e) (plat e) name kMinSegmentSize 0 (hist w)) w of
         (Inl x, w) \<Rightarrow> Some (Inl x, w)
       | (Inr a, w) \<Rightarrow>
           if a = nullptr then Some (Inl (Runtime_error ''Cannot open primary segment''), w)
           else do {
             p \<leftarrow> register_segment (trie_cfg e) (plat e) th a (proc w);
             let w = upd_desc a (\<lambda>d. adopt_desc this (d\<lparr>is_primary := True\<rparr>)) (w\<lparr>proc := p\<rparr>);
             let tbl = tables w (object_of e m);
             if magic tbl \<noteq> kSegmentTableMagic then
               do { w \<leftarrow> delete_desc e a w; Some (Inl (Runtime_error ''Invalid segment table magic''), w) }
             else do {
               let s0_size = ent_size (entries tbl ! 0);
               (r, w) \<leftarrow> (if s0_size > kMinSegmentSize then remap_primary e th this name a s0_size w
                         else Some (Inr a, w));
               case r of
                 Inl x \<Rightarrow> Some (Inl x, w)
               | Inr a \<Rightarrow>
                   do {
                     d \<leftarrow> descs (proc w) a;
                     w \<leftarrow> push_segment this \<lparr>seg = a, smgr = base_vaddr d + smgr_offset e True\<rparr> w;
                     add_listed e th this [1..<unat (count (tables w (object_of e m)))] w
                   }
             }
           }
     }"

subsection \<open>Construction and destruction\<close>

fun delete_all :: "'m env \<Rightarrow> seg_info list \<Rightarrow> 'm world \<Rightarrow> 'm world option" where
  "delete_all e [] w = Some w"
| "delete_all e (i # is) w = do { w \<leftarrow> delete_desc e (seg i) w; delete_all e is w }"

text \<open>
  The loop of the destructor: the Boost manager of each entry is destroyed where it lies, also when
  its bytes belong to a shared object that other processes have open, and the descriptor leaves the
  registry.
\<close>

definition destruct_smgr :: "'m env \<Rightarrow> seg_manager \<Rightarrow> seg_info \<Rightarrow> 'm world \<Rightarrow> 'm world option" where
  "destruct_smgr e m i w =
     (if smgr i = nullptr then Some w
      else do {
        (l, s) \<leftarrow> smgr_at e w m i;
        Some (w\<lparr>smgrs := (smgrs w)(l \<mapsto> sm_destructor (boost e) s)\<rparr>)
      })"

fun destroy_segments ::
  "'m env \<Rightarrow> nat \<Rightarrow> seg_manager \<Rightarrow> seg_info list \<Rightarrow> 'm world \<Rightarrow> 'm world option" where
  "destroy_segments e th m [] w = Some w"
| "destroy_segments e th m (i # is) w =
     do {
       w \<leftarrow> destruct_smgr e m i w;
       p \<leftarrow> unregister_segment (trie_cfg e) (plat e) th (seg i) (proc w);
       destroy_segments e th m is (w\<lparr>proc := p\<rparr>)
     }"

text \<open>
  A constructor that throws destroys the members it has built, the descriptors in
  \<^verbatim>\<open>segments_\<close>, but does not run the destructor's body.
\<close>

definition finish_constructor ::
  "'m env \<Rightarrow> u64 \<Rightarrow> (exn + unit) \<times> 'm world \<Rightarrow> ((exn + unit) \<times> 'm world) option" where
  "finish_constructor e this r =
     (case r of
        (Inr _, w) \<Rightarrow> Some (Inr (), w\<lparr>prefetch := prefetch w @ [Register_manager this]\<rparr>)
      | (Inl x, w) \<Rightarrow>
          if x = Terminate then Some (Inl Terminate, w)
          else do {
            m \<leftarrow> managers w this;
            w \<leftarrow> delete_all e (segments m) w;
            Some (Inl x, w\<lparr>managers := (managers w)(this := None)\<rparr>)
          })"

definition new_manager_anon ::
  "'m env \<Rightarrow> nat \<Rightarrow> u64 \<Rightarrow> u64 \<Rightarrow> 'm world \<Rightarrow> ((exn + unit) \<times> 'm world) option" where
  "new_manager_anon e th this initial_size w =
     do {
       let w = w\<lparr>managers := (managers w)(this \<mapsto> \<lparr>anon = True, shm_root_name = [], segments = []\<rparr>)\<rparr>;
       r \<leftarrow> add_segment_anon e th this (max initial_size kMinSegmentSize) True w;
       finish_constructor e this r
     }"

definition new_manager_shm ::
  "'m env \<Rightarrow> nat \<Rightarrow> u64 \<Rightarrow> string \<Rightarrow> u64 \<Rightarrow> bool \<Rightarrow> 'm world \<Rightarrow> ((exn + unit) \<times> 'm world) option" where
  "new_manager_shm e th this root_name initial_size creator w =
     do {
       let w = w\<lparr>managers := (managers w)(this \<mapsto> \<lparr>anon = False, shm_root_name = root_name, segments = []\<rparr>)\<rparr>;
       (r, w) \<leftarrow>
         (if creator then
            do {
              (r, w) \<leftarrow> add_segment_shm e th this 0 (max initial_size kMinSegmentSize) True True False w;
              case r of
                Inl x \<Rightarrow> Some (Inl x, w)
              | Inr _ \<Rightarrow> do { w \<leftarrow> init_segment_table e this w; Some (Inr (), w) }
            }
          else open_all_segments e th this w);
       finish_constructor e this (r, w)
     }"

definition destroy_manager :: "'m env \<Rightarrow> nat \<Rightarrow> u64 \<Rightarrow> 'm world \<Rightarrow> 'm world option" where
  "destroy_manager e th this w =
     do {
       m \<leftarrow> managers w this;
       let w = w\<lparr>prefetch := prefetch w @ [Unregister_manager this]\<rparr>;
       w \<leftarrow> destroy_segments e th m (segments m) w;
       w \<leftarrow> delete_all e (segments m) w;
       Some (w\<lparr>managers := (managers w)(this := None)\<rparr>)
     }"

end
