(* ===== verification/Manager_Inv.thy ===== *)
theory Manager_Inv
  imports Segment_Manager
begin

text \<open>
  The invariant of the world of one process and the lemmas that the operations of the
  segment manager keep it: every descriptor owns a live mapping of its own, the registry maps
  exactly the pages of registered descriptors, and the segments of a manager are registered
  descriptors that point back to it.
\<close>

section \<open>What is relied on\<close>

text \<open>
  The kernel: a mapping is not empty, lies in user space and shares no page with a live one.
  The allocator of descriptors: null, or an address that is free, even and not in the cache of
  any thread (the reuse of a cached address is the subject of \<open>descriptor_reuse_misleads_cache\<close>).
  The page size is a power of two and the trie covers the user address space.
\<close>

definition fits :: "platform \<Rightarrow> u64 \<Rightarrow> u64 \<Rightarrow> bool" where
  "fits pl p sz \<longleftrightarrow> p \<noteq> nullptr \<and> 0 < sz \<and> unat p + unat sz + 2 ^ page_shift pl \<le> 2 ^ 47"

definition pages_disjoint :: "platform \<Rightarrow> u64 \<times> u64 \<Rightarrow> u64 \<times> u64 \<Rightarrow> bool" where
  "pages_disjoint pl a b \<longleftrightarrow>
     {page_begin pl (fst a)..<page_end pl (fst a) (snd a)} \<inter> {page_begin pl (fst b)..<page_end pl (fst b) (snd b)} = {}"

definition mmap_ok :: "os \<Rightarrow> platform \<Rightarrow> bool" where
  "mmap_ok os pl \<longleftrightarrow>
     (\<forall>h sz fl fd off. sys_mmap os h sz fl fd off \<noteq> MAP_FAILED \<longrightarrow>
        fits pl (sys_mmap os h sz fl fd off) sz \<and>
        (\<forall>a \<in> set (live_maps h). pages_disjoint pl (sys_mmap os h sz fl fd off, sz) a))"

definition new_ok :: "(process \<Rightarrow> u64) \<Rightarrow> bool" where
  "new_ok f \<longleftrightarrow>
     (\<forall>p. f p = nullptr \<or>
        even (f p) \<and> descs p (f p) = None \<and> (\<forall>th. \<forall>e \<in> set (tls p th). e_seg e \<noteq> f p))"

definition env_ok :: "'m env \<Rightarrow> bool" where
  "env_ok e \<longleftrightarrow> mmap_ok (kernel e) (plat e) \<and> new_ok (new_sub_segment e) \<and>
     47 \<le> page_shift (plat e) + Stride (trie_cfg e) * Levels (trie_cfg e) \<and>
     page_size (plat e) = 2 ^ page_shift (plat e) \<and> page_shift (plat e) < 47"

section \<open>The invariant\<close>

definition desc_ok :: "'m env \<Rightarrow> 'm world \<Rightarrow> u64 \<Rightarrow> sub_segment \<Rightarrow> bool" where
  "desc_ok e w a d \<longleftrightarrow> a \<noteq> nullptr \<and> even a \<and> fits (plat e) (base_vaddr d) (size_of d) \<and>
     (base_vaddr d, size_of d) \<in> set (live_maps (hist w))"

definition seg_ok :: "'m env \<Rightarrow> 'm world \<Rightarrow> u64 \<Rightarrow> seg_manager \<Rightarrow> seg_info \<Rightarrow> bool" where
  "seg_ok e w this m i \<longleftrightarrow>
     (\<exists>d. registered (trie_cfg e) (plat e) (proc w) (seg i) d \<and> manager d = this \<and> is_anon d = anon m \<and>
        discover_growth_fn d \<and> find_by_file_offset_fn d)"

definition world_inv :: "'m env \<Rightarrow> 'm world \<Rightarrow> bool" where
  "world_inv e w \<longleftrightarrow>
     reg_inv (trie_cfg e) (plat e) (proc w) \<and>
     (\<forall>a d. descs (proc w) a = Some d \<longrightarrow> desc_ok e w a d) \<and>
     (\<forall>a b d d'. descs (proc w) a = Some d \<longrightarrow> descs (proc w) b = Some d' \<longrightarrow> a \<noteq> b \<longrightarrow>
        pages_disjoint (plat e) (base_vaddr d, size_of d) (base_vaddr d', size_of d')) \<and>
     (\<forall>this m. managers w this = Some m \<longrightarrow>
        distinct (map seg (segments m)) \<and> (\<forall>i \<in> set (segments m). seg_ok e w this m i))"

lemma world_reg: "world_inv e w \<Longrightarrow> reg_inv (trie_cfg e) (plat e) (proc w)"
  by (simp add: world_inv_def)

lemma world_desc: "world_inv e w \<Longrightarrow> descs (proc w) a = Some d \<Longrightarrow> desc_ok e w a d"
  by (simp add: world_inv_def)

lemma world_disjoint:
  "world_inv e w \<Longrightarrow> descs (proc w) a = Some d \<Longrightarrow> descs (proc w) b = Some d' \<Longrightarrow> a \<noteq> b \<Longrightarrow>
   pages_disjoint (plat e) (base_vaddr d, size_of d) (base_vaddr d', size_of d')"
  unfolding world_inv_def by metis

lemma world_seg: "world_inv e w \<Longrightarrow> managers w this = Some m \<Longrightarrow> i \<in> set (segments m) \<Longrightarrow> seg_ok e w this m i"
  by (simp add: world_inv_def)

lemma world_distinct: "world_inv e w \<Longrightarrow> managers w this = Some m \<Longrightarrow> distinct (map seg (segments m))"
  by (simp add: world_inv_def)

lemma world_own:
  "world_inv e w \<Longrightarrow> lookup_page (trie_cfg e) (trie (proc w)) q = Some v \<Longrightarrow> v \<noteq> nullptr \<Longrightarrow>
   \<exists>d. registered (trie_cfg e) (plat e) (proc w) v d"
  unfolding world_inv_def reg_inv_def by metis

lemma fits_base_addr:
  assumes "fits pl (base_vaddr d) (size_of d)"
  shows "base_addr pl d = base_vaddr d"
proof -
  have "(0 :: nat) < 2 ^ page_shift pl" by simp
  then have "unat (base_vaddr d) < 2 ^ 47" using assms unfolding fits_def by linarith
  then show ?thesis by (simp add: base_addr_def ptr_to_vaddr_def strip_pac_user)
qed

lemma fits_range_ok: "fits pl p sz \<Longrightarrow> range_ok pl p sz"
  by (simp add: fits_def range_ok_def)

lemma pages_disjoint_sym: "pages_disjoint pl a b \<longleftrightarrow> pages_disjoint pl b a"
  by (auto simp: pages_disjoint_def)

text \<open>Pages below \<open>2^47\<close> have a slot of their own.\<close>

lemma page_exact:
  assumes "env_ok e" "fits (plat e) p sz" "fits (plat e) p' sz'"
    and q: "q \<in> {page_begin (plat e) p..<page_end (plat e) p sz}"
      "q' \<in> {page_begin (plat e) p'..<page_end (plat e) p' sz'}"
    and "same_page (trie_cfg e) q q'"
  shows "q = q'"
proof -
  let ?k = "page_shift (plat e)" and ?n = "Stride (trie_cfg e) * Levels (trie_cfg e)"
  have small: "unat x < 2 ^ ?n"
    if f: "fits (plat e) b s" and x: "x \<in> {page_begin (plat e) b..<page_end (plat e) b s}" for x b s
  proof -
    have "unat x < unat (page_end (plat e) b s)" using x by (simp add: unat_word_less)
    also have "\<dots> = (unat b + unat s + (2 ^ ?k - 1)) div 2 ^ ?k" using range_ok_unat(3) [OF fits_range_ok [OF f]] .
    also have "\<dots> \<le> 2 ^ 47 div 2 ^ ?k" using f unfolding fits_def by (intro div_le_mono) linarith
    also have "\<dots> \<le> 2 ^ ?n"
    proof -
      have "(2 :: nat) ^ 47 \<le> 2 ^ (?k + ?n)" using assms(1) by (intro power_increasing) (simp_all add: env_ok_def)
      then have "(2 :: nat) ^ 47 \<le> 2 ^ ?n * 2 ^ ?k" by (simp add: power_add mult.commute)
      then have "(2 :: nat) ^ 47 div 2 ^ ?k \<le> 2 ^ ?n * 2 ^ ?k div 2 ^ ?k" by (rule div_le_mono)
      then show ?thesis by simp
    qed
    finally show ?thesis .
  qed
  show ?thesis
    using same_page_covered [OF small [OF assms(2) q(1)] small [OF assms(3) q(2)]] assms(6) by simp
qed

lemma seg_page_fits:
  "fits pl (base_vaddr d) (size_of d) \<Longrightarrow>
   seg_page c pl d q \<longleftrightarrow>
     (\<exists>p \<in> {page_begin pl (base_vaddr d)..<page_end pl (base_vaddr d) (size_of d)}. same_page c p q)"
  by (simp add: seg_page_def page_in_def fits_base_addr)

lemma same_page_trans: "same_page c p q \<Longrightarrow> same_page c r q \<Longrightarrow> same_page c p r"
  by (simp add: same_page_def)

lemma disjoint_pages_unmapped:
  assumes "env_ok e" "fits (plat e) (base_vaddr d) (size_of d)" "fits (plat e) (base_vaddr d') (size_of d')"
    and "pages_disjoint (plat e) (base_vaddr d, size_of d) (base_vaddr d', size_of d')"
    and "seg_page (trie_cfg e) (plat e) d q"
  shows "\<not> seg_page (trie_cfg e) (plat e) d' q"
proof
  assume "seg_page (trie_cfg e) (plat e) d' q"
  then obtain p p' where p: "p \<in> {page_begin (plat e) (base_vaddr d)..<page_end (plat e) (base_vaddr d) (size_of d)}"
      "p' \<in> {page_begin (plat e) (base_vaddr d')..<page_end (plat e) (base_vaddr d') (size_of d')}"
    and "same_page (trie_cfg e) p q" "same_page (trie_cfg e) p' q"
    using assms(5) seg_page_fits [OF assms(2)] seg_page_fits [OF assms(3)] by blast
  then have "p = p'" using page_exact [OF assms(1-3) p] same_page_trans by blast
  with p assms(4) show False by (auto simp: pages_disjoint_def)
qed

section \<open>New descriptors\<close>

lemma mmap_ok_nonnull:
  assumes "mmap_ok os pl"
  shows "mmap_nonnull os"
  unfolding mmap_nonnull_def
proof (intro allI)
  fix h sz fl fd off
  show "sys_mmap os h sz fl fd off \<noteq> nullptr"
    using assms by (cases "sys_mmap os h sz fl fd off = MAP_FAILED") (auto simp: mmap_ok_def fits_def MAP_FAILED_def)
qed

lemma factory_mmap:
  assumes "mmap_ok (kernel e) (plat e)" "(Some d, h') \<in> factories (kernel e) (plat e) name sz off h"
  shows "fits (plat e) (base_vaddr d) sz" "size_of d = sz" "live_maps h' = (base_vaddr d, sz) # live_maps h"
    "\<forall>a \<in> set (live_maps h). pages_disjoint (plat e) (base_vaddr d, sz) a"
proof -
  note nn = mmap_ok_nonnull [OF assms(1)]
  obtain h1 fl fd o' where m: "base_vaddr d = sys_mmap (kernel e) h1 sz fl fd o'" "live_maps h1 = live_maps h"
    "sys_mmap (kernel e) h1 sz fl fd o' \<noteq> MAP_FAILED"
    using factory_from_mapping [OF assms(2)] by (auto simp: maps_one_def)
  have "fits (plat e) (base_vaddr d) sz \<and>
      (\<forall>a \<in> set (live_maps h). pages_disjoint (plat e) (base_vaddr d, sz) a)"
    using assms(1) m unfolding mmap_ok_def by metis
  then show "fits (plat e) (base_vaddr d) sz" "\<forall>a \<in> set (live_maps h). pages_disjoint (plat e) (base_vaddr d, sz) a"
    by blast+
  show "size_of d = sz" "live_maps h' = (base_vaddr d, sz) # live_maps h"
    using factory_maps [OF nn assms(2)] by auto
qed

lemma registered_mono:
  assumes "registered c pl p v d'" "can_register c pl p sg d" "v \<noteq> sg"
    and "\<forall>q. lookup_page c (trie p') q = (if seg_page c pl d q then Some sg else lookup_page c (trie p) q)"
    and "descs p' v = Some d'"
  shows "registered c pl p' v d'"
proof -
  have nz: "v \<noteq> 0" using assms(1) by (simp add: registered_def)
  have "lookup_page c (trie p') q = Some v \<longleftrightarrow> lookup_page c (trie p) q = Some v" for q
    using assms(2,3) spec [OF assms(4), of q] nz by (auto simp: can_register_def)
  then show ?thesis using assms(1,5) by (simp add: registered_def)
qed

lemma new_ok_fresh:
  assumes "new_ok f" "f p \<noteq> nullptr"
  shows "even (f p)" "descs p (f p) = None" "\<forall>th. \<forall>e \<in> set (tls p th). e_seg e \<noteq> f p"
  using assms unfolding new_ok_def by metis+

lemma can_register_fresh:
  assumes env: "env_ok e" and inv: "world_inv e w"
    and f: "(Some d, h') \<in> factories (kernel e) (plat e) name sz off (hist w)"
    and a: "a = new_sub_segment e (proc w)" "a \<noteq> nullptr"
    and d': "base_vaddr d' = base_vaddr d" "size_of d' = size_of d"
  shows "can_register (trie_cfg e) (plat e) ((proc w)\<lparr>descs := (descs (proc w))(a \<mapsto> d')\<rparr>) a d'"
proof -
  have mm: "mmap_ok (kernel e) (plat e)" and nw: "new_ok (new_sub_segment e)" using env by (simp_all add: env_ok_def)
  note fm = factory_mmap [OF mm f]
  have fits: "fits (plat e) (base_vaddr d') (size_of d')" using fm d' by simp
  have fresh: "even a" "descs (proc w) a = None" "\<forall>th. \<forall>e \<in> set (tls (proc w) th). e_seg e \<noteq> a"
    using new_ok_fresh [OF nw] a by simp_all
  have "lookup_page (trie_cfg e) (trie (proc w)) q = Some 0" if q: "seg_page (trie_cfg e) (plat e) d' q" for q
  proof (rule ccontr)
    assume nz: "lookup_page (trie_cfg e) (trie (proc w)) q \<noteq> Some 0"
    have "trie_ready (trie_cfg e) (trie (proc w))" using inv by (simp add: world_inv_def reg_inv_def)
    then obtain v where v: "lookup_page (trie_cfg e) (trie (proc w)) q = Some v" using trie.lookup_total by blast
    then obtain b where "registered (trie_cfg e) (plat e) (proc w) v b"
      using world_own [OF inv v] nz v by auto
    then have b: "descs (proc w) v = Some b" "seg_page (trie_cfg e) (plat e) b q"
      using v by (simp_all add: registered_def)
    then have ok: "fits (plat e) (base_vaddr b) (size_of b)" "(base_vaddr b, size_of b) \<in> set (live_maps (hist w))"
      using world_desc [OF inv b(1)] by (simp_all add: desc_ok_def)
    have "pages_disjoint (plat e) (base_vaddr d', size_of d') (base_vaddr b, size_of b)"
      using fm(2,4) ok(2) d' by auto
    then show False using disjoint_pages_unmapped [OF env fits ok(1) _ q] b(2) by blast
  qed
  then show ?thesis
    using fits a(2) fresh fits_range_ok [OF fits] fits_base_addr [OF fits] by (simp add: can_register_def)
qed

text \<open>
  Adding one mapped descriptor that no other uses, listed by its owner, keeps the invariant of
  the world: one lemma for the descriptors, one for the lists of the managers.
\<close>

lemma descs_fresh:
  assumes inv: "world_inv e w" and ds: "descs (proc w') = (descs (proc w))(a \<mapsto> d)"
    and maps: "live_maps (hist w') = (base_vaddr d, size_of d) # live_maps (hist w)"
    and a: "even a" "a \<noteq> nullptr" and fits: "fits (plat e) (base_vaddr d) (size_of d)"
    and apart: "\<forall>x \<in> set (live_maps (hist w)). pages_disjoint (plat e) (base_vaddr d, size_of d) x"
  shows "descs (proc w') v = Some x \<Longrightarrow> desc_ok e w' v x"
    and "descs (proc w') u = Some x \<Longrightarrow> descs (proc w') v = Some y \<Longrightarrow> u \<noteq> v \<Longrightarrow>
      pages_disjoint (plat e) (base_vaddr x, size_of x) (base_vaddr y, size_of y)"
proof -
  show "desc_ok e w' v x" if "descs (proc w') v = Some x"
    using that world_desc [OF inv, of v x] ds maps a fits by (cases "v = a") (simp_all add: desc_ok_def)
  have new: "pages_disjoint (plat e) (base_vaddr d, size_of d) (base_vaddr x, size_of x)"
    if "descs (proc w) v = Some x" for v x
    using world_desc [OF inv that] apart by (simp add: desc_ok_def)
  show "pages_disjoint (plat e) (base_vaddr x, size_of x) (base_vaddr y, size_of y)"
    if "descs (proc w') u = Some x" "descs (proc w') v = Some y" "u \<noteq> v"
    using that ds new [of u x] new [of v y] world_disjoint [OF inv, of u x v y]
    by (auto simp: pages_disjoint_sym split: if_splits)
qed

lemma lists_fresh:
  assumes inv: "world_inv e w" and m: "managers w this = Some m" and fresh: "descs (proc w) a = None"
    and keep: "\<And>v x. registered (trie_cfg e) (plat e) (proc w) v x \<Longrightarrow> registered (trie_cfg e) (plat e) (proc w') v x"
    and mg: "managers w' = (managers w)(this \<mapsto> m\<lparr>segments := segments m @ [\<lparr>seg = a, smgr = b\<rparr>]\<rparr>)"
    and own: "seg_ok e w' this m \<lparr>seg = a, smgr = b\<rparr>"
    and l: "managers w' this' = Some m'"
  shows "distinct (map seg (segments m'))" "i \<in> set (segments m') \<Longrightarrow> seg_ok e w' this' m' i"
proof -
  have old: "seg_ok e w' this'' m'' i" if "managers w this'' = Some m0" "i \<in> set (segments m0)" "anon m'' = anon m0"
    for this'' m0 m'' i
    using world_seg [OF inv that(1,2)] that(3) keep unfolding seg_ok_def by metis
  have "seg i \<noteq> a" if "i \<in> set (segments m)" for i
    using world_seg [OF inv m that] fresh by (auto simp: seg_ok_def registered_def)
  then have "a \<notin> seg ` set (segments m)" by blast
  then show "distinct (map seg (segments m'))"
    using l mg m world_distinct [OF inv m] world_distinct [OF inv, of this' m'] by (auto split: if_splits)
  show "seg_ok e w' this' m' i" if "i \<in> set (segments m')"
  proof (cases "this' = this")
    case True
    then have "m' = m\<lparr>segments := segments m @ [\<lparr>seg = a, smgr = b\<rparr>]\<rparr>" using l mg by simp
    then show ?thesis using True that own old [OF m, of i m'] by (auto simp: seg_ok_def)
  qed (use that old l mg in auto)
qed

text \<open>The registration of the new descriptor succeeds and leaves every other one registered.\<close>

lemma register_fresh:
  assumes env: "env_ok e" and inv: "world_inv e w"
    and f: "(Some d, h') \<in> factories (kernel e) (plat e) name sz off (hist w)"
    and a: "a = new_sub_segment e (proc w)" "a \<noteq> nullptr"
  obtains p where "register_segment (trie_cfg e) (plat e) th a
        ((proc w)\<lparr>descs := (descs (proc w))(a \<mapsto> d\<lparr>is_primary := pr\<rparr>)\<rparr>) = Some p"
    "descs p = (descs (proc w))(a \<mapsto> d\<lparr>is_primary := pr\<rparr>)" "descs (proc w) a = None"
    "reg_inv (trie_cfg e) (plat e) p" "registered (trie_cfg e) (plat e) p a (d\<lparr>is_primary := pr\<rparr>)"
    "\<And>v x. registered (trie_cfg e) (plat e) (proc w) v x \<Longrightarrow> registered (trie_cfg e) (plat e) p v x"
    "\<And>u. no_stale (proc w) u \<Longrightarrow> no_stale p u"
proof -
  let ?c = "trie_cfg e" and ?pl = "plat e" and ?d = "d\<lparr>is_primary := pr\<rparr>"
  let ?p1 = "(proc w)\<lparr>descs := (descs (proc w))(a \<mapsto> ?d)\<rparr>"
  have fresh: "descs (proc w) a = None" using env new_ok_fresh [of "new_sub_segment e"] a by (simp add: env_ok_def)
  have can: "can_register ?c ?pl ?p1 a ?d" using can_register_fresh [OF env inv f a] by simp
  have inv1: "reg_inv ?c ?pl ?p1"
    using reg_inv_descs [OF world_reg [OF inv], of a "Some ?d"] fresh by (simp add: registered_def)
  obtain p where p: "register_segment ?c ?pl th a ?p1 = Some p" "reg_inv ?c ?pl p" "registered ?c ?pl p a ?d"
      "descs p = descs ?p1"
    and lk: "\<forall>q. lookup_page ?c (trie p) q = (if seg_page ?c ?pl ?d q then Some a else lookup_page ?c (trie ?p1) q)"
    using register_spec [OF inv1 can, of th] by blast
  have cache: "no_stale p u" if "no_stale (proc w) u" for u
    using register_no_stale [OF inv1 can p(1), of u] that by (simp add: no_stale_def)
  have keep: "registered ?c ?pl p v x" if "registered ?c ?pl (proc w) v x" for v x
  proof (rule registered_mono [OF _ can _ lk])
    show "v \<noteq> a" using that fresh by (auto simp: registered_def)
    then show "registered ?c ?pl ?p1 v x" "descs p v = Some x" using that p(4) by (simp_all add: registered_def)
  qed
  show thesis using that [OF p(1) _ fresh p(2,3) keep cache] p(4) by simp
qed

text \<open>What a successful addition does to the world.\<close>

definition added ::
  "'m env \<Rightarrow> u64 \<Rightarrow> seg_manager \<Rightarrow> u64 \<Rightarrow> sub_segment \<Rightarrow> u64 \<Rightarrow> 'm world \<Rightarrow> 'm world \<Rightarrow> bool" where
  "added e this m a d b w w' \<longleftrightarrow>
     descs (proc w) a = None \<and> descs (proc w') = (descs (proc w))(a \<mapsto> d) \<and>
     managers w' = (managers w)(this \<mapsto> m\<lparr>segments := segments m @ [\<lparr>seg = a, smgr = b\<rparr>]\<rparr>) \<and>
     (\<forall>v x. registered (trie_cfg e) (plat e) (proc w) v x \<longrightarrow> registered (trie_cfg e) (plat e) (proc w') v x) \<and>
     (\<forall>u. no_stale (proc w) u \<longrightarrow> no_stale (proc w') u) \<and>
     registered (trie_cfg e) (plat e) (proc w') a d \<and> manager d = this \<and> is_anon d = anon m"

text \<open>
  One new segment, from the factory to \<^verbatim>\<open>segments_\<close>: the registration succeeds and every world
  that differs from the old one by the new mapping, the new registered descriptor and its
  entry in the manager is good again.
\<close>

lemma add_fresh:
  fixes e :: "'m env"
  assumes env: "env_ok e" and inv: "world_inv e w"
    and f: "(Some d, h') \<in> factories (kernel e) (plat e) name sz off (hist w)"
    and a: "a = new_sub_segment e (proc w)" "a \<noteq> nullptr"
    and m: "managers w this = Some m" and an: "is_anon d = anon m"
  obtains p where "register_segment (trie_cfg e) (plat e) th a
        ((proc w)\<lparr>descs := (descs (proc w))(a \<mapsto> d\<lparr>is_primary := pr\<rparr>)\<rparr>) = Some p"
    "descs p = (descs (proc w))(a \<mapsto> d\<lparr>is_primary := pr\<rparr>)"
    "\<And>w' b. proc w' = p\<lparr>descs := (descs p)(a \<mapsto> adopt_desc this (d\<lparr>is_primary := pr\<rparr>))\<rparr> \<Longrightarrow> hist w' = h' \<Longrightarrow>
      managers w' = (managers w)(this \<mapsto> m\<lparr>segments := segments m @ [\<lparr>seg = a, smgr = b\<rparr>]\<rparr>) \<Longrightarrow>
      world_inv e w' \<and> added e this m a (adopt_desc this (d\<lparr>is_primary := pr\<rparr>)) b w w'"
proof -
  let ?c = "trie_cfg e" and ?pl = "plat e" and ?d = "d\<lparr>is_primary := pr\<rparr>"
  let ?d3 = "adopt_desc this ?d"
  have mm: "mmap_ok (kernel e) ?pl" and nw: "new_ok (new_sub_segment e)" using env by (simp_all add: env_ok_def)
  note fm = factory_mmap [OF mm f]
  have even: "even a" using new_ok_fresh [OF nw] a by simp
  have b3: "base_vaddr ?d3 = base_vaddr d" "size_of ?d3 = size_of d" "base_addr ?pl ?d3 = base_addr ?pl ?d"
    by (simp_all add: adopt_desc_def base_addr_def)
  obtain p where p: "register_segment ?c ?pl th a ((proc w)\<lparr>descs := (descs (proc w))(a \<mapsto> ?d)\<rparr>) = Some p"
    "descs p = (descs (proc w))(a \<mapsto> ?d)" "descs (proc w) a = None" "reg_inv ?c ?pl p" "registered ?c ?pl p a ?d"
    and keep: "\<And>v x. registered ?c ?pl (proc w) v x \<Longrightarrow> registered ?c ?pl p v x"
    and cache: "\<And>u. no_stale (proc w) u \<Longrightarrow> no_stale p u"
    by (rule register_fresh [OF env inv f a, where th = th and pr = pr]) (rule that)
  show thesis
  proof (rule that [OF p(1,2)], rule conjI)
    fix w' :: "'m world" and b
    assume w': "proc w' = p\<lparr>descs := (descs p)(a \<mapsto> ?d3)\<rparr>" "hist w' = h'"
      "managers w' = (managers w)(this \<mapsto> m\<lparr>segments := segments m @ [\<lparr>seg = a, smgr = b\<rparr>]\<rparr>)"
    have reg: "reg_inv ?c ?pl (proc w')"
      unfolding w'(1) using reg_inv_descs [OF p(4), of a "Some ?d3"] p(2,5) b3
      by (auto simp: registered_def adopt_desc_def)
    have ra: "registered ?c ?pl (proc w') a ?d3"
      using p(5) b3 by (simp add: registered_def w'(1) seg_page_def)
    have keep': "registered ?c ?pl (proc w') v x" if "registered ?c ?pl (proc w) v x" for v x
      using keep [OF that] that p(3) by (auto simp: registered_def w'(1))
    have ds: "descs (proc w') = (descs (proc w))(a \<mapsto> ?d3)" using p(2) by (simp add: w'(1))
    have maps: "live_maps (hist w') = (base_vaddr ?d3, size_of ?d3) # live_maps (hist w)" using fm(2,3) b3 w'(2) by simp
    have own: "manager ?d3 = this" "is_anon ?d3 = anon m" using an by (simp_all add: adopt_desc_def)
    then have so: "seg_ok e w' this m \<lparr>seg = a, smgr = b\<rparr>" using ra by (auto simp: seg_ok_def adopt_desc_def)
    have fits: "fits ?pl (base_vaddr ?d3) (size_of ?d3)"
      "\<forall>x \<in> set (live_maps (hist w)). pages_disjoint ?pl (base_vaddr ?d3, size_of ?d3) x" using fm b3 by simp_all
    note ok = descs_fresh [OF inv ds maps even a(2) fits] lists_fresh [OF inv m p(3) keep' w'(3) so]
    show "world_inv e w'" using reg ok unfolding world_inv_def by blast
    have "no_stale (proc w') u" if "no_stale (proc w) u" for u using cache [OF that] by (simp add: w'(1) no_stale_def)
    then show "added e this m a ?d3 b w w'" using p(3) ds w'(3) keep' ra own by (simp add: added_def)
  qed
qed

section \<open>Adding segments\<close>

text \<open>What an operation that fails leaves alone.\<close>

definition unchanged :: "'m world \<Rightarrow> 'm world \<Rightarrow> bool" where
  "unchanged w w' \<longleftrightarrow> proc w' = proc w \<and> managers w' = managers w \<and> smgrs w' = smgrs w \<and> tables w' = tables w"

lemma world_inv_hist:
  assumes "world_inv e w" "set (live_maps (hist w)) \<subseteq> set (live_maps h)"
  shows "world_inv e (w\<lparr>hist := h\<rparr>)"
proof -
  have "desc_ok e (w\<lparr>hist := h\<rparr>) a d" if "desc_ok e w a d" for a d
    using that assms(2) by (auto simp: desc_ok_def)
  then show ?thesis using assms(1) by (auto simp: world_inv_def seg_ok_def)
qed

lemma factory_live:
  assumes "env_ok e" "(r, h') \<in> factories (kernel e) (plat e) name sz off h"
  shows "set (live_maps h) \<subseteq> set (live_maps h')"
proof (cases r)
  case None
  have "mmap_nonnull (kernel e)" using assms(1) mmap_ok_nonnull unfolding env_ok_def by blast
  then show ?thesis using factory_maps [OF _ assms(2)] None by simp
next
  case (Some d)
  then show ?thesis using factory_mmap(3) [of e d h' name sz off h] assms by (auto simp: env_ok_def)
qed

lemma make_unique_fails:
  assumes "env_ok e" "world_inv e w" "r \<in> factories (kernel e) (plat e) name sz off (hist w)"
    and "make_unique e r w = (res, w')" "res = Inr nullptr \<or> (\<exists>x. res = Inl x)"
  shows "world_inv e w' \<and> unchanged w w' \<and> (\<forall>x. res = Inl x \<longrightarrow> x = Terminate)"
proof -
  obtain o' h' where r: "r = (o', h')" by (cases r)
  have "world_inv e (w\<lparr>hist := h'\<rparr>)"
    using world_inv_hist [OF assms(2) factory_live [OF assms(1)]] assms(3) r by blast
  moreover have "w' = w\<lparr>hist := h'\<rparr> \<and> (\<forall>x. res = Inl x \<longrightarrow> x = Terminate)"
    using assms(4,5) r by (auto simp: make_unique_def Let_def split: option.splits if_splits)
  ultimately show ?thesis by (simp add: unchanged_def)
qed

lemma make_unique_ok:
  assumes "make_unique e r w = (Inr a, w')" "a \<noteq> nullptr"
  shows "\<exists>d h'. r = (Some d, h') \<and> a = new_sub_segment e (proc w) \<and>
    w' = w\<lparr>hist := h', proc := (proc w)\<lparr>descs := (descs (proc w))(a \<mapsto> d)\<rparr>\<rparr>"
  using assms by (auto simp: make_unique_def Let_def split: option.splits prod.splits if_splits)

lemma add_segment_anon_spec:
  assumes env: "env_ok e" and inv: "world_inv e w" and m: "managers w this = Some m" "anon m"
  shows "\<exists>r w'. add_segment_anon e th this sz pr w = Some (r, w') \<and> world_inv e w' \<and>
    (case r of
       Inl x \<Rightarrow> x \<in> {Bad_alloc, Terminate} \<and> unchanged w w'
     | Inr _ \<Rightarrow> \<exists>a d. added e this m a d (base_vaddr d + smgr_offset e pr) w w' \<and> size_of d = sz \<and>
         is_primary d = pr \<and> tables w' = tables w \<and>
         smgrs w' = (smgrs w)(Private (base_vaddr d + smgr_offset e pr) \<mapsto> sm_new (boost e) (sz - smgr_offset e pr)))"
proof -
  let ?r = "create_anon (kernel e) sz (hist w)"
  have f: "?r \<in> factories (kernel e) (plat e) [] sz 0 (hist w)" by (simp add: factories_def)
  obtain res w1 where mu: "make_unique e ?r w = (res, w1)" by fastforce
  show ?thesis
  proof (cases "\<exists>a. res = Inr a \<and> a \<noteq> nullptr")
    case False
    then have "res = Inr nullptr \<or> (\<exists>x. res = Inl x)" by (cases res) auto
    then show ?thesis
      using make_unique_fails [OF env inv f mu] mu by (auto simp: add_segment_anon_def)
  next
    case True
    then obtain a where a: "res = Inr a" "a \<noteq> nullptr" by blast
    obtain d h' where d: "?r = (Some d, h')" "a = new_sub_segment e (proc w)"
      and w1: "w1 = w\<lparr>hist := h', proc := (proc w)\<lparr>descs := (descs (proc w))(a \<mapsto> d)\<rparr>\<rparr>"
      using make_unique_ok [OF mu [unfolded a(1)] a(2)] by blast
    have da: "is_anon d" "size_of d = sz" using d(1)
      by (auto simp: create_anon_def default_sub_segment_def Let_def split: if_splits prod.splits)
    let ?d = "d\<lparr>is_primary := pr\<rparr>" and ?b = "base_vaddr d + smgr_offset e pr"
    obtain p where p: "register_segment (trie_cfg e) (plat e) th a
        ((proc w)\<lparr>descs := (descs (proc w))(a \<mapsto> ?d)\<rparr>) = Some p"
      "descs p = (descs (proc w))(a \<mapsto> ?d)"
      and fin: "\<And>w' b. proc w' = p\<lparr>descs := (descs p)(a \<mapsto> adopt_desc this ?d)\<rparr> \<Longrightarrow> hist w' = h' \<Longrightarrow>
        managers w' = (managers w)(this \<mapsto> m\<lparr>segments := segments m @ [\<lparr>seg = a, smgr = b\<rparr>]\<rparr>) \<Longrightarrow>
        world_inv e w' \<and> added e this m a (adopt_desc this ?d) b w w'"
      by (rule add_fresh [OF env inv f [unfolded d(1)] d(2) a(2) m(1), where th = th and pr = pr])
        (use da(1) m(2) in simp, rule that)
    let ?w' = "w\<lparr>hist := h', proc := p\<lparr>descs := (descs p)(a \<mapsto> adopt_desc this ?d)\<rparr>,
      smgrs := (smgrs w)(Private ?b \<mapsto> sm_new (boost e) (sz - smgr_offset e pr)),
      managers := (managers w)(this \<mapsto> m\<lparr>segments := segments m @ [\<lparr>seg = a, smgr = ?b\<rparr>]\<rparr>)\<rparr>"
    have run: "add_segment_anon e th this sz pr w = Some (Inr (), ?w')"
      using mu a w1 p da m
      by (simp add: add_segment_anon_def add_segment_anon_preallocated_def upd_desc_def push_segment_def
          place_of_def Let_def)
    have "world_inv e ?w' \<and> added e this m a (adopt_desc this ?d) ?b w ?w'" by (rule fin) simp_all
    then show ?thesis
      using run da by (intro exI [of _ "Inr ()"] exI [of _ ?w'] conjI)
        (auto simp: adopt_desc_def intro!: exI [of _ a] exI [of _ "adopt_desc this ?d"])
  qed
qed

lemma map_shm_cases:
  assumes env: "env_ok e" and inv: "world_inv e w" and run: "map_shm e m fo sz creator w = (res, w1)"
  shows "(res = Inl Terminate \<or> res = Inr nullptr) \<and> world_inv e w1 \<and> unchanged w w1 \<or>
    (\<exists>a d h' off. res = Inr a \<and> a \<noteq> nullptr \<and> a = new_sub_segment e (proc w) \<and>
      (Some d, h') \<in> factories (kernel e) (plat e) (shm_root_name m) sz off (hist w) \<and>
      size_of d = sz \<and> \<not> is_anon d \<and> file_offset d = (if creator then 0 else fo) \<and>
      w1 = (if creator then zero_object (object_of e m) else id)
        (w\<lparr>hist := h', proc := (proc w)\<lparr>descs := (descs (proc w))(a \<mapsto> d)\<rparr>\<rparr>))"
proof -
  define r where "r = (if creator then create_shm (kernel e) (plat e) (shm_root_name m) sz (hist w)
    else open_shm_chunk (kernel e) (plat e) (shm_root_name m) sz fo (hist w))"
  have f: "r \<in> factories (kernel e) (plat e) (shm_root_name m) sz fo (hist w)" by (simp add: r_def factories_def)
  obtain res' w' where mu: "make_unique e r w = (res', w')" by fastforce
  have eq: "res = res' \<and> w1 = (case res' of Inr a \<Rightarrow> if creator \<and> a \<noteq> nullptr then zero_object (object_of e m) w' else w' | Inl _ \<Rightarrow> w')"
    using run mu by (auto simp: map_shm_def r_def split: if_splits sum.splits prod.splits)
  show ?thesis
  proof (cases "\<exists>a. res' = Inr a \<and> a \<noteq> nullptr")
    case False
    then have "res' = Inr nullptr \<or> (\<exists>x. res' = Inl x)" by (cases res') auto
    then show ?thesis using make_unique_fails [OF env inv f mu] eq by (auto split: sum.splits)
  next
    case True
    then obtain a where a: "res' = Inr a" "a \<noteq> nullptr" by blast
    obtain d h' where d: "r = (Some d, h')" "a = new_sub_segment e (proc w)"
      and w1: "w' = w\<lparr>hist := h', proc := (proc w)\<lparr>descs := (descs (proc w))(a \<mapsto> d)\<rparr>\<rparr>"
      using make_unique_ok [OF mu [unfolded a(1)] a(2)] by blast
    have "\<not> is_anon d \<and> size_of d = sz \<and> file_offset d = (if creator then 0 else fo)" using d(1) unfolding r_def
      by (auto simp: create_shm_def open_shm_chunk_def default_sub_segment_def Let_def split: if_splits prod.splits)
    then show ?thesis using a d w1 eq f by (intro disjI2 exI [of _ a] exI [of _ d] exI [of _ h'] exI [of _ fo]) simp
  qed
qed

lemma add_segment_shm_spec:
  assumes env: "env_ok e" and inv: "world_inv e w" and m: "managers w this = Some m" "\<not> anon m"
  shows "\<exists>r w'. add_segment_shm e th this fo sz pr creator ini w = Some (r, w') \<and> world_inv e w' \<and>
    (case r of
       Inl x \<Rightarrow> x \<in> {Runtime_error ''segmented_segment_manager: failed to map SHM chunk'', Terminate} \<and> unchanged w w'
     | Inr _ \<Rightarrow> \<exists>a d. added e this m a d (base_vaddr d + smgr_offset e pr) w w' \<and> size_of d = sz \<and>
         is_primary d = pr \<and> file_offset d = (if creator then 0 else fo) \<and>
         tables w' = (if creator then (tables w)(object_of e m := zero_table) else tables w) \<and>
         smgrs w' = (if creator \<or> ini
           then (smgrs (if creator then zero_object (object_of e m) w else w))
             (Shared (object_of e m) (file_offset d + smgr_offset e pr) \<mapsto> sm_new (boost e) (sz - smgr_offset e pr))
           else smgrs w))"
proof -
  obtain res w1 where ms: "map_shm e m fo sz creator w = (res, w1)" by fastforce
  from map_shm_cases [OF env inv ms] show ?thesis
  proof (elim disjE conjE exE)
    assume "world_inv e w1" "unchanged w w1" "res = Inl Terminate"
    then show ?thesis using ms m by (intro exI [of _ "Inl Terminate"] exI [of _ w1]) (simp add: add_segment_shm_def)
  next
    assume "world_inv e w1" "unchanged w w1" "res = Inr nullptr"
    then show ?thesis using ms m by (auto simp: add_segment_shm_def)
  next
    fix a d h' off
    assume a: "res = Inr a" "a \<noteq> nullptr" "a = new_sub_segment e (proc w)"
      and f: "(Some d, h') \<in> factories (kernel e) (plat e) (shm_root_name m) sz off (hist w)"
      and d: "size_of d = sz" "\<not> is_anon d" "file_offset d = (if creator then 0 else fo)"
      and w1: "w1 = (if creator then zero_object (object_of e m) else id)
        (w\<lparr>hist := h', proc := (proc w)\<lparr>descs := (descs (proc w))(a \<mapsto> d)\<rparr>\<rparr>)"
    let ?d = "d\<lparr>is_primary := pr\<rparr>" and ?b = "base_vaddr d + smgr_offset e pr"
    obtain p where p: "register_segment (trie_cfg e) (plat e) th a
        ((proc w)\<lparr>descs := (descs (proc w))(a \<mapsto> ?d)\<rparr>) = Some p"
      "descs p = (descs (proc w))(a \<mapsto> ?d)"
      and fin: "\<And>w' b. proc w' = p\<lparr>descs := (descs p)(a \<mapsto> adopt_desc this ?d)\<rparr> \<Longrightarrow> hist w' = h' \<Longrightarrow>
        managers w' = (managers w)(this \<mapsto> m\<lparr>segments := segments m @ [\<lparr>seg = a, smgr = b\<rparr>]\<rparr>) \<Longrightarrow>
        world_inv e w' \<and> added e this m a (adopt_desc this ?d) b w w'"
      by (rule add_fresh [OF env inv f a(3,2) m(1), where th = th and pr = pr]) (use d(2) m(2) in simp, rule that)
    have w1': "managers w1 = managers w" "hist w1 = h'"
      "tables w1 = (if creator then (tables w)(object_of e m := zero_table) else tables w)"
      "smgrs w1 = smgrs (if creator then zero_object (object_of e m) w else w)"
      "proc w1 = (proc w)\<lparr>descs := (descs (proc w))(a \<mapsto> d)\<rparr>"
      by (simp_all add: w1 zero_object_def)
    define w2 where "w2 = w1\<lparr>proc := p\<lparr>descs := (descs p)(a \<mapsto> adopt_desc this ?d)\<rparr>,
      managers := (managers w)(this \<mapsto> m\<lparr>segments := segments m @ [\<lparr>seg = a, smgr = ?b\<rparr>]\<rparr>)\<rparr>"
    define w' where "w' = (if creator \<or> ini
      then w2\<lparr>smgrs := (smgrs w1)(Shared (object_of e m) (file_offset d + smgr_offset e pr) \<mapsto>
        sm_new (boost e) (sz - smgr_offset e pr))\<rparr> else w2)"
    have run: "add_segment_shm e th this fo sz pr creator ini w = Some (Inr (), w')"
      using ms a p d m w1'
      by (simp add: add_segment_shm_def upd_desc_def push_segment_def place_of_def Let_def w'_def w2_def)
    have w': "proc w' = p\<lparr>descs := (descs p)(a \<mapsto> adopt_desc this ?d)\<rparr>" "hist w' = h'"
        "managers w' = (managers w)(this \<mapsto> m\<lparr>segments := segments m @ [\<lparr>seg = a, smgr = ?b\<rparr>]\<rparr>)"
      and t: "tables w' = (if creator then (tables w)(object_of e m := zero_table) else tables w)"
      and s: "smgrs w' = (if creator \<or> ini
           then (smgrs (if creator then zero_object (object_of e m) w else w))
             (Shared (object_of e m) (file_offset d + smgr_offset e pr) \<mapsto> sm_new (boost e) (sz - smgr_offset e pr))
           else smgrs w)"
      using w1' by (auto simp: w'_def w2_def)
    have ad: "added e this m a (adopt_desc this ?d) ?b w w'"
      using fin [OF w'] by blast
    have f3: "base_vaddr (adopt_desc this ?d) = base_vaddr d" "size_of (adopt_desc this ?d) = sz"
      "is_primary (adopt_desc this ?d) = pr" "file_offset (adopt_desc this ?d) = file_offset d"
      using d(1) by (simp_all add: adopt_desc_def)
    show ?thesis
      unfolding run
    proof (intro exI [of _ "Inr ()"] exI [of _ w'] conjI)
      show "world_inv e w'" using fin [OF w'] by simp
      show "case Inr () of Inl x \<Rightarrow> x \<in> {Runtime_error ''segmented_segment_manager: failed to map SHM chunk'', Terminate} \<and> unchanged w w'
         | Inr _ \<Rightarrow> \<exists>a d. added e this m a d (base_vaddr d + smgr_offset e pr) w w' \<and> size_of d = sz \<and>
         is_primary d = pr \<and> file_offset d = (if creator then 0 else fo) \<and>
         tables w' = (if creator then (tables w)(object_of e m := zero_table) else tables w) \<and>
         smgrs w' = (if creator \<or> ini
           then (smgrs (if creator then zero_object (object_of e m) w else w))
             (Shared (object_of e m) (file_offset d + smgr_offset e pr) \<mapsto> sm_new (boost e) (sz - smgr_offset e pr))
           else smgrs w)"
        unfolding sum.case using ad f3 d(3) t s
        by (intro exI [of _ a] exI [of _ "adopt_desc this ?d"] conjI) simp_all
    qed simp
  qed
qed

end
