(* ===== verification/Manager_Layout.thy ===== *)
theory Manager_Layout
  imports Manager_Inv
begin

text \<open>
  The layout of a shared-memory manager: its segments are consecutive chunks of one file, and the
  segment table at the start of the file lists them. A byte of the file therefore has one
  address in a process that has mapped its chunk, and the operations that add segments keep
  the layout a prefix of the table.
\<close>

section \<open>Layouts\<close>

text \<open>Chunks, offset and size, that follow each other from byte \<open>n\<close> and end below \<open>2^64\<close>.\<close>

fun contiguous :: "nat \<Rightarrow> (u64 \<times> u64) list \<Rightarrow> bool" where
  "contiguous n [] \<longleftrightarrow> n < 2 ^ 64"
| "contiguous n ((off, sz) # cs) \<longleftrightarrow> unat off = n \<and> 0 < sz \<and> contiguous (n + unat sz) cs"

definition in_chunk :: "u64 \<times> u64 \<Rightarrow> u64 \<Rightarrow> bool" where
  "in_chunk c off \<longleftrightarrow> fst c \<le> off \<and> off < fst c + snd c"

definition desc_chunk :: "sub_segment \<Rightarrow> u64 \<times> u64" where
  "desc_chunk d = (file_offset d, size_of d)"

definition chunk_at :: "'m world \<Rightarrow> seg_info \<Rightarrow> u64 \<times> u64" where
  "chunk_at w i = (case descs (proc w) (seg i) of Some d \<Rightarrow> desc_chunk d | None \<Rightarrow> (0, 0))"

definition seg_layout :: "'m world \<Rightarrow> seg_manager \<Rightarrow> (u64 \<times> u64) list" where
  "seg_layout w m = map (chunk_at w) (segments m)"

definition table_layout :: "segment_table_t \<Rightarrow> (u64 \<times> u64) list" where
  "table_layout tbl = map (\<lambda>x. (ent_file_offset x, ent_size x)) (take (unat (count tbl)) (entries tbl))"

lemma contiguous_mono: "contiguous n cs \<Longrightarrow> n < 2 ^ 64"
  by (induction n cs rule: contiguous.induct) auto

lemma contiguous_append:
  "contiguous n (cs @ ds) \<longleftrightarrow> contiguous n cs \<and> contiguous (n + sum_list (map (unat \<circ> snd) cs)) ds"
  by (induction n cs rule: contiguous.induct) (auto simp: add.assoc dest: contiguous_mono)

lemma contiguous_chunk:
  assumes "contiguous n cs" "c \<in> set cs"
  shows "n \<le> unat (fst c)" "0 < snd c" "unat (fst c) + unat (snd c) < 2 ^ 64"
    "unat (fst c + snd c) = unat (fst c) + unat (snd c)"
proof -
  have "n \<le> unat (fst c) \<and> 0 < snd c \<and> unat (fst c) + unat (snd c) < 2 ^ 64"
    using assms by (induction n cs rule: contiguous.induct) (auto dest: contiguous_mono)
  then show "n \<le> unat (fst c)" "0 < snd c" "unat (fst c) + unat (snd c) < 2 ^ 64"
    "unat (fst c + snd c) = unat (fst c) + unat (snd c)"
    by (auto simp: unat_word_ariths)
qed

lemma in_chunk_iff:
  assumes "contiguous n cs" "c \<in> set cs"
  shows "in_chunk c off \<longleftrightarrow> unat (fst c) \<le> unat off \<and> unat off < unat (fst c) + unat (snd c)"
  using contiguous_chunk(4) [OF assms] by (simp add: in_chunk_def word_le_nat_alt word_less_nat_alt)

text \<open>An offset lies in at most one chunk.\<close>

lemma contiguous_unique:
  assumes "contiguous n cs" "i < length cs" "j < length cs" "in_chunk (cs ! i) off" "in_chunk (cs ! j) off"
  shows "i = j"
proof -
  have lt: "unat (fst (cs ! i)) + unat (snd (cs ! i)) \<le> unat (fst (cs ! j))" if "i < j" "j < length cs" for i j
  proof -
    have "contiguous n (take (Suc i) cs @ drop (Suc i) cs)" using assms(1) by simp
    then have c: "contiguous n (take (Suc i) cs)"
      "contiguous (n + sum_list (map (unat \<circ> snd) (take (Suc i) cs))) (drop (Suc i) cs)"
      by (simp_all only: contiguous_append)
    have i: "take (Suc i) cs = take i cs @ [cs ! i]" using that by (simp add: take_Suc_conv_app_nth)
    have "unat (fst (cs ! i)) = n + sum_list (map (unat \<circ> snd) (take i cs))"
      using c(1) unfolding i contiguous_append by (cases "cs ! i") simp
    moreover have "cs ! j \<in> set (drop (Suc i) cs)" using that by (auto simp: in_set_conv_nth intro!: exI [of _ "j - Suc i"])
    ultimately show ?thesis using contiguous_chunk(1) [OF c(2)] i by (fastforce simp: comp_def)
  qed
  have "in_chunk (cs ! k) off \<longleftrightarrow> unat (fst (cs ! k)) \<le> unat off \<and> unat off < unat (fst (cs ! k)) + unat (snd (cs ! k))"
    if "k < length cs" for k
    using in_chunk_iff [OF assms(1) nth_mem [OF that]] .
  then show ?thesis using lt [of i j] lt [of j i] assms(2-) by (cases i j rule: linorder_cases) auto
qed

text \<open>Every offset below the end lies in some chunk.\<close>

lemma contiguous_covers:
  assumes "contiguous n cs" "n \<le> unat off" "unat off < n + sum_list (map (unat \<circ> snd) cs)"
  shows "\<exists>i < length cs. in_chunk (cs ! i) off"
  using assms
proof (induction n cs rule: contiguous.induct)
  case (2 n fo sz cs)
  show ?case
  proof (cases "unat off < n + unat sz")
    case True
    then have "in_chunk (fo, sz) off" using 2 in_chunk_iff [of n "(fo, sz) # cs" "(fo, sz)" off] by simp
    then show ?thesis by (intro exI [of _ 0]) simp
  next
    case False
    then obtain i where "i < length cs" "in_chunk (cs ! i) off" using 2 by auto
    then show ?thesis by (intro exI [of _ "Suc i"]) simp
  qed
qed simp

section \<open>Searching by file offset\<close>

lemma find_by_offset_spec:
  assumes "managers w this = Some m" and ds: "\<forall>i \<in> set (segments m). descs (proc w) (seg i) \<noteq> None"
    and c: "contiguous 0 (seg_layout w m)"
  shows "find_segment_by_file_offset this off w =
    Some (case List.find (\<lambda>i. in_chunk (chunk_at w i) off) (segments m) of None \<Rightarrow> nullptr | Some i \<Rightarrow> seg i)"
proof -
  have "foldr (\<lambda>i rest. do { d \<leftarrow> descs (proc w) (seg i);
      if off \<ge> file_offset d \<and> off < file_offset d + size_of d then Some (seg i) else rest }) is (Some nullptr) =
    Some (case List.find (\<lambda>i. in_chunk (chunk_at w i) off) is of None \<Rightarrow> nullptr | Some i \<Rightarrow> seg i)"
    if "\<forall>i \<in> set is. descs (proc w) (seg i) \<noteq> None" for "is"
    using that by (induction "is") (auto simp: chunk_at_def in_chunk_def desc_chunk_def)
  then show ?thesis using assms by (simp add: find_segment_by_file_offset_def)
qed

lemma find_by_offset_hit:
  assumes "managers w this = Some m" "\<forall>i \<in> set (segments m). descs (proc w) (seg i) \<noteq> None"
    "contiguous 0 (seg_layout w m)" "i \<in> set (segments m)" "in_chunk (chunk_at w i) off"
  shows "find_segment_by_file_offset this off w = Some (seg i)"
proof -
  obtain k where k: "k < length (segments m)" "segments m ! k = i" using assms(4) by (auto simp: in_set_conv_nth)
  have "List.find (\<lambda>i. in_chunk (chunk_at w i) off) (segments m) \<noteq> None"
    using assms(4,5) by (auto simp: find_None_iff)
  then obtain j where j: "List.find (\<lambda>i. in_chunk (chunk_at w i) off) (segments m) = Some j" by blast
  then obtain k' where k': "k' < length (segments m)" "segments m ! k' = j" "in_chunk (chunk_at w j) off"
    by (auto simp: find_Some_iff)
  have "k = k'"
    using contiguous_unique [OF assms(3), of k k' off] k k' assms(5) by (simp add: seg_layout_def)
  then show ?thesis using find_by_offset_spec [OF assms(1-3)] j k k' by simp
qed

section \<open>The file seen through a manager\<close>

text \<open>The address \<open>p\<close> holds byte \<open>off\<close> of the file, through a segment of the manager.\<close>

definition views :: "'m world \<Rightarrow> u64 \<Rightarrow> u64 \<Rightarrow> u64 \<Rightarrow> bool" where
  "views w this off p \<longleftrightarrow>
     (\<exists>m. managers w this = Some m \<and>
       (\<exists>i \<in> set (segments m). \<exists>d. descs (proc w) (seg i) = Some d \<and>
         in_range (base_vaddr d) (size_of d) p \<and> off = file_offset d + (p - base_vaddr d)))"

text \<open>
  The layout of a shared-memory manager: its first segment is the primary one, and its segments
  are a prefix of the chunks in the table, which are contiguous from 0.
\<close>

definition layout_ok :: "'m env \<Rightarrow> 'm world \<Rightarrow> u64 \<Rightarrow> bool" where
  "layout_ok e w this \<longleftrightarrow>
     (\<exists>m. managers w this = Some m \<and> \<not> anon m \<and> segments m \<noteq> [] \<and>
       (\<exists>d. descs (proc w) (seg (hd (segments m))) = Some d \<and> is_primary d) \<and>
       length (entries (tables w (object_of e m))) = kMaxSubSegments \<and>
       unat (count (tables w (object_of e m))) \<le> kMaxSubSegments \<and>
       contiguous 0 (table_layout (tables w (object_of e m))) \<and>
       (\<exists>rest. table_layout (tables w (object_of e m)) = seg_layout w m @ rest))"

lemma layout_contiguous:
  "layout_ok e w this \<Longrightarrow> managers w this = Some m \<Longrightarrow> contiguous 0 (seg_layout w m)"
  by (auto simp: layout_ok_def contiguous_append)

lemma in_rangeI_unat:
  "unat b + unat sz < 2 ^ 64 \<Longrightarrow> in_range b sz p \<longleftrightarrow> unat b \<le> unat p \<and> unat p < unat b + unat sz"
  by (simp add: in_range_def word_le_nat_alt word_less_nat_alt unat_word_ariths)

lemma fits_no_wrap: "fits pl b sz \<Longrightarrow> unat b + unat sz < 2 ^ 47"
  unfolding fits_def using zero_less_power [of "2 :: nat" "page_shift pl"] by linarith

lemma world_seg_desc:
  assumes "world_inv e w" "managers w this = Some m" "i \<in> set (segments m)"
  shows "\<exists>d. descs (proc w) (seg i) = Some d \<and> registered (trie_cfg e) (plat e) (proc w) (seg i) d \<and>
    manager d = this \<and> is_anon d = anon m \<and> discover_growth_fn d \<and> find_by_file_offset_fn d \<and>
    fits (plat e) (base_vaddr d) (size_of d) \<and> base_addr (plat e) d = base_vaddr d \<and> seg i \<noteq> nullptr"
proof -
  obtain d where d: "registered (trie_cfg e) (plat e) (proc w) (seg i) d" "manager d = this" "is_anon d = anon m"
      "discover_growth_fn d" "find_by_file_offset_fn d"
    using world_seg [OF assms] by (auto simp: seg_ok_def)
  then have "descs (proc w) (seg i) = Some d" "seg i \<noteq> nullptr" by (simp_all add: registered_def)
  moreover from this have "fits (plat e) (base_vaddr d) (size_of d)" using world_desc [OF assms(1)] by (simp add: desc_ok_def)
  ultimately show ?thesis using d fits_base_addr by blast
qed

text \<open>The offset of a viewed address lies in its segment's chunk, and gives the address back.\<close>

lemma view_chunk:
  assumes "contiguous 0 (seg_layout w m)" "i \<in> set (segments m)" "descs (proc w) (seg i) = Some d"
    and "in_range (base_vaddr d) (size_of d) p" "fits pl (base_vaddr d) (size_of d)"
  shows "in_chunk (chunk_at w i) (file_offset d + (p - base_vaddr d))"
proof -
  have c: "chunk_at w i \<in> set (seg_layout w m)" using assms(2) by (simp add: seg_layout_def)
  have c2: "chunk_at w i = (file_offset d, size_of d)"
    using assms(2,3) by (simp_all add: seg_layout_def chunk_at_def desc_chunk_def)
  note cc = contiguous_chunk [OF assms(1) c, unfolded c2, simplified]
  have r: "unat (base_vaddr d) \<le> unat p" "unat p < unat (base_vaddr d) + unat (size_of d)"
    using assms(4) in_rangeI_unat fits_no_wrap [OF assms(5)] by auto
  then have u: "unat (p - base_vaddr d) = unat p - unat (base_vaddr d)" by (simp add: unat_sub word_le_nat_alt)
  then have "unat (file_offset d + (p - base_vaddr d)) = unat (file_offset d) + (unat p - unat (base_vaddr d))"
    using cc r by (simp add: unat_word_ariths)
  then show ?thesis using in_chunk_iff [OF assms(1) c] c2 r by auto
qed

text \<open>In a good state \<^verbatim>\<open>find_by_file_offset\<close> finds the segment of every viewed byte.\<close>

lemma find_viewed:
  assumes inv: "world_inv e w" and l: "contiguous 0 (seg_layout w m)" and m: "managers w this = Some m"
    and v: "views w this off p"
  shows "\<exists>i d. i \<in> set (segments m) \<and> descs (proc w) (seg i) = Some d \<and> in_range (base_vaddr d) (size_of d) p \<and>
    find_segment_by_file_offset this off w = Some (seg i) \<and> seg i \<noteq> nullptr \<and>
    p = base_vaddr d + (off - file_offset d)"
proof -
  obtain i d where i: "i \<in> set (segments m)" and d: "descs (proc w) (seg i) = Some d"
    and r: "in_range (base_vaddr d) (size_of d) p" and off: "off = file_offset d + (p - base_vaddr d)"
    using v m by (auto simp: views_def)
  have f: "fits (plat e) (base_vaddr d) (size_of d)" "seg i \<noteq> nullptr" using world_seg_desc [OF inv m i] d by auto
  have "\<forall>i \<in> set (segments m). descs (proc w) (seg i) \<noteq> None" using world_seg_desc [OF inv m] by blast
  then have "find_segment_by_file_offset this off w = Some (seg i)"
    using find_by_offset_hit [OF m _ l i] view_chunk [OF l i d r f(1)] off by blast
  moreover have "p = base_vaddr d + (off - file_offset d)" using off by simp
  ultimately show ?thesis using i d r f by blast
qed

text \<open>A byte below the mapped size is viewed.\<close>

lemma views_exist:
  assumes inv: "world_inv e w" and l: "contiguous 0 (seg_layout w m)" and m: "managers w this = Some m"
    and k: "k < length (segments m)" "in_chunk (chunk_at w (segments m ! k)) off"
  shows "\<exists>p. views w this off p"
proof -
  let ?i = "segments m ! k"
  have i: "?i \<in> set (segments m)" using k by simp
  obtain d where d: "descs (proc w) (seg ?i) = Some d" and f: "fits (plat e) (base_vaddr d) (size_of d)"
    using world_seg_desc [OF inv m i] by blast
  have c: "chunk_at w ?i \<in> set (seg_layout w m)" using i by (simp add: seg_layout_def)
  have c2: "chunk_at w ?i = (file_offset d, size_of d)"
    using i d by (simp_all add: seg_layout_def chunk_at_def desc_chunk_def)
  have "unat (file_offset d) \<le> unat off" "unat off < unat (file_offset d) + unat (size_of d)"
    using in_chunk_iff [OF l c] k(2) c2 by simp_all
  then have u: "unat (off - file_offset d) < unat (size_of d)" by (simp add: unat_sub word_le_nat_alt)
  define p where "p = base_vaddr d + (off - file_offset d)"
  have "unat p = unat (base_vaddr d) + unat (off - file_offset d)"
    using u fits_no_wrap [OF f] by (simp add: p_def unat_word_ariths)
  then have "in_range (base_vaddr d) (size_of d) p" using u in_rangeI_unat fits_no_wrap [OF f] by simp
  moreover have "off = file_offset d + (p - base_vaddr d)" by (simp add: p_def)
  ultimately show ?thesis using m i d unfolding views_def by blast
qed

section \<open>Growth of a manager\<close>

text \<open>
  What every operation that adds segments guarantees: nothing that was mapped moves, and the
  Boost manager of a new segment is at its start.
\<close>

definition well_placed :: "'m env \<Rightarrow> 'm world \<Rightarrow> seg_info \<Rightarrow> bool" where
  "well_placed e w i \<longleftrightarrow> (\<exists>d. descs (proc w) (seg i) = Some d \<and> smgr i = base_vaddr d + smgr_offset e False)"

definition grown :: "'m env \<Rightarrow> u64 \<Rightarrow> 'm world \<Rightarrow> 'm world \<Rightarrow> bool" where
  "grown e this w w' \<longleftrightarrow>
     (\<exists>m new. managers w this = Some m \<and> managers w' = (managers w)(this \<mapsto> m\<lparr>segments := segments m @ new\<rparr>) \<and>
        (\<forall>i \<in> set new. well_placed e w' i)) \<and>
     (\<forall>v x. descs (proc w) v = Some x \<longrightarrow> descs (proc w') v = Some x) \<and>
     (\<forall>u. no_stale (proc w) u \<longrightarrow> no_stale (proc w') u) \<and>
     (\<forall>v x. registered (trie_cfg e) (plat e) (proc w) v x \<longrightarrow> registered (trie_cfg e) (plat e) (proc w') v x)"

lemma grown_unchanged: "unchanged w w' \<Longrightarrow> managers w this = Some m \<Longrightarrow> grown e this w w'"
  by (auto simp: grown_def unchanged_def intro!: exI [of _ m] exI [of _ "[]"])

lemma grown_trans:
  assumes "grown e this w w1" "grown e this w1 w2"
  shows "grown e this w w2"
proof -
  obtain m new where m: "managers w this = Some m" "\<forall>i \<in> set new. well_placed e w1 i"
    "managers w1 = (managers w)(this \<mapsto> m\<lparr>segments := segments m @ new\<rparr>)"
    using assms(1) by (auto simp: grown_def)
  obtain new' where n: "managers w2 = (managers w)(this \<mapsto> m\<lparr>segments := segments m @ new @ new'\<rparr>)"
      "\<forall>i \<in> set new'. well_placed e w2 i"
    using assms(2) m(3) by (auto simp: grown_def)
  have "well_placed e w2 i" if "well_placed e w1 i" for i
    using that assms(2) unfolding well_placed_def grown_def by blast
  then have "\<exists>m new. managers w this = Some m \<and> managers w2 = (managers w)(this \<mapsto> m\<lparr>segments := segments m @ new\<rparr>) \<and>
      (\<forall>i \<in> set new. well_placed e w2 i)"
    using m(1,2) n by (intro exI [of _ m] exI [of _ "new @ new'"]) auto
  then show ?thesis using assms by (simp add: grown_def)
qed

lemma grown_manager:
  "grown e this w w' \<Longrightarrow> managers w this = Some m \<Longrightarrow>
   \<exists>new. managers w' this = Some (m\<lparr>segments := segments m @ new\<rparr>) \<and> (\<forall>i \<in> set new. well_placed e w' i)"
  by (auto simp: grown_def)

lemma views_grown: "grown e this w w' \<Longrightarrow> views w this off p \<Longrightarrow> views w' this off p"
  by (auto simp: grown_def views_def) blast

lemma added_grown:
  "added e this m a d (base_vaddr d + smgr_offset e False) w w' \<Longrightarrow> managers w this = Some m \<Longrightarrow> grown e this w w'"
  unfolding grown_def
  by (intro conjI exI [of _ m] exI [of _ "[\<lparr>seg = a, smgr = base_vaddr d + smgr_offset e False\<rparr>]"])
    (simp_all add: added_def well_placed_def)

lemma added_layout:
  assumes "world_inv e w" "added e this m a d b w w'" "managers w this = Some m"
  shows "\<exists>m'. managers w' this = Some m' \<and> anon m' = anon m \<and> shm_root_name m' = shm_root_name m \<and>
    seg_layout w' m' = seg_layout w m @ [desc_chunk d]"
proof -
  have a: "descs (proc w) a = None" "descs (proc w') = (descs (proc w))(a \<mapsto> d)"
    and m': "managers w' this = Some (m\<lparr>segments := segments m @ [\<lparr>seg = a, smgr = b\<rparr>]\<rparr>)"
    using assms(2) by (simp_all add: added_def)
  have "chunk_at w' i = chunk_at w i" if "i \<in> set (segments m)" for i
    using world_seg_desc [OF assms(1,3) that] a by (auto simp: chunk_at_def)
  then show ?thesis using m' a by (auto simp: seg_layout_def chunk_at_def)
qed

lemma object_of_grown: "shm_root_name m' = shm_root_name m \<Longrightarrow> object_of e m' = object_of e m"
  by (simp add: object_of_def)

definition ent_chunk :: "segment_entry \<Rightarrow> u64 \<times> u64" where
  "ent_chunk x = (ent_file_offset x, ent_size x)"

lemma add_listed_spec:
  assumes env: "env_ok e" and "world_inv e w" "managers w this = Some m" "\<not> anon m"
    and "tbl = tables w (object_of e m)" "\<forall>i \<in> set is. i < length (entries tbl)"
  shows "\<exists>r w' k m'. add_listed e th this is w = Some (r, w') \<and> world_inv e w' \<and> grown e this w w' \<and>
    tables w' = tables w \<and> smgrs w' = smgrs w \<and> managers w' this = Some m' \<and> anon m' = anon m \<and>
    shm_root_name m' = shm_root_name m \<and>
    seg_layout w' m' = seg_layout w m @ map (\<lambda>i. ent_chunk (entries tbl ! i)) (take k is) \<and>
    (case r of
       Inl x \<Rightarrow> x \<in> {Runtime_error ''segmented_segment_manager: failed to map SHM chunk'', Terminate}
     | Inr _ \<Rightarrow> k = length is)"
  using assms(2-)
proof (induction "is" arbitrary: w m)
  case Nil
  then have "grown e this w w" by (intro grown_unchanged) (auto simp: unchanged_def)
  then show ?case using Nil by auto
next
  case (Cons i "is")
  let ?x = "entries tbl ! i"
  have i: "i < length (entries (tables w (object_of e m)))" using Cons.prems by simp
  obtain r w1 where run: "add_segment_shm e th this (ent_file_offset ?x) (ent_size ?x) False False False w = Some (r, w1)"
    and inv1: "world_inv e w1"
    and res: "case r of
       Inl x \<Rightarrow> x \<in> {Runtime_error ''segmented_segment_manager: failed to map SHM chunk'', Terminate} \<and> unchanged w w1
     | Inr _ \<Rightarrow> \<exists>a d. added e this m a d (base_vaddr d + smgr_offset e False) w w1 \<and> size_of d = ent_size ?x \<and>
         \<not> is_primary d \<and> file_offset d = ent_file_offset ?x \<and> tables w1 = tables w \<and> smgrs w1 = smgrs w"
    using add_segment_shm_spec [OF env Cons.prems(1-3), of th "ent_file_offset ?x" "ent_size ?x" False False False,
        unfolded if_False simp_thms]
    by blast
  have step: "add_listed e th this (i # is) w =
      (case r of Inl x \<Rightarrow> Some (Inl x, w1) | Inr _ \<Rightarrow> add_listed e th this is w1)"
    using Cons.prems i run by (simp add: Let_def)
  show ?case
  proof (cases r)
    case (Inl x)
    then have u: "unchanged w w1" using res by simp
    then have "seg_layout w1 m = seg_layout w m" by (simp add: unchanged_def seg_layout_def chunk_at_def)
    then show ?thesis using Inl u res step inv1 Cons.prems grown_unchanged [OF u, of this m e]
      by (intro exI [of _ "Inl x"] exI [of _ w1] exI [of _ 0] exI [of _ m]) (simp add: unchanged_def)
  next
    case (Inr u)
    then obtain a d where ad: "added e this m a d (base_vaddr d + smgr_offset e False) w w1"
      and d: "desc_chunk d = ent_chunk ?x" and t: "tables w1 = tables w" "smgrs w1 = smgrs w"
      using res by (auto simp: desc_chunk_def ent_chunk_def)
    obtain m1 where m1: "managers w1 this = Some m1" "anon m1 = anon m" "shm_root_name m1 = shm_root_name m"
      "seg_layout w1 m1 = seg_layout w m @ [desc_chunk d]"
      using added_layout [OF Cons.prems(1) ad Cons.prems(2)] by blast
    have "tbl = tables w1 (object_of e m1)" using Cons.prems(4) t m1(3) object_of_grown by metis
    from Cons.IH [OF inv1 m1(1) _ this] obtain r' w' k m' where ih: "add_listed e th this is w1 = Some (r', w')"
      "world_inv e w'" "grown e this w1 w'" "tables w' = tables w1" "smgrs w' = smgrs w1" "managers w' this = Some m'"
      "anon m' = anon m1" "shm_root_name m' = shm_root_name m1"
      "seg_layout w' m' = seg_layout w1 m1 @ map (\<lambda>i. ent_chunk (entries tbl ! i)) (take k is)"
      "case r' of
         Inl x \<Rightarrow> x \<in> {Runtime_error ''segmented_segment_manager: failed to map SHM chunk'', Terminate}
       | Inr _ \<Rightarrow> k = length is"
      using Cons.prems(3,5) m1(2) by auto
    have "grown e this w w'" using grown_trans [OF added_grown [OF ad Cons.prems(2)] ih(3)] .
    then show ?thesis using Inr step ih m1 t d
      by (intro exI [of _ r'] exI [of _ w'] exI [of _ "Suc k"] exI [of _ m']) (simp split: sum.splits)
  qed
qed

section \<open>Lazy discovery\<close>

definition total_size :: "(u64 \<times> u64) list \<Rightarrow> nat" where
  "total_size cs = sum_list (map (unat \<circ> snd) cs)"

lemma total_size_append [simp]: "total_size (cs @ ds) = total_size cs + total_size ds"
  by (simp add: total_size_def)

lemma contiguous_total: "contiguous n cs \<Longrightarrow> n + total_size cs < 2 ^ 64"
  by (induction n cs rule: contiguous.induct) (auto simp: total_size_def)

lemma unat_sum_chunks:
  "unat acc + total_size cs < 2 ^ 64 \<Longrightarrow> unat (foldl (\<lambda>n c. n + snd c) acc cs) = unat acc + total_size cs"
proof (induction cs arbitrary: acc)
  case (Cons c cs)
  then have "unat (acc + snd c) = unat acc + unat (snd c)" by (simp add: total_size_def unat_word_ariths)
  then show ?case using Cons by (simp add: total_size_def)
qed (simp add: total_size_def)

lemma size_of_segments_eq:
  "\<forall>i \<in> set is. descs (proc w) (seg i) \<noteq> None \<Longrightarrow>
   size_of_segments w is acc = Some (foldl (\<lambda>n c. n + snd c) acc (map (chunk_at w) is))"
  by (induction "is" arbitrary: acc) (auto simp: chunk_at_def desc_chunk_def)

lemma mapped_size:
  assumes "world_inv e w" "managers w this = Some m" "contiguous 0 (seg_layout w m)"
  shows "\<exists>n. size_of_segments w (segments m) 0 = Some n \<and> unat n = total_size (seg_layout w m) \<and>
    n = foldl (\<lambda>n c. n + snd c) 0 (seg_layout w m)"
proof -
  have "size_of_segments w (segments m) 0 = Some (foldl (\<lambda>n c. n + snd c) 0 (seg_layout w m))"
    using world_seg_desc [OF assms(1,2)] unfolding seg_layout_def by (intro size_of_segments_eq) blast
  then show ?thesis using unat_sum_chunks [of 0 "seg_layout w m"] contiguous_total [OF assms(3)] by simp
qed

lemma layout_okI:
  assumes "layout_ok e w this" "managers w this = Some m" "managers w' this = Some m'" "anon m' = anon m"
    "shm_root_name m' = shm_root_name m" "tables w' = tables w" "grown e this w w'"
    "table_layout (tables w (object_of e m)) = seg_layout w' m' @ rest"
  shows "layout_ok e w' this"
proof -
  obtain new where "managers w' this = Some (m\<lparr>segments := segments m @ new\<rparr>)"
    using grown_manager [OF assms(7,2)] by blast
  then have m': "m' = m\<lparr>segments := segments m @ new\<rparr>" using assms(3) by simp
  moreover have "\<forall>v x. descs (proc w) v = Some x \<longrightarrow> descs (proc w') v = Some x" using assms(7) by (simp add: grown_def)
  moreover have "segments m \<noteq> []" "\<exists>d. descs (proc w) (seg (hd (segments m))) = Some d \<and> is_primary d"
    using assms(1,2) by (auto simp: layout_ok_def)
  ultimately have "\<exists>d. descs (proc w') (seg (hd (segments m'))) = Some d \<and> is_primary d" "segments m' \<noteq> []"
    by auto
  then show ?thesis using assms object_of_grown [OF assms(5), of e] by (auto simp: layout_ok_def)
qed

lemma table_tail:
  assumes "table_layout tbl = cs @ rest" "unat (count tbl) \<le> length (entries tbl)"
  shows "rest = map (\<lambda>i. ent_chunk (entries tbl ! i)) [length cs..<unat (count tbl)]"
proof -
  have "table_layout tbl = map (\<lambda>i. ent_chunk (entries tbl ! i)) [0..<unat (count tbl)]"
    using assms(2) by (auto simp: table_layout_def ent_chunk_def intro!: nth_equalityI)
  moreover have "rest = drop (length cs) (table_layout tbl)" using assms(1) by simp
  ultimately show ?thesis by (simp add: drop_map)
qed

lemma take_prefix: "table = cs @ rest \<Longrightarrow> \<exists>rest'. table = (cs @ take k rest) @ rest'"
  by (metis append.assoc append_take_drop_id)

lemma lazy_discover_spec:
  assumes env: "env_ok e" and inv: "world_inv e w" and l: "layout_ok e w this" and m: "managers w this = Some m"
  defines "tlay \<equiv> table_layout (tables w (object_of e m))"
  shows "\<exists>r w' m'. lazy_discover_growth e th this required w = Some (r, w') \<and> world_inv e w' \<and> grown e this w w' \<and>
    tables w' = tables w \<and> smgrs w' = smgrs w \<and> layout_ok e w' this \<and> managers w' this = Some m' \<and>
    (case r of
       Inl x \<Rightarrow> x \<in> {Runtime_error ''segmented_segment_manager: failed to map SHM chunk'', Terminate}
     | Inr b \<Rightarrow> (b \<longleftrightarrow> unat required < total_size tlay) \<and> (b \<longrightarrow> unat required < total_size (seg_layout w' m')))"
proof -
  let ?tbl = "tables w (object_of e m)"
  obtain rest where na: "\<not> anon m" and ne: "segments m \<noteq> []" and len: "length (entries ?tbl) = kMaxSubSegments"
    and cnt: "unat (count ?tbl) \<le> kMaxSubSegments" and ct: "contiguous 0 tlay" and tl: "tlay = seg_layout w m @ rest"
    using l m by (auto simp: layout_ok_def tlay_def)
  have c: "contiguous 0 (seg_layout w m)" using layout_contiguous [OF l m] .
  obtain n where n: "size_of_segments w (segments m) 0 = Some n" "unat n = total_size (seg_layout w m)"
    "n = foldl (\<lambda>n c. n + snd c) 0 (seg_layout w m)"
    using mapped_size [OF inv m c] by blast
  have refl: "grown e this w w" using m by (intro grown_unchanged) (auto simp: unchanged_def)
  show ?thesis
  proof (cases "required < n")
    case True
    then have "unat required < total_size (seg_layout w m)" using n(2) by (simp add: word_less_nat_alt)
    moreover have "lazy_discover_growth e th this required w = Some (Inr True, w)"
      using m na n True by (simp add: lazy_discover_growth_def)
    ultimately show ?thesis using inv refl l m tl
      by (intro exI [of _ "Inr True"] exI [of _ w] exI [of _ m]) simp
  next
    case False
    then have big: "total_size (seg_layout w m) \<le> unat required" using n(2) by (simp add: word_less_nat_alt)
    define idxs where "idxs = [length (segments m)..<unat (count ?tbl)]"
    have ls: "length (seg_layout w m) = length (segments m)" by (simp add: seg_layout_def)
    have rest: "rest = map (\<lambda>i. ent_chunk (entries ?tbl ! i)) idxs"
      using table_tail [of ?tbl "seg_layout w m" rest] tl cnt len by (simp add: tlay_def idxs_def ls)
    define mapped where "mapped = foldl (\<lambda>n i. n + ent_size (entries ?tbl ! i)) n idxs"
    have "mapped = foldl (\<lambda>n c. n + snd c) 0 tlay"
      by (simp add: mapped_def tl rest n(3) foldl_map ent_chunk_def)
    then have mp: "unat mapped = total_size tlay" using unat_sum_chunks [of 0 tlay] contiguous_total [OF ct] by simp
    have "\<forall>i \<in> set idxs. i < length (entries ?tbl)" using cnt len by (auto simp: idxs_def)
    then obtain r w' k m' where a: "add_listed e th this idxs w = Some (r, w')" "world_inv e w'" "grown e this w w'"
      "tables w' = tables w" "smgrs w' = smgrs w" "managers w' this = Some m'" "anon m' = anon m"
      "shm_root_name m' = shm_root_name m"
      "seg_layout w' m' = seg_layout w m @ map (\<lambda>i. ent_chunk (entries ?tbl ! i)) (take k idxs)"
      and res: "case r of
         Inl x \<Rightarrow> x \<in> {Runtime_error ''segmented_segment_manager: failed to map SHM chunk'', Terminate}
       | Inr _ \<Rightarrow> k = length idxs"
      using add_listed_spec [OF env inv m na, of ?tbl idxs th] by blast
    have run: "lazy_discover_growth e th this required w =
        Some (case r of Inl x \<Rightarrow> Inl x | Inr _ \<Rightarrow> Inr (idxs \<noteq> [] \<and> required < mapped), w')"
      using m na n False a(1) by (simp add: lazy_discover_growth_def Let_def idxs_def mapped_def split: sum.split)
    have "\<exists>rest'. tlay = seg_layout w' m' @ rest'" using take_prefix [OF tl, of k] a(9) rest by (simp add: take_map)
    then have l': "layout_ok e w' this" using layout_okI [OF l m a(6,7,8,4,3)] by (auto simp: tlay_def)
    show ?thesis
    proof (cases r)
      case (Inl x)
      then show ?thesis using run a l' res by (intro exI [of _ "Inl x"] exI [of _ w'] exI [of _ m']) simp
    next
      case (Inr u)
      then have full: "seg_layout w' m' = tlay" using a(9) res tl rest by simp
      have "(idxs \<noteq> [] \<and> required < mapped) \<longleftrightarrow> unat required < total_size tlay"
        using mp big tl rest by (auto simp: word_less_nat_alt total_size_def)
      then show ?thesis using Inr run a l' full
        by (intro exI [of _ "Inr (idxs \<noteq> [] \<and> required < mapped)"] exI [of _ w'] exI [of _ m']) simp
    qed
  qed
qed

end
