(* ===== verification/World_Steps.thy ===== *)
theory World_Steps
  imports Manager_Layout
begin

text \<open>
  The elementary steps of a descriptor's life, each of which keeps the invariant of the world:
  a new descriptor, its registration, a change of its fields, its removal from the registry and
  its deletion. The operations that open and destroy managers are sequences of these steps.
\<close>

section \<open>Parts of a world\<close>

text \<open>No manager lists the descriptor, no page maps to it, and no cache names it.\<close>

definition unlisted :: "'m world \<Rightarrow> u64 \<Rightarrow> bool" where
  "unlisted w a \<longleftrightarrow> (\<forall>this m i. managers w this = Some m \<longrightarrow> i \<in> set (segments m) \<longrightarrow> seg i \<noteq> a)"

definition unmapped :: "'m env \<Rightarrow> 'm world \<Rightarrow> u64 \<Rightarrow> bool" where
  "unmapped e w a \<longleftrightarrow> (\<forall>q. lookup_page (trie_cfg e) (trie (proc w)) q \<noteq> Some a)"

definition uncached :: "'m world \<Rightarrow> u64 \<Rightarrow> bool" where
  "uncached w a \<longleftrightarrow> (\<forall>th. \<forall>x \<in> set (tls (proc w) th). e_seg x \<noteq> a)"

lemma unmapped_not_listed:
  assumes "world_inv e w" "unmapped e w a"
  shows "unlisted w a"
  unfolding unlisted_def
proof (intro allI impI notI)
  fix this m i assume "managers w this = Some m" "i \<in> set (segments m)" "seg i = a"
  then obtain d where "registered (trie_cfg e) (plat e) (proc w) a d" using world_seg_desc [OF assms(1)] by blast
  then show False using assms(2) unmapped_not_registered unfolding unmapped_def by metis
qed

lemma world_inv_sub:
  assumes "world_inv e w"
    and "\<And>this m'. f this = Some m' \<Longrightarrow> \<exists>m. managers w this = Some m \<and> anon m' = anon m \<and>
      distinct (map seg (segments m')) \<and> set (segments m') \<subseteq> set (segments m)"
  shows "world_inv e (w\<lparr>managers := f\<rparr>)"
proof -
  have "distinct (map seg (segments m')) \<and> (\<forall>i \<in> set (segments m'). seg_ok e (w\<lparr>managers := f\<rparr>) this m' i)"
    if "f this = Some m'" for this m'
  proof -
    obtain m where m: "managers w this = Some m" "anon m' = anon m" "distinct (map seg (segments m'))"
      "set (segments m') \<subseteq> set (segments m)"
      using assms(2) [OF \<open>f this = Some m'\<close>] by blast
    then show ?thesis using world_seg [OF assms(1) m(1)] by (auto simp: seg_ok_def)
  qed
  then show ?thesis using assms(1) by (simp add: world_inv_def desc_ok_def)
qed

section \<open>Steps\<close>

lemma new_step:
  assumes env: "env_ok e" and inv: "world_inv e w"
    and f: "(Some d, h') \<in> factories (kernel e) (plat e) name sz off (hist w)"
    and a: "a = new_sub_segment e (proc w)" "a \<noteq> nullptr"
  defines "w1 \<equiv> w\<lparr>hist := h', proc := (proc w)\<lparr>descs := (descs (proc w))(a \<mapsto> d)\<rparr>\<rparr>"
  shows "world_inv e w1" "unmapped e w1 a" "uncached w1 a" "descs (proc w) a = None" "descs (proc w1) a = Some d"
    "\<And>v x. registered (trie_cfg e) (plat e) (proc w) v x \<Longrightarrow> registered (trie_cfg e) (plat e) (proc w1) v x"
proof -
  have mm: "mmap_ok (kernel e) (plat e)" and nw: "new_ok (new_sub_segment e)" using env by (simp_all add: env_ok_def)
  note fm = factory_mmap [OF mm f]
  have fresh: "even a" "descs (proc w) a = None" using new_ok_fresh [OF nw] a by simp_all
  then show "descs (proc w) a = None" "descs (proc w1) a = Some d" by (simp_all add: w1_def)
  show "uncached w1 a" using new_ok_fresh(3) [OF nw] a by (simp add: uncached_def w1_def)
  show um: "unmapped e w1 a"
    unfolding unmapped_def
  proof (intro allI notI)
    fix q assume "lookup_page (trie_cfg e) (trie (proc w1)) q = Some a"
    then obtain x where "registered (trie_cfg e) (plat e) (proc w) a x" using world_own [OF inv] a(2) by (auto simp: w1_def)
    then show False using fresh(2) by (simp add: registered_def)
  qed
  show keep: "registered (trie_cfg e) (plat e) (proc w1) v x" if "registered (trie_cfg e) (plat e) (proc w) v x" for v x
    using that fresh(2) by (auto simp: registered_def w1_def)
  have reg: "reg_inv (trie_cfg e) (plat e) (proc w1)"
    using reg_inv_descs [OF world_reg [OF inv], of a "Some d"] fresh(2) by (simp add: registered_def w1_def)
  have ok: "desc_ok e w1 v x" if "descs (proc w1) v = Some x" for v x
  proof (cases "v = a")
    case True
    then show ?thesis using that fm a(2) fresh(1) by (simp add: desc_ok_def w1_def)
  next
    case False
    then have "desc_ok e w v x" using that world_desc [OF inv] by (simp add: w1_def)
    then show ?thesis using fm(3) by (simp add: desc_ok_def w1_def)
  qed
  have new: "pages_disjoint (plat e) (base_vaddr d, size_of d) (base_vaddr x, size_of x)"
    if "descs (proc w) v = Some x" for v x
    using world_desc [OF inv that] fm(2,4) by (simp add: desc_ok_def)
  have dj: "pages_disjoint (plat e) (base_vaddr x, size_of x) (base_vaddr y, size_of y)"
    if "descs (proc w1) u = Some x" "descs (proc w1) v = Some y" "u \<noteq> v" for u v x y
    using that new [of u x] new [of v y] world_disjoint [OF inv, of u x v y]
    by (auto simp: pages_disjoint_sym w1_def split: if_splits)
  have "seg_ok e w1 this m i" if "managers w this = Some m" "i \<in> set (segments m)" for this m i
    using world_seg [OF inv that] keep unfolding seg_ok_def by blast
  then show "world_inv e w1"
    using reg ok dj world_distinct [OF inv] unfolding world_inv_def by (simp add: w1_def)
qed

lemma register_step:
  assumes env: "env_ok e" and inv: "world_inv e w" and d: "descs (proc w) a = Some d"
    and um: "unmapped e w a" and uc: "uncached w a"
  shows "\<exists>p. register_segment (trie_cfg e) (plat e) th a (proc w) = Some p \<and> world_inv e (w\<lparr>proc := p\<rparr>) \<and>
    registered (trie_cfg e) (plat e) p a d \<and> descs p = descs (proc w) \<and>
    (\<forall>v x. registered (trie_cfg e) (plat e) (proc w) v x \<longrightarrow> registered (trie_cfg e) (plat e) p v x) \<and>
    (\<forall>u. no_stale (proc w) u \<longrightarrow> no_stale p u) \<and> no_stale p th"
proof -
  let ?c = "trie_cfg e" and ?pl = "plat e"
  have ok: "desc_ok e w a d" using world_desc [OF inv d] .
  then have fits: "fits ?pl (base_vaddr d) (size_of d)" by (simp add: desc_ok_def)
  have free: "lookup_page ?c (trie (proc w)) q = Some 0" if q: "seg_page ?c ?pl d q" for q
  proof (rule ccontr)
    assume nz: "lookup_page ?c (trie (proc w)) q \<noteq> Some 0"
    have "trie_ready ?c (trie (proc w))" using inv by (simp add: world_inv_def reg_inv_def)
    then obtain v where v: "lookup_page ?c (trie (proc w)) q = Some v" using trie.lookup_total by blast
    then obtain b where "registered ?c ?pl (proc w) v b" using world_own [OF inv v] nz v by auto
    then have b: "descs (proc w) v = Some b" "seg_page ?c ?pl b q" using v by (simp_all add: registered_def)
    have "v \<noteq> a" using um v by (auto simp: unmapped_def)
    then have "pages_disjoint ?pl (base_vaddr d, size_of d) (base_vaddr b, size_of b)"
      using world_disjoint [OF inv d b(1)] by simp
    moreover have "fits ?pl (base_vaddr b) (size_of b)" using world_desc [OF inv b(1)] by (simp add: desc_ok_def)
    ultimately show False using disjoint_pages_unmapped [OF env fits _ _ q] b(2) by blast
  qed
  have can: "can_register ?c ?pl (proc w) a d"
    using d ok free uc fits_range_ok [OF fits] fits_base_addr [OF fits]
    by (simp add: can_register_def desc_ok_def uncached_def)
  obtain p where p: "register_segment ?c ?pl th a (proc w) = Some p" "reg_inv ?c ?pl p" "registered ?c ?pl p a d"
      "descs p = descs (proc w)"
    and lk: "\<forall>q. lookup_page ?c (trie p) q = (if seg_page ?c ?pl d q then Some a else lookup_page ?c (trie (proc w)) q)"
    using register_spec [OF world_reg [OF inv] can, of th] by blast
  have keep: "registered ?c ?pl p v x" if r: "registered ?c ?pl (proc w) v x" for v x
  proof (rule registered_mono [OF r can _ lk])
    show "v \<noteq> a" using um unmapped_not_registered [of ?c "proc w" a ?pl x] r by (auto simp: unmapped_def)
    show "descs p v = Some x" using r p(4) by (simp add: registered_def)
  qed
  have "seg_ok e (w\<lparr>proc := p\<rparr>) this m i" if "managers w this = Some m" "i \<in> set (segments m)" for this m i
    using world_seg [OF inv that] keep unfolding seg_ok_def by auto
  then have "world_inv e (w\<lparr>proc := p\<rparr>)"
    using p(2,4) inv unfolding world_inv_def by (simp add: desc_ok_def)
  moreover have "no_stale p u" if "no_stale (proc w) u" for u
    using register_no_stale [OF world_reg [OF inv] can p(1) that] .
  moreover have "no_stale p th" using register_cache(1) [OF world_reg [OF inv] can p(1)] .
  ultimately show ?thesis using p keep by blast
qed

text \<open>The fields of a descriptor that no manager lists may change, except where it is mapped.\<close>

lemma update_step:
  assumes inv: "world_inv e w" and d: "descs (proc w) a = Some d" and u: "unlisted w a"
    and d': "base_vaddr d' = base_vaddr d" "size_of d' = size_of d"
  defines "w1 \<equiv> w\<lparr>proc := (proc w)\<lparr>descs := (descs (proc w))(a \<mapsto> d')\<rparr>\<rparr>"
  shows "world_inv e w1"
    "\<And>v x. registered (trie_cfg e) (plat e) (proc w) v x \<Longrightarrow>
       registered (trie_cfg e) (plat e) (proc w1) v (if v = a then d' else x)"
proof -
  have b: "base_addr (plat e) d' = base_addr (plat e) d" using d'(1) by (simp add: base_addr_def)
  show keep: "registered (trie_cfg e) (plat e) (proc w1) v (if v = a then d' else x)"
    if "registered (trie_cfg e) (plat e) (proc w) v x" for v x
    using that d d'(2) b by (cases "v = a") (simp_all add: registered_def w1_def seg_page_def)
  have "reg_inv (trie_cfg e) (plat e) ((proc w)\<lparr>descs := (descs (proc w))(a := Some d')\<rparr>)"
    by (rule reg_inv_descs [OF world_reg [OF inv]]) (use d d'(2) b in \<open>simp add: registered_def\<close>)
  then have reg: "reg_inv (trie_cfg e) (plat e) (proc w1)" by (simp add: w1_def)
  have ok: "desc_ok e w1 v x" if x: "descs (proc w1) v = Some x" for v x
  proof (cases "v = a")
    case True
    then show ?thesis using x d' world_desc [OF inv d] by (simp add: desc_ok_def w1_def)
  next
    case False
    then show ?thesis using x world_desc [OF inv, of v x] by (simp add: desc_ok_def w1_def)
  qed
  have dj: "pages_disjoint (plat e) (base_vaddr x, size_of x) (base_vaddr y, size_of y)"
    if l: "descs (proc w1) u = Some x" "descs (proc w1) v = Some y" "u \<noteq> v" for u v x y
  proof -
    have *: "\<exists>x0. descs (proc w) b = Some x0 \<and> base_vaddr y = base_vaddr x0 \<and> size_of y = size_of x0"
      if "descs (proc w1) b = Some y" for b y
      using that d d' by (auto simp: w1_def split: if_splits)
    obtain x0 y0 where "descs (proc w) u = Some x0" "base_vaddr x = base_vaddr x0" "size_of x = size_of x0"
      "descs (proc w) v = Some y0" "base_vaddr y = base_vaddr y0" "size_of y = size_of y0"
      using * [OF l(1)] * [OF l(2)] by blast
    then show ?thesis using world_disjoint [OF inv _ _ l(3)] by simp
  qed
  have "seg_ok e w1 this m i" if l: "managers w this = Some m" "i \<in> set (segments m)" for this m i
  proof -
    have "seg i \<noteq> a" using u l by (auto simp: unlisted_def)
    moreover obtain x where "registered (trie_cfg e) (plat e) (proc w) (seg i) x" "manager x = this"
      "is_anon x = anon m" "discover_growth_fn x" "find_by_file_offset_fn x"
      using world_seg [OF inv l] by (auto simp: seg_ok_def)
    ultimately show ?thesis using keep [of "seg i" x] unfolding seg_ok_def by (intro exI [of _ x]) simp
  qed
  then show "world_inv e w1"
    using reg ok dj world_distinct [OF inv] unfolding world_inv_def by (simp add: w1_def)
qed

lemma unregister_step:
  assumes inv: "world_inv e w" and r: "registered (trie_cfg e) (plat e) (proc w) a d" and u: "unlisted w a"
  shows "\<exists>p. unregister_segment (trie_cfg e) (plat e) th a (proc w) = Some p \<and> world_inv e (w\<lparr>proc := p\<rparr>) \<and>
    unmapped e (w\<lparr>proc := p\<rparr>) a \<and> descs p = descs (proc w) \<and>
    (\<forall>v x. v \<noteq> a \<longrightarrow> registered (trie_cfg e) (plat e) (proc w) v x \<longrightarrow> registered (trie_cfg e) (plat e) p v x) \<and>
    (\<forall>v. unmapped e w v \<longrightarrow> v \<noteq> nullptr \<longrightarrow> unmapped e (w\<lparr>proc := p\<rparr>) v)"
proof -
  let ?c = "trie_cfg e" and ?pl = "plat e"
  obtain p where p: "unregister_segment ?c ?pl th a (proc w) = Some p" "reg_inv ?c ?pl p" "descs p = descs (proc w)"
    and lk: "\<forall>q. lookup_page ?c (trie p) q = (if seg_page ?c ?pl d q then Some nullptr else lookup_page ?c (trie (proc w)) q)"
    using unregister_spec [OF world_reg [OF inv] r, of th] by blast
  have nz: "a \<noteq> 0" using r by (simp add: registered_def)
  have pages: "lookup_page ?c (trie (proc w)) q = Some a \<longleftrightarrow> seg_page ?c ?pl d q" for q
    using r by (simp add: registered_def)
  have same: "lookup_page ?c (trie p) q = Some v \<longleftrightarrow> lookup_page ?c (trie (proc w)) q = Some v \<and> v \<noteq> a" if "v \<noteq> 0" for q v
    using spec [OF lk, of q] pages [of q] that nz by auto
  have keep: "registered ?c ?pl p v x" if "v \<noteq> a" "registered ?c ?pl (proc w) v x" for v x
    using that same [of v] p(3) by (simp add: registered_def)
  have "seg_ok e (w\<lparr>proc := p\<rparr>) this m i" if l: "managers w this = Some m" "i \<in> set (segments m)" for this m i
  proof -
    have "seg i \<noteq> a" using u l by (auto simp: unlisted_def)
    then show ?thesis using world_seg [OF inv l] keep unfolding seg_ok_def by auto
  qed
  then have "world_inv e (w\<lparr>proc := p\<rparr>)"
    using p(2,3) inv unfolding world_inv_def by (simp add: desc_ok_def)
  moreover have "unmapped e (w\<lparr>proc := p\<rparr>) a" using same [OF nz] by (simp add: unmapped_def)
  moreover have "unmapped e (w\<lparr>proc := p\<rparr>) v" if "unmapped e w v" "v \<noteq> nullptr" for v
    using that same by (simp add: unmapped_def)
  ultimately show ?thesis using p keep by blast
qed


lemma delete_step:
  assumes inv: "world_inv e w" and d: "descs (proc w) a = Some d" and um: "unmapped e w a"
  shows "\<exists>h. delete_desc e a w = Some (w\<lparr>hist := h, proc := (proc w)\<lparr>descs := (descs (proc w))(a := None)\<rparr>\<rparr>) \<and>
    live_maps h = remove1 (base_vaddr d, size_of d) (live_maps (hist w)) \<and>
    world_inv e (w\<lparr>hist := h, proc := (proc w)\<lparr>descs := (descs (proc w))(a := None)\<rparr>\<rparr>)"
proof -
  let ?c = "trie_cfg e" and ?pl = "plat e"
  define h where "h = destroy_sub_segment (kernel e) ?pl d (hist w)"
  define w1 where "w1 = w\<lparr>hist := h, proc := (proc w)\<lparr>descs := (descs (proc w))(a := None)\<rparr>\<rparr>"
  have ok: "desc_ok e w a d" using world_desc [OF inv d] .
  have fits: "fits ?pl (base_vaddr d) (size_of d)" using ok by (simp add: desc_ok_def)
  have "unat (MAP_FAILED) = 2 ^ 64 - 1" by (simp add: MAP_FAILED_def unsigned_minus_1_eq_mask mask_eq_exp_minus_1)
  moreover have "unat (base_vaddr d) < 2 ^ 47" using fits_no_wrap [OF fits] by simp
  ultimately have "base_vaddr d \<noteq> MAP_FAILED" by auto
  moreover have "base_vaddr d \<noteq> nullptr" using fits by (simp add: fits_def)
  ultimately have h: "live_maps h = remove1 (base_vaddr d, size_of d) (live_maps (hist w))"
    unfolding h_def by (intro destroy_maps)
  have nr: "\<not> registered ?c ?pl (proc w) a x" for x
    using um unmapped_not_registered [of ?c "proc w" a ?pl x] by (simp add: unmapped_def)
  have reg: "reg_inv ?c ?pl (proc w1)"
    using reg_inv_descs [OF world_reg [OF inv], of a None] nr by (simp add: w1_def)
  have keep: "registered ?c ?pl (proc w1) v x" if "registered ?c ?pl (proc w) v x" for v x
    using that nr by (auto simp: registered_def w1_def)
  have ok': "desc_ok e w1 v x" if x: "descs (proc w1) v = Some x" for v x
  proof -
    have v: "v \<noteq> a" "descs (proc w) v = Some x" using x by (auto simp: w1_def split: if_splits)
    have "pages_disjoint ?pl (base_vaddr d, size_of d) (base_vaddr x, size_of x)"
      using world_disjoint [OF inv d v(2)] v(1) by simp
    moreover have "{page_begin ?pl (base_vaddr d)..<page_end ?pl (base_vaddr d) (size_of d)} \<noteq> {}"
      using page_of_in_range [OF fits_range_ok [OF fits] base_in_range [OF fits_range_ok [OF fits]]] by auto
    ultimately have "(base_vaddr x, size_of x) \<noteq> (base_vaddr d, size_of d)" by (auto simp: pages_disjoint_def)
    then show ?thesis using world_desc [OF inv v(2)] h by (simp add: desc_ok_def w1_def in_set_remove1)
  qed
  have dj: "pages_disjoint ?pl (base_vaddr x, size_of x) (base_vaddr y, size_of y)"
    if "descs (proc w1) u = Some x" "descs (proc w1) v = Some y" "u \<noteq> v" for u v x y
    using that world_disjoint [OF inv, of u x v y] by (auto simp: w1_def split: if_splits)
  have "seg_ok e w1 this m i" if "managers w this = Some m" "i \<in> set (segments m)" for this m i
    using world_seg [OF inv that] keep unfolding seg_ok_def by blast
  then have "world_inv e w1"
    using reg ok' dj world_distinct [OF inv] unfolding world_inv_def by (simp add: w1_def)
  then show ?thesis using d h by (auto simp: delete_desc_def h_def w1_def)
qed


lemma push_step:
  assumes inv: "world_inv e w" and m: "managers w this = Some m" and u: "unlisted w a"
    and d: "registered (trie_cfg e) (plat e) (proc w) a d" "manager d = this" "is_anon d = anon m"
      "discover_growth_fn d" "find_by_file_offset_fn d"
  shows "\<exists>w'. push_segment this \<lparr>seg = a, smgr = b\<rparr> w = Some w' \<and> world_inv e w' \<and>
    w' = w\<lparr>managers := (managers w)(this \<mapsto> m\<lparr>segments := segments m @ [\<lparr>seg = a, smgr = b\<rparr>]\<rparr>)\<rparr>"
proof -
  let ?m' = "m\<lparr>segments := segments m @ [\<lparr>seg = a, smgr = b\<rparr>]\<rparr>"
  define w' where "w' = w\<lparr>managers := (managers w)(this \<mapsto> ?m')\<rparr>"
  have "a \<notin> seg ` set (segments m)" using u m by (auto simp: unlisted_def)
  then have dist: "distinct (map seg (segments m'))" if "managers w' this' = Some m'" for this' m'
    using that world_distinct [OF inv] m by (auto simp: w'_def split: if_splits)
  have "seg_ok e w' this' m' i" if l: "managers w' this' = Some m'" "i \<in> set (segments m')" for this' m' i
  proof (cases "this' = this \<and> i = \<lparr>seg = a, smgr = b\<rparr>")
    case True
    then show ?thesis using d l by (auto simp: seg_ok_def w'_def)
  next
    case False
    then obtain m0 where m0: "managers w this' = Some m0" "i \<in> set (segments m0)" "anon m' = anon m0"
      using l m by (auto simp: w'_def split: if_splits)
    show ?thesis using world_seg [OF inv m0(1,2)] m0(3) by (simp add: seg_ok_def w'_def)
  qed
  then have "world_inv e w'" using inv dist unfolding world_inv_def by (simp add: w'_def desc_ok_def)
  then show ?thesis using m by (simp add: push_segment_def w'_def)
qed

end
