(* ===== verification/Manager_Ops.thy ===== *)
theory Manager_Ops
  imports Manager_Layout
begin

text \<open>
  What the operations of the segment manager do to its state: construction of anonymous and of
  shared-memory managers, and growth. Each keeps the invariant of the world,
  and those on shared memory keep the layout of the file.
\<close>

section \<open>Construction\<close>

lemma world_inv_fresh_manager:
  assumes "world_inv e w" "segments m = []"
  shows "world_inv e (w\<lparr>managers := (managers w)(this \<mapsto> m)\<rparr>)"
  using assms by (auto simp: world_inv_def desc_ok_def seg_ok_def)

lemma world_inv_drop_manager: "world_inv e w \<Longrightarrow> world_inv e (w\<lparr>managers := (managers w)(this := None)\<rparr>)"
  by (auto simp: world_inv_def desc_ok_def seg_ok_def)

lemma world_inv_irrelevant [simp]:
  "world_inv e (w\<lparr>prefetch := c\<rparr>) \<longleftrightarrow> world_inv e w"
  "world_inv e (w\<lparr>tables := t\<rparr>) \<longleftrightarrow> world_inv e w"
  "world_inv e (w\<lparr>smgrs := s\<rparr>) \<longleftrightarrow> world_inv e w"
  by (simp_all add: world_inv_def desc_ok_def seg_ok_def)

lemma seg_layout_irrelevant [simp]:
  "seg_layout (w\<lparr>prefetch := c\<rparr>) m = seg_layout w m" "seg_layout (w\<lparr>tables := t\<rparr>) m = seg_layout w m"
  "seg_layout (w\<lparr>smgrs := s\<rparr>) m = seg_layout w m" "seg_layout (w\<lparr>hist := h\<rparr>) m = seg_layout w m"
  "seg_layout (w\<lparr>managers := f\<rparr>) m = seg_layout w m"
  by (simp_all add: seg_layout_def chunk_at_def)

text \<open>Every entry of \<^verbatim>\<open>segments_\<close> points to a Boost manager, and the process has mapped all of the table.\<close>

definition usable :: "'m env \<Rightarrow> 'm world \<Rightarrow> u64 \<Rightarrow> bool" where
  "usable e w this \<longleftrightarrow>
     (\<exists>m. managers w this = Some m \<and> (\<forall>i \<in> set (segments m). smgr_at e w m i \<noteq> None))"

definition up_to_date :: "'m env \<Rightarrow> 'm world \<Rightarrow> u64 \<Rightarrow> bool" where
  "up_to_date e w this \<longleftrightarrow> layout_ok e w this \<and>
     (\<exists>m. managers w this = Some m \<and> table_layout (tables w (object_of e m)) = seg_layout w m)"

text \<open>What a manager is after its constructor returned: one primary segment, listed in the table.\<close>

definition fresh_shm :: "'m env \<Rightarrow> 'm world \<Rightarrow> u64 \<Rightarrow> string \<Rightarrow> u64 \<Rightarrow> bool" where
  "fresh_shm e w this name sz \<longleftrightarrow>
     (\<exists>a d. managers w this = Some \<lparr>anon = False, shm_root_name = name,
          segments = [\<lparr>seg = a, smgr = base_vaddr d + smgr_offset e True\<rparr>]\<rparr> \<and>
        descs (proc w) a = Some d \<and> is_primary d \<and> file_offset d = 0 \<and> size_of d = sz) \<and>
     magic (tables w (get_platform_shm_path (plat e) name)) = kSegmentTableMagic \<and>
     table_layout (tables w (get_platform_shm_path (plat e) name)) = [(0, sz)]"

section \<open>What a throw leaves behind\<close>

lemma make_unique_calls:
  assumes "make_unique e (d, h) w = (res, w1)"
  shows "hist w1 = h \<and> prefetch w1 = prefetch w \<and> (res = Inr nullptr \<longrightarrow> d = None) \<and> (res = Inl x \<longrightarrow> x = Terminate)"
  using assms by (auto simp: make_unique_def Let_def split: option.splits if_splits)

lemma factory_none_live:
  assumes "env_ok e" "(None, h) \<in> factories (kernel e) (plat e) name sz off (hist w)"
  shows "live_maps h = live_maps (hist w)"
  using factory_maps [OF _ assms(2)] assms(1) mmap_ok_nonnull by (auto simp: env_ok_def)

lemma add_segment_anon_throws:
  assumes env: "env_ok e" and run: "add_segment_anon e th this sz pr w = Some (Inl x, w')"
  shows "prefetch w' = prefetch w \<and> hist w' = snd (create_anon (kernel e) sz (hist w)) \<and>
    (x \<noteq> Terminate \<longrightarrow> live_maps (hist w') = live_maps (hist w))"
proof -
  obtain d h where f: "create_anon (kernel e) sz (hist w) = (d, h)" by fastforce
  obtain res w1 where mu: "make_unique e (d, h) w = (res, w1)" by fastforce
  have w': "w' = w1" "res = Inr nullptr \<or> x = Terminate"
    using run f mu make_unique_calls [OF mu] by (auto simp: add_segment_anon_def split: sum.splits if_splits bind_splits)
  moreover have "live_maps h = live_maps (hist w)" if "d = None"
    using factory_none_live [OF env, of h "[]" sz 0 w] f that by (simp add: factories_def)
  ultimately show ?thesis using make_unique_calls [OF mu] f by auto
qed

lemma add_segment_shm_throws:
  assumes env: "env_ok e" and m: "managers w this = Some m"
    and run: "add_segment_shm e th this fo sz pr creator ini w = Some (Inl x, w')"
  shows "prefetch w' = prefetch w \<and>
    hist w' = snd (if creator then create_shm (kernel e) (plat e) (shm_root_name m) sz (hist w)
      else open_shm_chunk (kernel e) (plat e) (shm_root_name m) sz fo (hist w)) \<and>
    (x \<noteq> Terminate \<longrightarrow> live_maps (hist w') = live_maps (hist w))"
proof -
  let ?f = "if creator then create_shm (kernel e) (plat e) (shm_root_name m) sz (hist w)
    else open_shm_chunk (kernel e) (plat e) (shm_root_name m) sz fo (hist w)"
  obtain d h where f: "?f = (d, h)" by fastforce
  obtain res w1 where mu: "make_unique e (d, h) w = (res, w1)" by fastforce
  have w': "w' = w1" "res = Inr nullptr \<or> x = Terminate"
    using run m f mu make_unique_calls [OF mu]
    by (auto simp: add_segment_shm_def map_shm_def Let_def split: sum.splits if_splits bind_splits prod.splits)
  moreover have "live_maps h = live_maps (hist w)" if "d = None"
  proof (rule factory_none_live [OF env])
    show "(None, h) \<in> factories (kernel e) (plat e) (shm_root_name m) sz fo (hist w)"
      using f that by (auto simp: factories_def split: if_splits)
  qed
  ultimately show ?thesis using make_unique_calls [OF mu] f by auto
qed

text \<open>The system calls of the helpers: creation begins by unlinking whatever has the name.\<close>

lemma create_shm_unlinks: "\<exists>r es. snd (create_shm os pl name sz h) = h @ Ev_unlink (get_platform_shm_path pl name) r # es"
  by (auto simp: create_shm_def Platform.shm_create_def syscall_defs Let_def)

definition growth_event :: "string \<Rightarrow> u64 option \<Rightarrow> sysevent \<Rightarrow> bool" where
  "growth_event path n ev =
     (case ev of
        Ev_open p flags _ _ \<Rightarrow> p = path \<and> flags = [O_RDWR]
      | Ev_ftruncate _ k _ \<Rightarrow> n = Some k
      | Ev_mmap _ _ _ _ _ \<Rightarrow> True
      | Ev_close _ \<Rightarrow> True
      | _ \<Rightarrow> False)"

lemma growth_calls:
  "\<exists>es. snd (shm_grow os pl name n h) = h @ es \<and> (\<forall>ev \<in> set es. growth_event (get_platform_shm_path pl name) (Some n) ev)"
  "\<exists>es. snd (open_shm_chunk os pl name sz off h) = h @ es \<and> (\<forall>ev \<in> set es. growth_event (get_platform_shm_path pl name) x ev)"
  "\<exists>es. snd (create_anon os sz h) = h @ es \<and> (\<forall>ev \<in> set es. growth_event path x ev)"
  by (auto simp: Platform.shm_grow_def open_shm_chunk_def shm_map_chunk_def create_anon_def mmap_alloc_def syscall_defs Let_def
      growth_event_def)

text \<open>A constructor that throws leaves no manager behind; only a terminated process keeps one.\<close>

lemma constructor_fails:
  assumes inv: "world_inv e w1" and u: "unchanged (w\<lparr>managers := (managers w)(this \<mapsto> m)\<rparr>) w1"
    and nm: "managers w this = None" and m: "segments m = []"
  shows "\<exists>w'. finish_constructor e this (Inl x, w1) = Some (Inl x, w') \<and> proc w' = proc w \<and>
    smgrs w' = smgrs w \<and> tables w' = tables w \<and> hist w' = hist w1 \<and> prefetch w' = prefetch w1 \<and>
    (x \<noteq> Terminate \<longrightarrow> managers w' = managers w \<and> world_inv e w')"
proof -
  have mm: "managers w1 this = Some m" "proc w1 = proc w" using u by (simp_all add: unchanged_def)
  have undo: "(managers w1)(this := None) = managers w" using u nm by (auto simp: unchanged_def)
  let ?w' = "if x = Terminate then w1 else w1\<lparr>managers := (managers w1)(this := None)\<rparr>"
  have "finish_constructor e this (Inl x, w1) = Some (Inl x, ?w')" using mm m by (simp add: finish_constructor_def)
  moreover have "x \<noteq> Terminate \<longrightarrow> managers ?w' = managers w \<and> world_inv e ?w'"
    using world_inv_drop_manager [OF inv, of this] undo by simp
  moreover have "proc ?w' = proc w" "smgrs ?w' = smgrs w" "tables ?w' = tables w"
    "hist ?w' = hist w1" "prefetch ?w' = prefetch w1" using mm(2) u by (simp_all add: unchanged_def)
  ultimately show ?thesis by blast
qed

text \<open>The table of a zeroed object after its creator listed the primary segment.\<close>

lemma init_first_chunk:
  assumes m: "managers w this = Some m" "\<not> anon m" "segments m = [\<lparr>seg = a, smgr = b\<rparr>]"
    and d: "descs (proc w) a = Some d" "\<not> is_anon d" "is_primary d" "file_offset d = 0" "0 < size_of d"
    and t: "tables w (object_of e m) = zero_table"
  shows "\<exists>tbl. init_segment_table e this w = Some (w\<lparr>tables := (tables w)(object_of e m := tbl)\<rparr>) \<and>
    magic tbl = kSegmentTableMagic \<and> table_layout tbl = [(0, size_of d)] \<and>
    up_to_date e (w\<lparr>tables := (tables w)(object_of e m := tbl)\<rparr>) this"
proof -
  define tbl where "tbl = zero_table\<lparr>magic := kSegmentTableMagic, version := kSegmentTableVersion,
    capacity := of_nat kMaxSubSegments, count := 1, entries := (entries zero_table)[0 := \<lparr>ent_file_offset = 0, ent_size = size_of d\<rparr>]\<rparr>"
  have "init_segment_table e this w = Some (w\<lparr>tables := (tables w)(object_of e m := tbl)\<rparr>)"
    using m d t by (simp add: init_segment_table_def Let_def tbl_def)
  moreover have len: "length (entries tbl) = kMaxSubSegments" "count tbl = 1" "magic tbl = kSegmentTableMagic"
    by (simp_all add: tbl_def zero_table_def)
  moreover have tl: "table_layout tbl = [(0, size_of d)]"
    using len(2) by (simp add: table_layout_def tbl_def zero_table_def kMaxSubSegments_def numeral_eq_Suc)
  moreover have sl: "seg_layout w m = [(0, size_of d)]" using m d by (simp add: seg_layout_def chunk_at_def desc_chunk_def)
  moreover have "layout_ok e (w\<lparr>tables := (tables w)(object_of e m := tbl)\<rparr>) this"
    using m d len tl sl unfolding layout_ok_def by (intro exI [of _ m]) (simp add: kMaxSubSegments_def)
  ultimately show ?thesis using m(1) by (intro exI [of _ tbl]) (simp add: up_to_date_def)
qed

lemma new_manager_shm_spec:
  fixes initial :: u64
  assumes env: "env_ok e" and inv: "world_inv e w" and nm: "managers w this = None"
  defines "sz \<equiv> max initial kMinSegmentSize"
  shows "\<exists>r w'. new_manager_shm e th this name initial True w = Some (r, w') \<and>
    (case r of
       Inl x \<Rightarrow> x \<in> {Runtime_error ''segmented_segment_manager: failed to map SHM chunk'', Terminate} \<and>
         proc w' = proc w \<and> smgrs w' = smgrs w \<and> tables w' = tables w \<and> prefetch w' = prefetch w \<and>
         (\<exists>r es. hist w' = hist w @ Ev_unlink (get_platform_shm_path (plat e) name) r # es) \<and>
         (x \<noteq> Terminate \<longrightarrow> managers w' = managers w \<and> world_inv e w' \<and> live_maps (hist w') = live_maps (hist w))
     | Inr _ \<Rightarrow> world_inv e w' \<and> up_to_date e w' this \<and> usable e w' this \<and> fresh_shm e w' this name sz \<and>
         (\<forall>u. no_stale (proc w) u \<longrightarrow> no_stale (proc w') u) \<and>
         prefetch w' = prefetch w @ [Register_manager this])"
proof -
  let ?m = "\<lparr>anon = False, shm_root_name = name, segments = []\<rparr>"
  define w0 where "w0 = w\<lparr>managers := (managers w)(this \<mapsto> ?m)\<rparr>"
  have inv0: "world_inv e w0" using world_inv_fresh_manager [OF inv] by (simp add: w0_def)
  have m0: "managers w0 this = Some ?m" "\<not> anon ?m" by (simp_all add: w0_def)
  obtain r w1 where run: "add_segment_shm e th this 0 sz True True False w0 = Some (r, w1)" and inv1: "world_inv e w1"
    and res: "case r of
       Inl x \<Rightarrow> x \<in> {Runtime_error ''segmented_segment_manager: failed to map SHM chunk'', Terminate} \<and> unchanged w0 w1
     | Inr _ \<Rightarrow> \<exists>a d. added e this ?m a d (base_vaddr d + smgr_offset e True) w0 w1 \<and> size_of d = sz \<and>
         is_primary d \<and> file_offset d = 0 \<and>
         tables w1 = (tables w0)(object_of e ?m := zero_table) \<and>
         smgrs w1 = (smgrs (zero_object (object_of e ?m) w0))
             (Shared (object_of e ?m) (file_offset d + smgr_offset e True) \<mapsto> sm_new (boost e) (sz - smgr_offset e True))"
    using add_segment_shm_spec [OF env inv0 m0, of th 0 sz True True False, unfolded if_True simp_thms] by blast
  show ?thesis
  proof (cases r)
    case (Inl x)
    then have u: "unchanged w0 w1" "x \<in> {Runtime_error ''segmented_segment_manager: failed to map SHM chunk'', Terminate}"
      using res by simp_all
    obtain w' where w': "finish_constructor e this (Inl x, w1) = Some (Inl x, w')" "proc w' = proc w"
      "smgrs w' = smgrs w" "tables w' = tables w" "hist w' = hist w1" "prefetch w' = prefetch w1"
      "x \<noteq> Terminate \<longrightarrow> managers w' = managers w \<and> world_inv e w'"
      using constructor_fails [OF inv1 u(1) [unfolded w0_def] nm, of x] by auto
    have th: "prefetch w1 = prefetch w0" "hist w1 = snd (create_shm (kernel e) (plat e) name sz (hist w0))"
      "x \<noteq> Terminate \<longrightarrow> live_maps (hist w1) = live_maps (hist w0)"
      using add_segment_shm_throws [OF env m0(1) run [unfolded Inl]] unfolding if_True seg_manager.simps by blast+
    have "hist w0 = hist w" "prefetch w0 = prefetch w" by (simp_all add: w0_def)
    moreover have "new_manager_shm e th this name initial True w = Some (Inl x, w')"
      using run Inl w'(1) by (simp add: new_manager_shm_def w0_def sz_def)
    ultimately show ?thesis
      using u(2) w'(2-) th create_shm_unlinks [of "kernel e" "plat e" name sz "hist w"]
      by (intro exI [of _ "Inl x"] exI [of _ w']) simp
  next
    case (Inr u)
    then obtain a d where ad: "added e this ?m a d (base_vaddr d + smgr_offset e True) w0 w1"
      and d: "size_of d = sz" "is_primary d" "file_offset d = 0"
      and t: "tables w1 = (tables w0)(object_of e ?m := zero_table)"
      and s: "smgrs w1 = (smgrs (zero_object (object_of e ?m) w0))
        (Shared (object_of e ?m) (file_offset d + smgr_offset e True) \<mapsto> sm_new (boost e) (sz - smgr_offset e True))"
      using res by auto
    let ?m1 = "?m\<lparr>segments := [\<lparr>seg = a, smgr = base_vaddr d + smgr_offset e True\<rparr>]\<rparr>"
    have a1: "managers w1 this = Some ?m1" "descs (proc w1) a = Some d" "\<not> is_anon d"
      and ns: "\<forall>u. no_stale (proc w) u \<longrightarrow> no_stale (proc w1) u"
      using ad by (simp_all add: added_def w0_def)
    have path: "object_of e ?m1 = get_platform_shm_path (plat e) name" "object_of e ?m = object_of e ?m1"
      by (simp_all add: object_of_def)
    have pf: "prefetch w1 = prefetch w" using run Inr m0
      by (auto simp: add_segment_shm_def map_shm_def make_unique_def upd_desc_def push_segment_def zero_object_def Let_def w0_def
          split: bind_splits prod.splits sum.splits option.splits if_splits)
    have "0 < kMinSegmentSize" by (simp add: kMinSegmentSize_def)
    then have "0 < size_of d" using d(1) by (simp add: sz_def less_max_iff_disj)
    then obtain tbl where tbl: "init_segment_table e this w1 = Some (w1\<lparr>tables := (tables w1)(object_of e ?m1 := tbl)\<rparr>)"
      "magic tbl = kSegmentTableMagic" "table_layout tbl = [(0, sz)]"
      "up_to_date e (w1\<lparr>tables := (tables w1)(object_of e ?m1 := tbl)\<rparr>) this"
      using init_first_chunk [of w1 this ?m1 a _ d e] a1 d t path by auto
    define w' where "w' = w1\<lparr>tables := (tables w1)(object_of e ?m1 := tbl), prefetch := prefetch w1 @ [Register_manager this]\<rparr>"
    have run': "new_manager_shm e th this name initial True w = Some (Inr (), w')"
      using run Inr tbl(1) by (simp add: new_manager_shm_def w0_def sz_def finish_constructor_def w'_def)
    moreover have "up_to_date e w' this" using tbl(4) by (simp add: up_to_date_def layout_ok_def w'_def)
    moreover have "usable e w' this"
      using a1 s path by (simp add: usable_def w'_def smgr_at_def place_of_def)
    moreover have "fresh_shm e w' this name sz"
      using a1 d tbl(2,3) path unfolding fresh_shm_def w'_def
      by (intro conjI exI [of _ a] exI [of _ d]) simp_all
    moreover have "world_inv e w'" using inv1 by (simp add: w'_def)
    ultimately show ?thesis using pf ns by (intro exI [of _ "Inr ()"] exI [of _ w']) (simp add: w'_def)
  qed
qed

lemma new_manager_anon_spec:
  fixes initial :: u64
  assumes env: "env_ok e" and inv: "world_inv e w" and nm: "managers w this = None"
  shows "\<exists>r w'. new_manager_anon e th this initial w = Some (r, w') \<and>
    (case r of
       Inl x \<Rightarrow> x \<in> {Bad_alloc, Terminate} \<and>
         proc w' = proc w \<and> (x \<noteq> Terminate \<longrightarrow> managers w' = managers w \<and> world_inv e w')
     | Inr _ \<Rightarrow> world_inv e w' \<and> usable e w' this \<and> (\<forall>u. no_stale (proc w) u \<longrightarrow> no_stale (proc w') u) \<and>
         tables w' = tables w \<and>
         (\<exists>a d. managers w' this = Some \<lparr>anon = True, shm_root_name = [],
              segments = [\<lparr>seg = a, smgr = base_vaddr d + smgr_offset e True\<rparr>]\<rparr> \<and>
            descs (proc w') a = Some d \<and> is_anon d \<and> size_of d = max initial kMinSegmentSize))"
proof -
  let ?m = "\<lparr>anon = True, shm_root_name = [], segments = []\<rparr>" and ?sz = "max initial kMinSegmentSize"
  define w0 where "w0 = w\<lparr>managers := (managers w)(this \<mapsto> ?m)\<rparr>"
  have inv0: "world_inv e w0" using world_inv_fresh_manager [OF inv] by (simp add: w0_def)
  have m0: "managers w0 this = Some ?m" "anon ?m" by (simp_all add: w0_def)
  obtain r w1 where run: "add_segment_anon e th this ?sz True w0 = Some (r, w1)" and inv1: "world_inv e w1"
    and res: "case r of
       Inl x \<Rightarrow> x \<in> {Bad_alloc, Terminate} \<and> unchanged w0 w1
     | Inr _ \<Rightarrow> \<exists>a d. added e this ?m a d (base_vaddr d + smgr_offset e True) w0 w1 \<and> size_of d = ?sz \<and>
         is_primary d = True \<and> tables w1 = tables w0 \<and>
         smgrs w1 = (smgrs w0)(Private (base_vaddr d + smgr_offset e True) \<mapsto> sm_new (boost e) (?sz - smgr_offset e True))"
    using add_segment_anon_spec [OF env inv0 m0, of th ?sz True] by blast
  show ?thesis
  proof (cases r)
    case (Inl x)
    then have u: "unchanged w0 w1" "x \<in> {Bad_alloc, Terminate}" using res by simp_all
    obtain w' where "finish_constructor e this (Inl x, w1) = Some (Inl x, w')" "proc w' = proc w"
      "x \<noteq> Terminate \<longrightarrow> managers w' = managers w \<and> world_inv e w'"
      using constructor_fails [OF inv1 u(1) [unfolded w0_def] nm, of x] by auto
    then show ?thesis using run Inl u(2) by (intro exI [of _ "Inl x"] exI [of _ w']) (simp add: new_manager_anon_def w0_def)
  next
    case (Inr y)
    then obtain a d where ad: "added e this ?m a d (base_vaddr d + smgr_offset e True) w0 w1" "size_of d = ?sz"
      and t: "tables w1 = tables w"
      and s: "smgrs w1 = (smgrs w0)(Private (base_vaddr d + smgr_offset e True) \<mapsto> sm_new (boost e) (?sz - smgr_offset e True))"
      using res by (auto simp: w0_def)
    let ?m1 = "?m\<lparr>segments := [\<lparr>seg = a, smgr = base_vaddr d + smgr_offset e True\<rparr>]\<rparr>"
    define w' where "w' = w1\<lparr>prefetch := prefetch w1 @ [Register_manager this]\<rparr>"
    have a: "managers w' this = Some ?m1" "descs (proc w') a = Some d" "is_anon d"
      and ns: "\<forall>u. no_stale (proc w) u \<longrightarrow> no_stale (proc w') u"
      using ad(1) by (simp_all add: added_def w0_def w'_def)
    have "new_manager_anon e th this initial w = Some (Inr (), w')"
      using run Inr by (simp add: new_manager_anon_def w0_def finish_constructor_def w'_def)
    moreover have "usable e w' this"
      using a s by (simp add: usable_def w'_def smgr_at_def place_of_def)
    moreover have "world_inv e w'" "tables w' = tables w" using inv1 t by (simp_all add: w'_def)
    ultimately show ?thesis using a ns ad(2) by (intro exI [of _ "Inr ()"] exI [of _ w']) auto
  qed
qed

section \<open>Growth\<close>

text \<open>The size of the chunk that \<^verbatim>\<open>grow\<close> adds.\<close>

definition chunk_size :: "'m env \<Rightarrow> 'm world \<Rightarrow> seg_manager \<Rightarrow> u64 \<Rightarrow> u64" where
  "chunk_size e w m min_bytes =
     align_up (max min_bytes (if segments m = [] then kDefaultSegSize
       else snd (chunk_at w (last (segments m))) * kGrowMultiplier)) (page_size (plat e))"

lemma chunk_size_cases:
  assumes "env_ok e"
  shows "chunk_size e w m b = 0 \<or> b \<le> chunk_size e w m b \<and> 2 ^ page_shift (plat e) dvd unat (chunk_size e w m b)"
  using align_up_cases [of "page_shift (plat e)"] assms
  by (auto simp: chunk_size_def env_ok_def dest!: spec intro: order_trans [OF max.cobounded1])

lemma free_memory_defined:
  "\<forall>i \<in> set is. smgr_at e w m i \<noteq> None \<Longrightarrow> \<exists>n. free_memory_of e w m is acc = Some n"
  by (induction "is" arbitrary: acc) auto

lemma grow_plan_cases:
  assumes inv: "world_inv e w" and m: "managers w this = Some m" and u: "usable e w this"
  shows "\<exists>f cur. free_memory_of e w m (segments m) 0 = Some f \<and> size_of_segments w (segments m) 0 = Some cur \<and>
    grow_plan e this b w = Some (if b \<le> f then None else Some (chunk_size e w m b, cur))"
proof -
  obtain f where f: "free_memory_of e w m (segments m) 0 = Some f"
    using free_memory_defined u m unfolding usable_def by (metis option.inject)
  have ds: "\<forall>i \<in> set (segments m). descs (proc w) (seg i) \<noteq> None" using world_seg_desc [OF inv m] by blast
  then obtain cur where cur: "size_of_segments w (segments m) 0 = Some cur" using size_of_segments_eq by blast
  have "segments m \<noteq> [] \<Longrightarrow> \<exists>d. descs (proc w) (seg (last (segments m))) = Some d" using ds by auto
  then show ?thesis using f cur m
    by (auto simp: grow_plan_def chunk_size_def chunk_at_def desc_chunk_def Let_def)
qed

lemma added_usable:
  assumes inv: "world_inv e w" and u: "usable e w this" and m: "managers w this = Some m"
    and ad: "added e this m a d b w w'"
    and s: "smgrs w' = (smgrs w)(place_of e m d b \<mapsto> x)"
  shows "usable e w' this"
proof -
  let ?m' = "m\<lparr>segments := segments m @ [\<lparr>seg = a, smgr = b\<rparr>]\<rparr>"
  have a: "descs (proc w) a = None" "descs (proc w') = (descs (proc w))(a \<mapsto> d)" "managers w' this = Some ?m'"
    using ad by (simp_all add: added_def)
  have pl: "place_of e ?m' = place_of e m" by (intro ext) (simp add: place_of_def object_of_def)
  have "smgr_at e w' ?m' i \<noteq> None" if i: "i \<in> set (segments m)" for i
  proof -
    obtain y where y: "descs (proc w) (seg i) = Some y" "smgrs w (place_of e m y (smgr i)) \<noteq> None"
      using u m i by (fastforce simp: usable_def smgr_at_def split: bind_splits)
    then show ?thesis using a pl s by (auto simp: smgr_at_def)
  qed
  moreover have "smgr_at e w' ?m' \<lparr>seg = a, smgr = b\<rparr> \<noteq> None" using a pl s by (simp add: smgr_at_def)
  ultimately show ?thesis using a(3) by (simp add: usable_def)
qed

lemma usable_unchanged: "unchanged w w' \<Longrightarrow> usable e w' this \<longleftrightarrow> usable e w this"
  by (simp add: unchanged_def usable_def smgr_at_def)

text \<open>
  What \<^verbatim>\<open>grow\<close> added: one segment at the end, in a descriptor of its own, large enough and a
  multiple of the page size, with a new Boost manager at its start. In shared memory it begins
  where the segments that the process has mapped end.
\<close>

definition one_more :: "'m env \<Rightarrow> u64 \<Rightarrow> u64 \<Rightarrow> seg_manager \<Rightarrow> 'm world \<Rightarrow> 'm world \<Rightarrow> bool" where
  "one_more e this b m w w' \<longleftrightarrow>
     (\<exists>i d. managers w' this = Some (m\<lparr>segments := segments m @ [i]\<rparr>) \<and>
        descs (proc w) (seg i) = None \<and> descs (proc w') = (descs (proc w))(seg i \<mapsto> d) \<and>
        smgr i = base_vaddr d \<and> is_anon d = anon m \<and>
        b \<le> size_of d \<and> 2 ^ page_shift (plat e) dvd unat (size_of d) \<and>
        smgrs w' = (smgrs w)(place_of e m d (smgr i) \<mapsto> sm_new (boost e) (size_of d)) \<and>
        (\<not> anon m \<longrightarrow> unat (file_offset d) = total_size (seg_layout w m)))"

lemma smgr_offset_secondary [simp]: "smgr_offset e False = 0"
  by (simp add: smgr_offset_def)

lemma added_one_more:
  assumes env: "env_ok e" and inv': "world_inv e w'" and ad: "added e this m a d (base_vaddr d) w w'"
    and sz: "size_of d = chunk_size e w m b"
    and s: "smgrs w' = (smgrs w)(place_of e m d (base_vaddr d) \<mapsto> sm_new (boost e) (size_of d))"
    and off: "\<not> anon m \<longrightarrow> unat (file_offset d) = total_size (seg_layout w m)"
  shows "one_more e this b m w w'"
proof -
  have a: "descs (proc w) a = None" "descs (proc w') = (descs (proc w))(a \<mapsto> d)" "is_anon d = anon m"
    "managers w' this = Some (m\<lparr>segments := segments m @ [\<lparr>seg = a, smgr = base_vaddr d\<rparr>]\<rparr>)"
    using ad by (simp_all add: added_def)
  have "size_of d \<noteq> 0" using world_desc [OF inv', of a d] a(2) by (auto simp: desc_ok_def fits_def)
  then have "b \<le> size_of d" "2 ^ page_shift (plat e) dvd unat (size_of d)"
    using chunk_size_cases [OF env, of w m b] sz by auto
  then show ?thesis
    using a s off unfolding one_more_def
    by (intro exI [of _ "\<lparr>seg = a, smgr = base_vaddr d\<rparr>"] exI [of _ d]) simp
qed

lemma append_anon_spec:
  assumes env: "env_ok e" and inv: "world_inv e w" and m: "managers w this = Some m" "anon m" and u: "usable e w this"
  shows "\<exists>r w'. add_segment_anon e th this (chunk_size e w m b) False w = Some (r, w') \<and> world_inv e w' \<and>
    grown e this w w' \<and> usable e w' this \<and> tables w' = tables w \<and>
    (case r of Inl x \<Rightarrow> x \<in> {Bad_alloc, Terminate} \<and> unchanged w w' | Inr _ \<Rightarrow> one_more e this b m w w')"
proof -
  let ?sz = "chunk_size e w m b"
  obtain r w' where run: "add_segment_anon e th this ?sz False w = Some (r, w')" and inv': "world_inv e w'"
    and res: "case r of
       Inl x \<Rightarrow> x \<in> {Bad_alloc, Terminate} \<and> unchanged w w'
     | Inr _ \<Rightarrow> \<exists>a d. added e this m a d (base_vaddr d + smgr_offset e False) w w' \<and> size_of d = ?sz \<and>
         is_primary d = False \<and> tables w' = tables w \<and>
         smgrs w' = (smgrs w)(Private (base_vaddr d + smgr_offset e False) \<mapsto> sm_new (boost e) (?sz - smgr_offset e False))"
    using add_segment_anon_spec [OF env inv m, of th ?sz False] by blast
  show ?thesis
  proof (cases r)
    case (Inl x)
    then show ?thesis using run inv' res grown_unchanged [of w w' this m e] m u usable_unchanged [of w w' e this]
      by (intro exI [of _ r] exI [of _ w']) (simp add: unchanged_def)
  next
    case (Inr y)
    then obtain a d where ad: "added e this m a d (base_vaddr d) w w'" "size_of d = ?sz" "tables w' = tables w"
      "smgrs w' = (smgrs w)(Private (base_vaddr d) \<mapsto> sm_new (boost e) ?sz)"
      using res by auto
    have "is_anon d" using ad(1) m(2) by (simp add: added_def)
    then have s: "smgrs w' = (smgrs w)(place_of e m d (base_vaddr d) \<mapsto> sm_new (boost e) (size_of d))"
      using ad(2,4) by (simp add: place_of_def)
    show ?thesis
      using run inv' Inr added_grown [of e this m a d w w'] added_usable [OF inv u m(1) ad(1) s] ad(1,3) m
        added_one_more [OF env inv' ad(1,2) s]
      by (intro exI [of _ r] exI [of _ w']) simp
  qed
qed

lemma grow_anon_spec:
  assumes env: "env_ok e" and inv: "world_inv e w" and m: "managers w this = Some m" "anon m" and u: "usable e w this"
  shows "\<exists>r w'. grow e th this b w = Some (r, w') \<and> world_inv e w' \<and> grown e this w w' \<and> usable e w' this \<and>
    tables w' = tables w \<and>
    (case r of
       Inl x \<Rightarrow> x \<in> {Bad_alloc, Terminate} \<and> unchanged w w'
     | Inr _ \<Rightarrow> (if b \<le> the (get_free_memory e this w) then w' = w else one_more e this b m w w'))"
proof -
  obtain f cur where f: "free_memory_of e w m (segments m) 0 = Some f"
    and plan: "grow_plan e this b w = Some (if b \<le> f then None else Some (chunk_size e w m b, cur))"
    using grow_plan_cases [OF inv m(1) u] by blast
  have gf: "get_free_memory e this w = Some f" using f m by (simp add: get_free_memory_def)
  show ?thesis
  proof (cases "b \<le> f")
    case True
    then have "grow e th this b w = Some (Inr (), w)" using plan by (simp add: grow_def)
    moreover have "grown e this w w" using m by (intro grown_unchanged) (auto simp: unchanged_def)
    ultimately show ?thesis using True inv u gf by (intro exI [of _ "Inr ()"] exI [of _ w]) simp
  next
    case False
    have "grow e th this b w = add_segment_anon e th this (chunk_size e w m b) False w"
      using plan False m by (simp add: grow_def grow_commit_def)
    then show ?thesis using append_anon_spec [OF env inv m u, of th b] gf False by simp
  qed
qed

subsection \<open>Growth in shared memory\<close>

lemma shm_grow_live [simp]: "live_maps (snd (shm_grow os pl name n h)) = live_maps h"
  by (simp add: shm_grow_def platform_shm_open_def syscall_defs Let_def live_maps_def map_event_def split: prod.splits)

lemma total_size_le: "\<forall>c \<in> set cs. unat (snd c) \<le> B \<Longrightarrow> total_size cs \<le> length cs * B"
  by (induction cs) (auto simp: total_size_def)

lemma layout_small:
  assumes inv: "world_inv e w" and l: "layout_ok e w this" and m: "managers w this = Some m"
  shows "length (segments m) \<le> kMaxSubSegments" "total_size (seg_layout w m) \<le> 2 ^ 53"
proof -
  obtain rest where "table_layout (tables w (object_of e m)) = seg_layout w m @ rest"
    "unat (count (tables w (object_of e m))) \<le> kMaxSubSegments"
    using l m by (auto simp: layout_ok_def)
  moreover have "length (table_layout tbl) \<le> unat (count tbl)" for tbl by (simp add: table_layout_def)
  ultimately have "length (seg_layout w m @ rest) \<le> kMaxSubSegments" by (metis le_trans)
  then show n: "length (segments m) \<le> kMaxSubSegments" by (simp add: seg_layout_def)
  have "unat (snd c) \<le> 2 ^ 47" if c: "c \<in> set (seg_layout w m)" for c
  proof -
    obtain i where i: "i \<in> set (segments m)" "c = chunk_at w i" using c by (auto simp: seg_layout_def)
    then obtain d where "descs (proc w) (seg i) = Some d" "fits (plat e) (base_vaddr d) (size_of d)"
      using world_seg_desc [OF inv m] by blast
    then show ?thesis using i fits_no_wrap [of "plat e" "base_vaddr d" "size_of d"] by (simp add: chunk_at_def desc_chunk_def)
  qed
  then have "total_size (seg_layout w m) \<le> length (seg_layout w m) * 2 ^ 47"
    by (intro total_size_le) blast
  also have "\<dots> \<le> 64 * 2 ^ 47" using n by (simp add: seg_layout_def kMaxSubSegments_def)
  finally show "total_size (seg_layout w m) \<le> 2 ^ 53" by simp
qed

text \<open>
  The table after \<^verbatim>\<open>update_segment_table\<close> lists the segments of the process and the new one; it
  forgets any further chunks that other processes had listed.
\<close>

lemma table_append:
  assumes "length (entries tbl) = kMaxSubSegments" "table_layout tbl = cs @ rest" "length cs = n" "n < kMaxSubSegments"
  shows "table_layout (tbl\<lparr>entries := (entries tbl)[n := \<lparr>ent_file_offset = off, ent_size = sz\<rparr>], count := of_nat (n + 1)\<rparr>) =
    cs @ [(off, sz)]"
proof -
  let ?f = "\<lambda>x. (ent_file_offset x, ent_size x)"
  have "n \<le> unat (count tbl)" using arg_cong [OF assms(2), of length] assms(3) by (simp add: table_layout_def)
  then have cs: "cs = map ?f (take n (entries tbl))"
    using arg_cong [OF assms(2), of "take n"] assms(3) by (simp add: table_layout_def take_map min_def)
  have u: "unat (of_nat (n + 1) :: u32) = n + 1"
    using assms(4) unfolding unat_of_nat by (simp add: kMaxSubSegments_def)
  have "take (n + 1) ((entries tbl)[n := x]) = take n (entries tbl) @ [x]" for x
    using assms(1,4) by (simp add: take_Suc_conv_app_nth)
  then show ?thesis using cs u by (simp add: table_layout_def)
qed

lemma update_table_spec:
  assumes l: "layout_ok e w this" "managers w this = Some m"
    and gr: "grown e this w w1" and t: "tables w1 = tables w"
    and m1: "managers w1 this = Some m1" "m1 = m\<lparr>segments := segments m @ [i]\<rparr>" "descs (proc w1) (seg i) = Some d"
    and sl: "seg_layout w1 m1 = seg_layout w m @ [desc_chunk d]" "contiguous 0 (seg_layout w1 m1)"
  shows "if length (segments m) < kMaxSubSegments
    then \<exists>tbl'. update_segment_table e this w1 = Some (Inr (), w1\<lparr>tables := (tables w1)(object_of e m := tbl')\<rparr>) \<and>
      up_to_date e (w1\<lparr>tables := (tables w1)(object_of e m := tbl')\<rparr>) this
    else update_segment_table e this w1 = Some (Inl (Runtime_error ''Too many sub-segments''), w1)"
proof -
  let ?tbl = "tables w (object_of e m)" and ?n = "length (segments m)"
  obtain s0 where s0: "descs (proc w) (seg (hd (segments m))) = Some s0" "is_primary s0" and ne: "segments m \<noteq> []"
    and na: "\<not> anon m" and tb: "length (entries ?tbl) = kMaxSubSegments" "unat (count ?tbl) \<le> kMaxSubSegments"
    and rest: "\<exists>rest. table_layout ?tbl = seg_layout w m @ rest"
    using l by (auto simp: layout_ok_def)
  then obtain j js where js: "segments m = j # js" by (cases "segments m") auto
  have s1: "descs (proc w1) (seg j) = Some s0" using gr s0(1) js by (auto simp: grown_def)
  have ob: "object_of e m1 = object_of e m" using m1(2) by (simp add: object_of_def)
  have nth: "segments m1 ! ?n = i" "length (segments m1) - 1 = ?n" using m1(2) by simp_all
  show ?thesis
  proof (cases "?n < kMaxSubSegments")
    case False
    then show ?thesis using m1 js s1 s0(2) nth by (simp add: update_segment_table_def Let_def)
  next
    case True
    define tbl' where "tbl' = ?tbl\<lparr>entries := (entries ?tbl)[?n := \<lparr>ent_file_offset = file_offset d, ent_size = size_of d\<rparr>],
      count := of_nat (?n + 1)\<rparr>"
    let ?w2 = "w1\<lparr>tables := (tables w1)(object_of e m := tbl')\<rparr>"
    have run: "update_segment_table e this w1 = Some (Inr (), ?w2)"
      using True m1 js s1 s0(2) nth ob t by (simp add: update_segment_table_def Let_def tbl'_def)
    have "length (seg_layout w m) = ?n" by (simp add: seg_layout_def)
    then have tl: "table_layout tbl' = seg_layout w1 m1"
      using table_append [OF tb(1) _ _ True] rest sl(1) by (auto simp: tbl'_def desc_chunk_def)
    have "unat (of_nat (?n + 1) :: u32) = ?n + 1" using True unfolding unat_of_nat by (simp add: kMaxSubSegments_def)
    then have "length (entries tbl') = kMaxSubSegments" "unat (count tbl') \<le> kMaxSubSegments"
      using tb True by (simp_all add: tbl'_def)
    then have "layout_ok e ?w2 this"
      using m1 js s1 s0(2) na ob tl sl(2) unfolding layout_ok_def by (intro exI [of _ m1]) simp
    then have "up_to_date e ?w2 this" using m1(1) ob tl by (simp add: up_to_date_def)
    then show ?thesis using True run by auto
  qed
qed

lemma hist_irrelevant [simp]:
  "seg_layout (w\<lparr>hist := h\<rparr>) m = seg_layout w m" "chunk_size e (w\<lparr>hist := h\<rparr>) m = chunk_size e w m"
  "layout_ok e (w\<lparr>hist := h\<rparr>) this = layout_ok e w this" "usable e (w\<lparr>hist := h\<rparr>) this = usable e w this"
  "grown e this (w\<lparr>hist := h\<rparr>) w' = grown e this w w'" "one_more e this b m (w\<lparr>hist := h\<rparr>) w' = one_more e this b m w w'"
  "unchanged (w\<lparr>hist := h\<rparr>) w' = unchanged w w'"
proof -
  have c: "chunk_at (w\<lparr>hist := h\<rparr>) = chunk_at w" by (intro ext) (simp add: chunk_at_def)
  then show sl: "seg_layout (w\<lparr>hist := h\<rparr>) m = seg_layout w m" for m by (simp add: seg_layout_def)
  show "chunk_size e (w\<lparr>hist := h\<rparr>) m = chunk_size e w m" by (intro ext) (simp add: chunk_size_def c)
  show "layout_ok e (w\<lparr>hist := h\<rparr>) this = layout_ok e w this" by (simp add: layout_ok_def sl)
  show "usable e (w\<lparr>hist := h\<rparr>) this = usable e w this" by (simp add: usable_def smgr_at_def)
  show "grown e this (w\<lparr>hist := h\<rparr>) w' = grown e this w w'" by (simp add: grown_def)
  show "one_more e this b m (w\<lparr>hist := h\<rparr>) w' = one_more e this b m w w'" by (simp add: one_more_def sl)
  show "unchanged (w\<lparr>hist := h\<rparr>) w' = unchanged w w'" by (simp add: unchanged_def)
qed

text \<open>
  What \<^verbatim>\<open>grow\<close> and \<^verbatim>\<open>grow_background\<close> do once the file has been extended: map the new chunk and
  list it.
\<close>

lemma append_chunk_spec:
  assumes env: "env_ok e" and inv: "world_inv e w" and lo: "layout_ok e w this" and u: "usable e w this"
    and m: "managers w this = Some m" and cur: "unat cur = total_size (seg_layout w m)"
  shows "\<exists>r w'. (do {
      (r, w1) \<leftarrow> add_segment_shm e th this cur (chunk_size e w m b) False False True w;
      case r of Inl x \<Rightarrow> Some (Inl x, w1) | Inr _ \<Rightarrow> update_segment_table e this w1
    }) = Some (r, w') \<and> world_inv e w' \<and> grown e this w w' \<and> usable e w' this \<and>
    (case r of
       Inl x \<Rightarrow> if x = Runtime_error ''Too many sub-segments'' then length (segments m) = kMaxSubSegments \<and> one_more e this b m w w' \<and> tables w' = tables w
         else x \<in> {Runtime_error ''segmented_segment_manager: failed to map SHM chunk'', Terminate} \<and> unchanged w w'
     | Inr _ \<Rightarrow> one_more e this b m w w' \<and> up_to_date e w' this)"
proof -
  have na: "\<not> anon m" using lo m by (auto simp: layout_ok_def)
  have c: "contiguous 0 (seg_layout w m)" using layout_contiguous [OF lo m] .
  let ?sz = "chunk_size e w m b"
  obtain r w1 where run: "add_segment_shm e th this cur ?sz False False True w = Some (r, w1)" and inv1: "world_inv e w1"
    and res: "case r of
       Inl x \<Rightarrow> x \<in> {Runtime_error ''segmented_segment_manager: failed to map SHM chunk'', Terminate} \<and> unchanged w w1
     | Inr _ \<Rightarrow> \<exists>a d. added e this m a d (base_vaddr d + smgr_offset e False) w w1 \<and> size_of d = ?sz \<and>
         \<not> is_primary d \<and> file_offset d = cur \<and> tables w1 = tables w \<and>
         smgrs w1 = (smgrs w)(Shared (object_of e m) (file_offset d + smgr_offset e False) \<mapsto> sm_new (boost e) (?sz - smgr_offset e False))"
    using add_segment_shm_spec [OF env inv m na, of th cur ?sz False False True, unfolded if_False if_True simp_thms]
    by blast
  show ?thesis
  proof (cases r)
    case (Inl x)
    then have "unchanged w w1" using res by simp
    then show ?thesis using run Inl inv1 res u grown_unchanged [of w w1 this m e] m usable_unchanged [of w w1 e this]
      by (intro exI [of _ "Inl x"] exI [of _ w1]) auto
  next
    case (Inr y)
    then obtain a d where ad: "added e this m a d (base_vaddr d) w w1"
      and d: "size_of d = ?sz" "file_offset d = cur" and t: "tables w1 = tables w"
      and s: "smgrs w1 = (smgrs w)(Shared (object_of e m) (file_offset d) \<mapsto> sm_new (boost e) ?sz)"
      using res by auto
    let ?i = "\<lparr>seg = a, smgr = base_vaddr d\<rparr>"
    let ?m1 = "m\<lparr>segments := segments m @ [?i]\<rparr>"
    have a: "managers w1 this = Some ?m1" "descs (proc w1) a = Some d" "\<not> is_anon d"
      using ad na by (simp_all add: added_def)
    have gr: "grown e this w w1" using added_grown [of e this m a d w w1] ad m by simp
    have sp: "smgrs w1 = (smgrs w)(place_of e m d (base_vaddr d) \<mapsto> sm_new (boost e) (size_of d))"
      using s d(1) a(3) by (simp add: place_of_def)
    have u1: "usable e w1 this" using added_usable [OF inv u m ad sp] .
    have om: "one_more e this b m w w1" using added_one_more [OF env inv1 ad d(1) sp] d(2) cur by simp
    have sl: "seg_layout w1 ?m1 = seg_layout w m @ [desc_chunk d]" using added_layout [OF inv ad m] a(1) by simp
    have "fits (plat e) (base_vaddr d) ?sz" using world_desc [OF inv1 a(2)] d(1) by (simp add: desc_ok_def)
    then have "0 < ?sz" "unat ?sz < 2 ^ 47" using fits_no_wrap by (force simp: fits_def)+
    then have c1: "contiguous 0 (seg_layout w1 ?m1)"
      using c d cur layout_small(2) [OF inv lo m] sl by (simp add: contiguous_append desc_chunk_def total_size_def)
    have ut: "if length (segments m) < kMaxSubSegments
      then \<exists>tbl'. update_segment_table e this w1 = Some (Inr (), w1\<lparr>tables := (tables w1)(object_of e m := tbl')\<rparr>) \<and>
        up_to_date e (w1\<lparr>tables := (tables w1)(object_of e m := tbl')\<rparr>) this
      else update_segment_table e this w1 = Some (Inl (Runtime_error ''Too many sub-segments''), w1)"
      using update_table_spec [OF lo m gr t a(1) refl _ sl c1] a(2) by simp
    show ?thesis
    proof (cases "length (segments m) < kMaxSubSegments")
      case False
      then show ?thesis using ut run Inr inv1 gr u1 om t layout_small(1) [OF inv lo m]
        by (intro exI [of _ "Inl (Runtime_error ''Too many sub-segments'')"] exI [of _ w1]) simp
    next
      case True
      then obtain tbl' where t': "update_segment_table e this w1 = Some (Inr (), w1\<lparr>tables := (tables w1)(object_of e m := tbl')\<rparr>)"
        "up_to_date e (w1\<lparr>tables := (tables w1)(object_of e m := tbl')\<rparr>) this" (is "up_to_date e ?w2 this")
        using ut by auto
      have "grown e this w ?w2" using gr by (simp add: grown_def well_placed_def)
      moreover have "usable e ?w2 this" "one_more e this b m w ?w2"
        using u1 om by (simp_all add: usable_def one_more_def smgr_at_def)
      ultimately show ?thesis using t' run Inr inv1 by (intro exI [of _ "Inr ()"] exI [of _ ?w2]) simp
    qed
  qed
qed

lemma grow_shm_spec:
  assumes env: "env_ok e" and inv: "world_inv e w" and lo: "layout_ok e w this" and u: "usable e w this"
    and m: "managers w this = Some m"
  shows "\<exists>r w'. grow e th this b w = Some (r, w') \<and> world_inv e w' \<and> grown e this w w' \<and> usable e w' this \<and>
    (case r of
       Inl x \<Rightarrow> if x = Runtime_error ''Too many sub-segments'' then length (segments m) = kMaxSubSegments \<and> one_more e this b m w w' \<and> tables w' = tables w
         else x \<in> {Bad_alloc, Runtime_error ''segmented_segment_manager: failed to map SHM chunk'', Terminate} \<and> unchanged w w'
     | Inr _ \<Rightarrow> (if b \<le> the (get_free_memory e this w) then w' = w else one_more e this b m w w' \<and> up_to_date e w' this))"
proof -
  have na: "\<not> anon m" using lo m by (auto simp: layout_ok_def)
  obtain f cur where f: "free_memory_of e w m (segments m) 0 = Some f" and cur: "size_of_segments w (segments m) 0 = Some cur"
    and plan: "grow_plan e this b w = Some (if b \<le> f then None else Some (chunk_size e w m b, cur))"
    using grow_plan_cases [OF inv m u] by blast
  have gf: "get_free_memory e this w = Some f" using f m by (simp add: get_free_memory_def)
  have uc: "unat cur = total_size (seg_layout w m)" using mapped_size [OF inv m layout_contiguous [OF lo m]] cur by auto
  obtain ok h where g: "shm_grow (kernel e) (plat e) (shm_root_name m) (cur + chunk_size e w m b) (hist w) = (ok, h)" by fastforce
  then have h: "live_maps h = live_maps (hist w)" by (metis shm_grow_live snd_conv)
  let ?w0 = "w\<lparr>hist := h\<rparr>"
  have inv0: "world_inv e ?w0" using world_inv_hist [OF inv, of h] h by simp
  have un: "unchanged w ?w0" "grown e this w ?w0"
    using grown_unchanged [of w ?w0 this m e] m by (simp_all add: unchanged_def)
  consider (free) "b \<le> f" | (nofile) "\<not> b \<le> f" "\<not> ok" | (go) "\<not> b \<le> f" ok by blast
  then show ?thesis
  proof cases
    case free
    then have "grow e th this b w = Some (Inr (), w)" using plan by (simp add: grow_def)
    moreover have "grown e this w w" using m by (intro grown_unchanged) (auto simp: unchanged_def)
    ultimately show ?thesis using free inv u gf by (intro exI [of _ "Inr ()"] exI [of _ w]) simp
  next
    case nofile
    then have "grow e th this b w = Some (Inl Bad_alloc, ?w0)" using plan g m na by (simp add: grow_def grow_commit_def)
    then show ?thesis using inv0 u un by (intro exI [of _ "Inl Bad_alloc"] exI [of _ ?w0]) simp
  next
    case go
    have m0: "managers ?w0 this = Some m" using m by simp
    obtain r w' where ap: "(do {
        (r, w1) \<leftarrow> add_segment_shm e th this cur (chunk_size e w m b) False False True ?w0;
        case r of Inl x \<Rightarrow> Some (Inl x, w1) | Inr _ \<Rightarrow> update_segment_table e this w1
      }) = Some (r, w')" "world_inv e w'" "grown e this w w'" "usable e w' this"
      and res: "case r of
         Inl x \<Rightarrow> if x = Runtime_error ''Too many sub-segments'' then length (segments m) = kMaxSubSegments \<and> one_more e this b m w w' \<and> tables w' = tables ?w0
           else x \<in> {Runtime_error ''segmented_segment_manager: failed to map SHM chunk'', Terminate} \<and> unchanged w w'
       | Inr _ \<Rightarrow> one_more e this b m w w' \<and> up_to_date e w' this"
      using append_chunk_spec [OF env inv0 _ _ m0, of cur th b, unfolded hist_irrelevant, OF lo u uc] by blast
    have run: "grow e th this b w = Some (r, w')" using plan g m na go ap(1) by (simp add: grow_def grow_commit_def)
    show ?thesis
      by (intro exI [of _ r] exI [of _ w'] conjI run ap(2-4)) (use res gf go in \<open>cases r; auto split: if_splits\<close>)
  qed
qed

text \<open>
  A growth that throws, other than for a full table, has changed nothing in the process. Outside it, the
  only trace is that the file may have been given the size for the new chunk.
\<close>

definition only_resized :: "'m env \<Rightarrow> u64 \<Rightarrow> u64 \<Rightarrow> seg_manager \<Rightarrow> 'm world \<Rightarrow> 'm world \<Rightarrow> bool" where
  "only_resized e this b m w w' \<longleftrightarrow>
     (\<exists>es chunk cur. grow_plan e this b w = Some (Some (chunk, cur)) \<and> hist w' = hist w @ es \<and>
        (\<forall>ev \<in> set es. growth_event (object_of e m) (if anon m then None else Some (cur + chunk)) ev))"

lemma update_segment_table_throws:
  "update_segment_table e this w = Some (Inl x, w') \<Longrightarrow> x = Runtime_error ''Too many sub-segments''"
  by (auto simp: update_segment_table_def Let_def split: bind_splits list.splits if_splits)

lemma grow_throws:
  assumes env: "env_ok e" and m: "managers w this = Some m" and run: "grow e th this b w = Some (Inl x, w')"
    and x: "x \<noteq> Runtime_error ''Too many sub-segments''"
  shows "prefetch w' = prefetch w \<and> only_resized e this b m w w' \<and>
    (x \<noteq> Terminate \<longrightarrow> live_maps (hist w') = live_maps (hist w))"
proof -
  obtain chunk cur where plan: "grow_plan e this b w = Some (Some (chunk, cur))"
    and gc: "grow_commit e th this chunk cur w = Some (Inl x, w')"
    using run by (auto simp: grow_def split: bind_splits option.splits)
  show ?thesis
  proof (cases "anon m")
    case True
    then have "add_segment_anon e th this chunk False w = Some (Inl x, w')" using gc m by (simp add: grow_commit_def)
    from add_segment_anon_throws [OF env this] show ?thesis
      using plan True growth_calls(3) [of "kernel e" chunk "hist w" "object_of e m" None] by (auto simp: only_resized_def)
  next
    case False
    obtain ok h where g: "shm_grow (kernel e) (plat e) (shm_root_name m) (cur + chunk) (hist w) = (ok, h)" by fastforce
    then have live: "live_maps h = live_maps (hist w)" by (metis shm_grow_live snd_conv)
    obtain es where es: "h = hist w @ es" "\<forall>ev \<in> set es. growth_event (object_of e m) (Some (cur + chunk)) ev"
      using growth_calls(1) [of "kernel e" "plat e" "shm_root_name m" "cur + chunk" "hist w"] g by (auto simp: object_of_def)
    show ?thesis
    proof (cases ok)
      case False
      then have "w' = w\<lparr>hist := h\<rparr>" using gc m g \<open>\<not> anon m\<close> by (simp add: grow_commit_def)
      then show ?thesis using plan es live \<open>\<not> anon m\<close> by (auto simp: only_resized_def)
    next
      case True
      let ?w0 = "w\<lparr>hist := h\<rparr>"
      have "add_segment_shm e th this cur chunk False False True ?w0 = Some (Inl x, w')"
        using gc m g \<open>\<not> anon m\<close> True x
        by (auto simp: grow_commit_def dest: update_segment_table_throws split: bind_splits sum.splits)
      from add_segment_shm_throws [OF env _ this] m
      have "prefetch w' = prefetch w" "hist w' = snd (open_shm_chunk (kernel e) (plat e) (shm_root_name m) chunk cur h)"
        "x \<noteq> Terminate \<longrightarrow> live_maps (hist w') = live_maps h" by auto
      moreover obtain es' where "snd (open_shm_chunk (kernel e) (plat e) (shm_root_name m) chunk cur h) = h @ es'"
        "\<forall>ev \<in> set es'. growth_event (object_of e m) (Some (cur + chunk)) ev"
        using growth_calls(2) [of "kernel e" "plat e" "shm_root_name m" chunk cur h "Some (cur + chunk)"]
        by (auto simp: object_of_def)
      ultimately have "hist w' = hist w @ es @ es'" "\<forall>ev \<in> set (es @ es'). growth_event (object_of e m) (Some (cur + chunk)) ev"
        using es by auto
      then have "only_resized e this b m w w'" using plan \<open>\<not> anon m\<close> unfolding only_resized_def by (simp only: if_False) blast
      then show ?thesis using \<open>prefetch w' = prefetch w\<close> \<open>x \<noteq> Terminate \<longrightarrow> live_maps (hist w') = live_maps h\<close> live by simp
    qed
  qed
qed

end
