(* ===== verification/Manager_Life.thy ===== *)
theory Manager_Life
  imports World_Steps Manager_Ops
begin

text \<open>
  The end of a manager's life and the start of one that opens an existing object: destruction
  releases everything the manager held, and \<^verbatim>\<open>open_all_segments\<close> maps the chunks that the
  table lists.
\<close>

section \<open>Destruction\<close>

definition mapping_of :: "'m world \<Rightarrow> seg_info \<Rightarrow> u64 \<times> u64" where
  "mapping_of w i = (case descs (proc w) (seg i) of Some d \<Rightarrow> (base_vaddr d, size_of d) | None \<Rightarrow> (0, 0))"

text \<open>The loop of the destructor on the registry and on the Boost managers, one at a time.\<close>

fun unregister_all :: "'m env \<Rightarrow> nat \<Rightarrow> seg_info list \<Rightarrow> 'm world \<Rightarrow> 'm world option" where
  "unregister_all e th [] w = Some w"
| "unregister_all e th (i # is) w =
     do {
       p \<leftarrow> unregister_segment (trie_cfg e) (plat e) th (seg i) (proc w);
       unregister_all e th is (w\<lparr>proc := p\<rparr>)
     }"

definition destructed ::
  "'m env \<Rightarrow> (u64 \<Rightarrow> sub_segment option) \<Rightarrow> seg_manager \<Rightarrow> seg_info \<Rightarrow> (place \<Rightarrow> 'm option) \<Rightarrow> place \<Rightarrow> 'm option" where
  "destructed e ds m i f =
     (case ds (seg i) of
        Some d \<Rightarrow> if smgr i = nullptr then f
          else f(place_of e m d (smgr i) := map_option (sm_destructor (boost e)) (f (place_of e m d (smgr i))))
      | None \<Rightarrow> f)"

definition smgrs_exist :: "'m env \<Rightarrow> 'm world \<Rightarrow> seg_manager \<Rightarrow> seg_info list \<Rightarrow> bool" where
  "smgrs_exist e w m is \<longleftrightarrow> (\<forall>i \<in> set is. smgr i \<noteq> nullptr \<longrightarrow> smgr_at e w m i \<noteq> None)"

lemma unregister_all_smgrs:
  "unregister_all e th is (w\<lparr>smgrs := f\<rparr>) = map_option (\<lambda>w. w\<lparr>smgrs := f\<rparr>) (unregister_all e th is w)"
proof (induction "is" arbitrary: w)
  case (Cons i "is")
  have "unregister_all e th is (w\<lparr>smgrs := f, proc := p\<rparr>) =
      map_option (\<lambda>w. w\<lparr>smgrs := f\<rparr>) (unregister_all e th is (w\<lparr>proc := p\<rparr>))" for p
  proof -
    have "w\<lparr>smgrs := f, proc := p\<rparr> = w\<lparr>proc := p, smgrs := f\<rparr>" by simp
    then show ?thesis using Cons [of "w\<lparr>proc := p\<rparr>"] by (simp only:)
  qed
  then show ?case
    by (cases "unregister_segment (trie_cfg e) (plat e) th (seg i) (proc w)") simp_all
qed simp

lemma destruct_smgr_eq:
  "destruct_smgr e m i w =
     (if smgr i \<noteq> nullptr \<and> smgr_at e w m i = None then None
      else Some (w\<lparr>smgrs := destructed e (descs (proc w)) m i (smgrs w)\<rparr>))"
  by (cases "descs (proc w) (seg i)")
    (auto simp: destruct_smgr_def destructed_def smgr_at_def split: bind_splits)

lemma destructed_defined: "destructed e ds m i f l = None \<longleftrightarrow> f l = None"
  by (simp add: destructed_def split: option.splits)

lemma smgrs_exist_destructed:
  assumes "descs p = descs (proc w)"
  shows "smgrs_exist e (w\<lparr>smgrs := destructed e ds m i (smgrs w), proc := p\<rparr>) m is \<longleftrightarrow> smgrs_exist e w m is"
  using assms destructed_defined [of e ds m i "smgrs w"]
  by (auto simp: smgrs_exist_def smgr_at_def split: bind_splits)

lemma unregister_segment_descs: "unregister_segment c pl th a p = Some p' \<Longrightarrow> descs p' = descs p"
  by (auto simp: unregister_segment_def Let_def split: bind_splits)

lemma destroy_segments_eq:
  "destroy_segments e th m is w =
     (if smgrs_exist e w m is
      then map_option (\<lambda>v. v\<lparr>smgrs := fold (destructed e (descs (proc w)) m) is (smgrs w)\<rparr>) (unregister_all e th is w)
      else None)"
proof (induction "is" arbitrary: w)
  case Nil
  then show ?case by (simp add: smgrs_exist_def)
next
  case (Cons i "is")
  let ?s = "destructed e (descs (proc w)) m i (smgrs w)"
  show ?case
  proof (cases "unregister_segment (trie_cfg e) (plat e) th (seg i) (proc w)")
    case (Some p)
    let ?w1 = "w\<lparr>smgrs := ?s, proc := p\<rparr>"
    have eq: "?w1 = w\<lparr>proc := p, smgrs := ?s\<rparr>" "descs p = descs (proc w)"
      using unregister_segment_descs [OF Some] by simp_all
    have "unregister_all e th is ?w1 = map_option (\<lambda>v. v\<lparr>smgrs := ?s\<rparr>) (unregister_all e th is (w\<lparr>proc := p\<rparr>))"
      unfolding eq(1) by (rule unregister_all_smgrs)
    then show ?thesis
      using Cons [of ?w1] Some eq(2) smgrs_exist_destructed [OF eq(2), of e "descs (proc w)" m i "is"]
      by (auto simp: destruct_smgr_eq smgrs_exist_def option.map_comp comp_def)
  qed (simp add: destruct_smgr_eq)
qed

text \<open>The entries whose Boost manager lies at a place; each of them runs the destructor there once.\<close>

definition entries_at :: "'m env \<Rightarrow> 'm world \<Rightarrow> seg_manager \<Rightarrow> place \<Rightarrow> seg_info list" where
  "entries_at e w m l =
     filter (\<lambda>i. smgr i \<noteq> nullptr \<and> (\<exists>d. descs (proc w) (seg i) = Some d \<and> l = place_of e m d (smgr i))) (segments m)"

lemma fold_destructed:
  "fold (destructed e ds m) is f l =
     (map_option (sm_destructor (boost e)) ^^
       length (filter (\<lambda>i. smgr i \<noteq> nullptr \<and> (\<exists>d. ds (seg i) = Some d \<and> l = place_of e m d (smgr i))) is)) (f l)"
  by (induction "is" arbitrary: f) (auto simp: destructed_def funpow_swap1 split: option.splits)

lemma destroy_manager_Some:
  assumes "destroy_manager e th this w = Some w'"
  obtains m where "managers w this = Some m" "smgrs_exist e w m (segments m)"
proof -
  let ?wu = "w\<lparr>prefetch := prefetch w @ [Unregister_manager this]\<rparr>"
  obtain m w1 where m: "managers w this = Some m" "destroy_segments e th m (segments m) ?wu = Some w1"
    using assms by (auto simp: destroy_manager_def Let_def split: bind_splits)
  then have "smgrs_exist e ?wu m (segments m)" by (simp add: destroy_segments_eq split: if_splits)
  then show thesis using that [OF m(1)] by (simp add: smgrs_exist_def smgr_at_def)
qed

lemma unregister_all_spec:
  assumes "world_inv e w" "distinct (map seg is)"
    "\<forall>i \<in> set is. unlisted w (seg i) \<and> (\<exists>d. registered (trie_cfg e) (plat e) (proc w) (seg i) d)"
  shows "\<exists>p. unregister_all e th is w = Some (w\<lparr>proc := p\<rparr>) \<and> world_inv e (w\<lparr>proc := p\<rparr>) \<and>
    descs p = descs (proc w) \<and> (\<forall>i \<in> set is. unmapped e (w\<lparr>proc := p\<rparr>) (seg i)) \<and>
    (\<forall>v x. v \<notin> seg ` set is \<longrightarrow> registered (trie_cfg e) (plat e) (proc w) v x \<longrightarrow>
      registered (trie_cfg e) (plat e) p v x) \<and>
    (\<forall>v. unmapped e w v \<longrightarrow> v \<noteq> nullptr \<longrightarrow> unmapped e (w\<lparr>proc := p\<rparr>) v)"
  using assms
proof (induction "is" arbitrary: w)
  case Nil
  show ?case by (rule exI [of _ "proc w"]) (use Nil in simp)
next
  case (Cons i "is")
  obtain d where r: "registered (trie_cfg e) (plat e) (proc w) (seg i) d" and u: "unlisted w (seg i)"
    using Cons.prems(3) by auto
  then have nz: "seg i \<noteq> nullptr" by (simp add: registered_def)
  obtain p1 where p1: "unregister_segment (trie_cfg e) (plat e) th (seg i) (proc w) = Some p1"
      "world_inv e (w\<lparr>proc := p1\<rparr>)" "unmapped e (w\<lparr>proc := p1\<rparr>) (seg i)" "descs p1 = descs (proc w)"
    and keep: "\<forall>v x. v \<noteq> seg i \<longrightarrow> registered (trie_cfg e) (plat e) (proc w) v x \<longrightarrow> registered (trie_cfg e) (plat e) p1 v x"
    and um: "\<forall>v. unmapped e w v \<longrightarrow> v \<noteq> nullptr \<longrightarrow> unmapped e (w\<lparr>proc := p1\<rparr>) v"
    using unregister_step [OF Cons.prems(1) r u, of th] by blast
  let ?w1 = "w\<lparr>proc := p1\<rparr>"
  have "unlisted ?w1 (seg j) \<and> (\<exists>d. registered (trie_cfg e) (plat e) (proc ?w1) (seg j) d)" if j: "j \<in> set is" for j
  proof -
    have "seg j \<noteq> seg i" using j Cons.prems(2) by (metis distinct.simps(2) imageI list.set_map list.simps(9))
    moreover obtain x where "registered (trie_cfg e) (plat e) (proc w) (seg j) x" "unlisted w (seg j)"
      using Cons.prems(3) j by auto
    ultimately have "registered (trie_cfg e) (plat e) p1 (seg j) x" "unlisted ?w1 (seg j)"
      using keep by (simp_all add: unlisted_def)
    then show ?thesis by auto
  qed
  then obtain p where p: "unregister_all e th is ?w1 = Some (?w1\<lparr>proc := p\<rparr>)" "world_inv e (?w1\<lparr>proc := p\<rparr>)"
      "descs p = descs (proc ?w1)" "\<forall>i \<in> set is. unmapped e (?w1\<lparr>proc := p\<rparr>) (seg i)"
    and keep': "\<forall>v x. v \<notin> seg ` set is \<longrightarrow> registered (trie_cfg e) (plat e) (proc ?w1) v x \<longrightarrow>
      registered (trie_cfg e) (plat e) p v x"
    and um': "\<forall>v. unmapped e ?w1 v \<longrightarrow> v \<noteq> nullptr \<longrightarrow> unmapped e (?w1\<lparr>proc := p\<rparr>) v"
    using Cons.IH [of ?w1] p1(2) Cons.prems(2) by auto
  have w: "?w1\<lparr>proc := p\<rparr> = w\<lparr>proc := p\<rparr>" by simp
  show ?case
  proof (intro exI [of _ p] conjI)
    show "unregister_all e th (i # is) w = Some (w\<lparr>proc := p\<rparr>)" using p1(1) p(1) w by simp
    show "world_inv e (w\<lparr>proc := p\<rparr>)" using p(2) w by simp
    show "descs p = descs (proc w)" using p(3) p1(4) by simp
    show "\<forall>j \<in> set (i # is). unmapped e (w\<lparr>proc := p\<rparr>) (seg j)" using p(4) um' p1(3) nz w by simp
    show "\<forall>v x. v \<notin> seg ` set (i # is) \<longrightarrow> registered (trie_cfg e) (plat e) (proc w) v x \<longrightarrow>
      registered (trie_cfg e) (plat e) p v x" using keep keep' by simp
    show "\<forall>v. unmapped e w v \<longrightarrow> v \<noteq> nullptr \<longrightarrow> unmapped e (w\<lparr>proc := p\<rparr>) v" using um um' w by simp
  qed
qed

lemma delete_all_spec:
  assumes "world_inv e w" "distinct (map seg is)"
    "\<forall>i \<in> set is. unmapped e w (seg i) \<and> descs (proc w) (seg i) \<noteq> None"
  shows "\<exists>w'. delete_all e is w = Some w' \<and> world_inv e w' \<and> managers w' = managers w \<and> smgrs w' = smgrs w \<and>
    tables w' = tables w \<and> prefetch w' = prefetch w \<and> trie (proc w') = trie (proc w) \<and> tls (proc w') = tls (proc w) \<and>
    descs (proc w') = (\<lambda>v. if v \<in> seg ` set is then None else descs (proc w) v) \<and>
    live_maps (hist w') = fold remove1 (map (mapping_of w) is) (live_maps (hist w))"
  using assms
proof (induction "is" arbitrary: w)
  case (Cons i "is")
  obtain d where d: "descs (proc w) (seg i) = Some d" and u: "unmapped e w (seg i)" using Cons.prems(3) by auto
  obtain h where h: "delete_desc e (seg i) w = Some (w\<lparr>hist := h, proc := (proc w)\<lparr>descs := (descs (proc w))(seg i := None)\<rparr>\<rparr>)"
      "live_maps h = remove1 (base_vaddr d, size_of d) (live_maps (hist w))"
      "world_inv e (w\<lparr>hist := h, proc := (proc w)\<lparr>descs := (descs (proc w))(seg i := None)\<rparr>\<rparr>)" (is "world_inv e ?w1")
    using delete_step [OF Cons.prems(1) d u] by blast
  have ne: "seg j \<noteq> seg i" if "j \<in> set is" for j
    using that Cons.prems(2) by (metis distinct.simps(2) imageI list.set_map list.simps(9))
  have mp: "map (mapping_of ?w1) is = map (mapping_of w) is" using ne by (simp add: mapping_of_def)
  obtain w' where w': "delete_all e is ?w1 = Some w'" "world_inv e w'" "managers w' = managers ?w1" "smgrs w' = smgrs ?w1"
      "tables w' = tables ?w1" "prefetch w' = prefetch ?w1" "trie (proc w') = trie (proc ?w1)" "tls (proc w') = tls (proc ?w1)"
      "descs (proc w') = (\<lambda>v. if v \<in> seg ` set is then None else descs (proc ?w1) v)"
      "live_maps (hist w') = fold remove1 (map (mapping_of ?w1) is) (live_maps (hist ?w1))"
    using Cons.IH [OF h(3)] Cons.prems(2,3) ne by (auto simp: unmapped_def)
  have "mapping_of w i = (base_vaddr d, size_of d)" using d by (simp add: mapping_of_def)
  moreover have "descs (proc w') = (\<lambda>v. if v \<in> seg ` set (i # is) then None else descs (proc w) v)"
    unfolding w'(9) by (intro ext) simp
  ultimately show ?case
    using h(1,2) w'(1-8,10) mp by (intro exI [of _ w']) simp
qed simp

lemma unregister_all_managers:
  "unregister_all e th is (w\<lparr>managers := f\<rparr>) = map_option (\<lambda>w. w\<lparr>managers := f\<rparr>) (unregister_all e th is w)"
proof (induction "is" arbitrary: w)
  case (Cons i "is")
  have "unregister_all e th is (w\<lparr>managers := f, proc := p\<rparr>) =
      map_option (\<lambda>w. w\<lparr>managers := f\<rparr>) (unregister_all e th is (w\<lparr>proc := p\<rparr>))" for p
  proof -
    have "w\<lparr>managers := f, proc := p\<rparr> = w\<lparr>proc := p, managers := f\<rparr>" by simp
    then show ?thesis using Cons [of "w\<lparr>proc := p\<rparr>"] by (simp only:)
  qed
  then show ?case
    by (cases "unregister_segment (trie_cfg e) (plat e) th (seg i) (proc w)") simp_all
qed simp

lemma delete_all_managers:
  "delete_all e is (w\<lparr>managers := f\<rparr>) = map_option (\<lambda>w. w\<lparr>managers := f\<rparr>) (delete_all e is w)"
proof (induction "is" arbitrary: w)
  case (Cons i "is")
  have "delete_desc e (seg i) (w\<lparr>managers := f\<rparr>) = map_option (\<lambda>w. w\<lparr>managers := f\<rparr>) (delete_desc e (seg i) w)"
    by (cases "descs (proc w) (seg i)") (simp_all add: delete_desc_def)
  then show ?case using Cons by (cases "delete_desc e (seg i) w") simp_all
qed simp

lemma unregister_all_frame: "unregister_all e th is w = Some w' \<Longrightarrow> \<exists>p. w' = w\<lparr>proc := p\<rparr>"
proof (induction "is" arbitrary: w)
  case Nil
  then show ?case by (intro exI [of _ "proc w"]) simp
qed (fastforce split: bind_splits)

lemma delete_all_frame: "delete_all e is w = Some w' \<Longrightarrow> managers w' = managers w"
  by (induction "is" arbitrary: w) (fastforce simp: delete_desc_def split: bind_splits)+

lemma others_unlisted:
  assumes inv: "world_inv e w" and m: "managers w this = Some m" "i \<in> set (segments m)"
  shows "unlisted (w\<lparr>managers := (managers w)(this := None)\<rparr>) (seg i)"
  unfolding unlisted_def
proof (intro allI impI notI)
  fix this' m' j
  assume l: "managers (w\<lparr>managers := (managers w)(this := None)\<rparr>) this' = Some m'" "j \<in> set (segments m')" "seg j = seg i"
  then have m': "this' \<noteq> this" "managers w this' = Some m'" by (auto split: if_splits)
  show False
    using world_seg_desc [OF inv m] world_seg_desc [OF inv m'(2) l(2)] l(3) m'(1) by auto
qed

lemma destroy_manager_spec:
  assumes inv: "world_inv e w" and m: "managers w this = Some m" and ex: "smgrs_exist e w m (segments m)"
  shows "\<exists>w'. destroy_manager e th this w = Some w' \<and> world_inv e w' \<and> managers w' = (managers w)(this := None) \<and>
    smgrs w' = fold (destructed e (descs (proc w)) m) (segments m) (smgrs w) \<and> tables w' = tables w \<and> prefetch w' = prefetch w @ [Unregister_manager this] \<and>
    descs (proc w') = (\<lambda>v. if v \<in> seg ` set (segments m) then None else descs (proc w) v) \<and>
    (\<forall>i \<in> set (segments m). unmapped e w' (seg i)) \<and>
    (\<forall>v x. v \<notin> seg ` set (segments m) \<longrightarrow> registered (trie_cfg e) (plat e) (proc w) v x \<longrightarrow>
      registered (trie_cfg e) (plat e) (proc w') v x) \<and>
    live_maps (hist w') = fold remove1 (map (mapping_of w) (segments m)) (live_maps (hist w))"
proof -
  let ?f = "(managers w)(this := None)" and ?is = "segments m"
  define f where "f = fold (destructed e (descs (proc w)) m) ?is (smgrs w)"
  define wu where "wu = w\<lparr>prefetch := prefetch w @ [Unregister_manager this]\<rparr>"
  define w0 where "w0 = wu\<lparr>smgrs := f\<rparr>"
  have ds: "destroy_segments e th m ?is wu = unregister_all e th ?is w0"
    using ex unfolding w0_def unregister_all_smgrs destroy_segments_eq
    by (simp add: wu_def f_def smgrs_exist_def smgr_at_def)
  have inv0: "world_inv e (w0\<lparr>managers := ?f\<rparr>)"
    using world_inv_drop_manager [of e w0 this] inv by (simp add: w0_def wu_def)
  have dist: "distinct (map seg ?is)" using world_distinct [OF inv m] .
  have "unlisted (w0\<lparr>managers := ?f\<rparr>) (seg i) \<and> (\<exists>d. registered (trie_cfg e) (plat e) (proc (w0\<lparr>managers := ?f\<rparr>)) (seg i) d)"
    if i: "i \<in> set ?is" for i
    using others_unlisted [OF inv m i] world_seg_desc [OF inv m i] by (auto simp: w0_def wu_def unlisted_def)
  then obtain p where p: "unregister_all e th ?is (w0\<lparr>managers := ?f\<rparr>) = Some (w0\<lparr>managers := ?f, proc := p\<rparr>)"
      "world_inv e (w0\<lparr>managers := ?f, proc := p\<rparr>)" "descs p = descs (proc w)"
      "\<forall>i \<in> set ?is. unmapped e (w0\<lparr>managers := ?f, proc := p\<rparr>) (seg i)"
    and keep: "\<forall>v x. v \<notin> seg ` set ?is \<longrightarrow> registered (trie_cfg e) (plat e) (proc w) v x \<longrightarrow>
      registered (trie_cfg e) (plat e) p v x"
    using unregister_all_spec [OF inv0 dist, of th] by (auto simp: w0_def wu_def)
  have u: "unregister_all e th ?is w0 = Some (w0\<lparr>proc := p\<rparr>)"
  proof -
    obtain w1 where w1: "unregister_all e th ?is w0 = Some w1" "w1\<lparr>managers := ?f\<rparr> = w0\<lparr>managers := ?f, proc := p\<rparr>"
      using p(1) unfolding unregister_all_managers by auto
    then obtain pa where pa: "w1 = w0\<lparr>proc := pa\<rparr>" using unregister_all_frame by blast
    then have "pa = p" using arg_cong [OF w1(2), of proc] by simp
    then show ?thesis using w1(1) pa by simp
  qed
  have "\<forall>i \<in> set ?is. unmapped e (w0\<lparr>managers := ?f, proc := p\<rparr>) (seg i) \<and> descs (proc (w0\<lparr>managers := ?f, proc := p\<rparr>)) (seg i) \<noteq> None"
    using p(3,4) world_seg_desc [OF inv m] by fastforce
  note pre = this
  define wp where "wp = w0\<lparr>managers := ?f, proc := p\<rparr>"
  have wp: "managers wp = ?f" "smgrs wp = f" "tables wp = tables w" "hist wp = hist w" "proc wp = p"
    "prefetch wp = prefetch w @ [Unregister_manager this]"
    by (simp_all add: wp_def w0_def wu_def)
  obtain w2 where w2: "delete_all e ?is wp = Some w2" "world_inv e w2"
      "managers w2 = ?f" "smgrs w2 = f" "tables w2 = tables w" "prefetch w2 = prefetch w @ [Unregister_manager this]"
      "trie (proc w2) = trie p" "tls (proc w2) = tls p"
      "descs (proc w2) = (\<lambda>v. if v \<in> seg ` set ?is then None else descs p v)"
      "live_maps (hist w2) = fold remove1 (map (mapping_of wp) ?is) (live_maps (hist w))"
    using delete_all_spec [OF p(2) dist pre] unfolding wp_def [symmetric] wp by blast
  have mp: "mapping_of wp = mapping_of w" using p(3) wp(5) by (intro ext) (simp add: mapping_of_def)
  have "wp = (w0\<lparr>proc := p\<rparr>)\<lparr>managers := ?f\<rparr>" by (simp add: wp_def)
  then have "delete_all e ?is ((w0\<lparr>proc := p\<rparr>)\<lparr>managers := ?f\<rparr>) = Some w2" using w2(1) by (simp only:)
  then obtain w3 where w3: "delete_all e ?is (w0\<lparr>proc := p\<rparr>) = Some w3" "w2 = w3\<lparr>managers := ?f\<rparr>"
    unfolding delete_all_managers by auto
  have "managers w3 = managers w" using delete_all_frame [OF w3(1)] by (simp add: w0_def wu_def)
  then have run: "destroy_manager e th this w = Some w2"
    using m u w3 ds unfolding wu_def by (simp add: destroy_manager_def)
  have "unmapped e w2 (seg i)" if "i \<in> set ?is" for i
    using p(4) that w2(7) by (simp add: unmapped_def)
  moreover have "registered (trie_cfg e) (plat e) (proc w2) v x"
    if "v \<notin> seg ` set ?is" "registered (trie_cfg e) (plat e) (proc w) v x" for v x
  proof -
    have "registered (trie_cfg e) (plat e) p v x" using keep that by blast
    then show ?thesis using that w2(7,9) p(3) by (simp add: registered_def)
  qed
  moreover have "descs (proc w2) = (\<lambda>v. if v \<in> seg ` set ?is then None else descs (proc w) v)"
    using w2(9) unfolding p(3) .
  ultimately show ?thesis using run w2 mp by (intro exI [of _ w2]) (simp add: f_def)
qed

section \<open>Opening an existing object\<close>

text \<open>A descriptor of segment 0 that is registered and adopted, but not yet in \<^verbatim>\<open>segments_\<close>.\<close>

definition primary_mapped :: "'m env \<Rightarrow> nat \<Rightarrow> u64 \<Rightarrow> u64 \<Rightarrow> u64 \<Rightarrow> 'm world \<Rightarrow> bool" where
  "primary_mapped e th this a sz w \<longleftrightarrow> world_inv e w \<and> unlisted w a \<and> no_stale (proc w) th \<and>
     (\<exists>d. registered (trie_cfg e) (plat e) (proc w) a d \<and> manager d = this \<and> \<not> is_anon d \<and> is_primary d \<and>
        discover_growth_fn d \<and> find_by_file_offset_fn d \<and> file_offset d = 0 \<and> size_of d = sz)"

text \<open>Everything but the process and the history stays as it is.\<close>

definition same_rest :: "'m world \<Rightarrow> 'm world \<Rightarrow> bool" where
  "same_rest w w' \<longleftrightarrow> managers w' = managers w \<and> smgrs w' = smgrs w \<and> tables w' = tables w \<and> prefetch w' = prefetch w"

lemma same_rest_trans: "same_rest w w1 \<Longrightarrow> same_rest w1 w2 \<Longrightarrow> same_rest w w2"
  by (simp add: same_rest_def)

lemma same_rest_unlisted: "same_rest w w' \<Longrightarrow> unlisted w' a = unlisted w a"
  by (simp add: same_rest_def unlisted_def)

lemma open_chunk_cases:
  assumes "env_ok e" "world_inv e w"
    and "make_unique e (open_shm_chunk (kernel e) (plat e) name sz fo (hist w)) w = (res, w1)"
  shows "(res = Inl Terminate \<or> res = Inr nullptr) \<and> world_inv e w1 \<and> same_rest w w1 \<and> proc w1 = proc w \<or>
    (\<exists>a d h' off. res = Inr a \<and> a \<noteq> nullptr \<and> a = new_sub_segment e (proc w) \<and>
      (Some d, h') \<in> factories (kernel e) (plat e) name sz off (hist w) \<and>
      size_of d = sz \<and> \<not> is_anon d \<and> file_offset d = fo \<and>
      w1 = w\<lparr>hist := h', proc := (proc w)\<lparr>descs := (descs (proc w))(a \<mapsto> d)\<rparr>\<rparr>)"
proof -
  let ?m = "\<lparr>anon = False, shm_root_name = name, segments = []\<rparr>"
  have "map_shm e ?m fo sz False w = (res, w1)" using assms(3) by (simp add: map_shm_def)
  moreover have "prefetch w1 = prefetch w"
    using assms(3) by (auto simp: make_unique_def Let_def split: prod.splits option.splits if_splits)
  ultimately show ?thesis
    using map_shm_cases [OF assms(1,2), of ?m fo sz False res w1] by (auto simp: unchanged_def same_rest_def)
qed

lemma adopt_primary_simps [simp]:
  "base_vaddr (adopt_desc this (d\<lparr>is_primary := True\<rparr>)) = base_vaddr d"
  "size_of (adopt_desc this (d\<lparr>is_primary := True\<rparr>)) = size_of d"
  "file_offset (adopt_desc this (d\<lparr>is_primary := True\<rparr>)) = file_offset d"
  "is_anon (adopt_desc this (d\<lparr>is_primary := True\<rparr>)) = is_anon d"
  "manager (adopt_desc this (d\<lparr>is_primary := True\<rparr>)) = this" "is_primary (adopt_desc this (d\<lparr>is_primary := True\<rparr>))"
  "discover_growth_fn (adopt_desc this (d\<lparr>is_primary := True\<rparr>))"
  "find_by_file_offset_fn (adopt_desc this (d\<lparr>is_primary := True\<rparr>))"
  by (simp_all add: adopt_desc_def)

text \<open>The probe: the descriptor is registered first and adopted afterwards.\<close>

lemma probe_spec:
  assumes env: "env_ok e" and inv: "world_inv e w"
    and f: "(Some d, h') \<in> factories (kernel e) (plat e) name sz off (hist w)"
    and a: "a = new_sub_segment e (proc w)" "a \<noteq> nullptr"
    and d: "size_of d = sz" "\<not> is_anon d" "file_offset d = 0"
    and w1: "w1 = w\<lparr>hist := h', proc := (proc w)\<lparr>descs := (descs (proc w))(a \<mapsto> d)\<rparr>\<rparr>"
  shows "\<exists>p. register_segment (trie_cfg e) (plat e) th a (proc w1) = Some p \<and>
    primary_mapped e th this a sz (upd_desc a (\<lambda>d. adopt_desc this (d\<lparr>is_primary := True\<rparr>)) (w1\<lparr>proc := p\<rparr>)) \<and>
    same_rest w (upd_desc a (\<lambda>d. adopt_desc this (d\<lparr>is_primary := True\<rparr>)) (w1\<lparr>proc := p\<rparr>)) \<and>
    base_vaddr (the (descs (proc (upd_desc a (\<lambda>d. adopt_desc this (d\<lparr>is_primary := True\<rparr>)) (w1\<lparr>proc := p\<rparr>))) a)) = base_vaddr d"
proof -
  note n = new_step [OF env inv f a, folded w1]
  have ul: "unlisted w1 a" using unmapped_not_listed [OF n(1,2)] .
  obtain p where p: "register_segment (trie_cfg e) (plat e) th a (proc w1) = Some p" "world_inv e (w1\<lparr>proc := p\<rparr>)"
      "registered (trie_cfg e) (plat e) p a d" "no_stale p th"
    using register_step [OF env n(1,5,2,3), of th] by blast
  let ?d = "adopt_desc this (d\<lparr>is_primary := True\<rparr>)"
  have dp: "descs (proc (w1\<lparr>proc := p\<rparr>)) a = Some d" using p(3) by (simp add: registered_def)
  have ul2: "unlisted (w1\<lparr>proc := p\<rparr>) a" using ul by (simp add: unlisted_def)
  let ?w2 = "w1\<lparr>proc := p\<lparr>descs := (descs p)(a \<mapsto> ?d)\<rparr>\<rparr>"
  have eq: "upd_desc a (\<lambda>d. adopt_desc this (d\<lparr>is_primary := True\<rparr>)) (w1\<lparr>proc := p\<rparr>) = ?w2"
    using dp by (simp add: upd_desc_def)
  have u: "world_inv e ?w2" "registered (trie_cfg e) (plat e) (proc ?w2) a ?d"
    using update_step(1) [OF p(2) dp ul2, of ?d] update_step(2) [OF p(2) dp ul2, of ?d a d] p(3) by simp_all
  have "primary_mapped e th this a sz ?w2"
    using u ul2 p(4) d unfolding primary_mapped_def by (intro conjI exI [of _ ?d]) (simp_all add: unlisted_def no_stale_def)
  moreover have "same_rest w ?w2" by (simp add: same_rest_def w1)
  ultimately show ?thesis using p(1) by (intro exI [of _ p]) (simp add: eq)
qed

lemma remap_spec:
  assumes env: "env_ok e" and pm: "primary_mapped e th this a sz w"
  shows "\<exists>r w'. remap_primary e th this name a s0_size w = Some (r, w') \<and> same_rest w w' \<and>
    (case r of
       Inl x \<Rightarrow> x \<in> {Bad_alloc, Terminate} \<and> (x \<noteq> Terminate \<longrightarrow> world_inv e w')
     | Inr b \<Rightarrow> primary_mapped e th this b s0_size w')"
proof -
  obtain d where inv: "world_inv e w" and ul: "unlisted w a" and r: "registered (trie_cfg e) (plat e) (proc w) a d"
    using pm by (auto simp: primary_mapped_def)
  obtain p where p: "unregister_segment (trie_cfg e) (plat e) th a (proc w) = Some p" "world_inv e (w\<lparr>proc := p\<rparr>)"
      "unmapped e (w\<lparr>proc := p\<rparr>) a" "descs p = descs (proc w)"
    using unregister_step [OF inv r ul, of th] by blast
  let ?w1 = "w\<lparr>proc := p\<rparr>"
  have da: "descs (proc ?w1) a = Some d" using r p(4) by (simp add: registered_def)
  obtain res w2 where mu: "make_unique e (open_shm_chunk (kernel e) (plat e) name s0_size 0 (hist ?w1)) ?w1 = (res, w2)"
    by fastforce
  have sr: "same_rest w ?w1" by (simp add: same_rest_def)
  from open_chunk_cases [OF env p(2) mu] show ?thesis
  proof (elim disjE conjE exE)
    assume w2: "world_inv e w2" "same_rest ?w1 w2" "proc w2 = proc ?w1" and res: "res = Inl Terminate"
    then have "remap_primary e th this name a s0_size w = Some (Inl Terminate, w2)"
      using p(1) mu by (simp add: remap_primary_def)
    then show ?thesis using same_rest_trans [OF sr w2(2)] by simp
  next
    assume w2: "world_inv e w2" "same_rest ?w1 w2" "proc w2 = proc ?w1" and res: "res = Inr nullptr"
    have "descs (proc w2) a = Some d" "unmapped e w2 a" using da p(3) w2(3) by (simp_all add: unmapped_def)
    from delete_step [OF w2(1) this] obtain w3 where w3: "delete_desc e a w2 = Some w3" "world_inv e w3" "same_rest w2 w3"
      by (auto simp: same_rest_def)
    then have "remap_primary e th this name a s0_size w = Some (Inl Bad_alloc, w3)"
      using p(1) mu res by (simp add: remap_primary_def)
    then show ?thesis using same_rest_trans [OF same_rest_trans [OF sr w2(2)] w3(3)] w3(2) by simp
  next
    fix b d' h' off
    assume b: "res = Inr b" "b \<noteq> nullptr" "b = new_sub_segment e (proc ?w1)"
      and f: "(Some d', h') \<in> factories (kernel e) (plat e) name s0_size off (hist ?w1)"
      and d': "size_of d' = s0_size" "\<not> is_anon d'" "file_offset d' = 0"
      and w2: "w2 = ?w1\<lparr>hist := h', proc := (proc ?w1)\<lparr>descs := (descs (proc ?w1))(b \<mapsto> d')\<rparr>\<rparr>"
    note n = new_step [OF env p(2) f b(3,2), folded w2]
    have ab: "a \<noteq> b" using n(4) da by auto
    have "descs (proc w2) a = Some d" "unmapped e w2 a" using da p(3) ab by (simp_all add: w2 unmapped_def)
    from delete_step [OF n(1) this] obtain h3 where
      del: "delete_desc e a w2 = Some (w2\<lparr>hist := h3, proc := (proc w2)\<lparr>descs := (descs (proc w2))(a := None)\<rparr>\<rparr>)"
        "world_inv e (w2\<lparr>hist := h3, proc := (proc w2)\<lparr>descs := (descs (proc w2))(a := None)\<rparr>\<rparr>)"
      by blast
    define w3 where "w3 = w2\<lparr>hist := h3, proc := (proc w2)\<lparr>descs := (descs (proc w2))(a := None)\<rparr>\<rparr>"
    have inv3: "world_inv e w3" and b3: "descs (proc w3) b = Some d'" "unmapped e w3 b" "uncached w3 b"
      using del(2) n(2,3,5) ab by (simp_all add: w3_def unmapped_def uncached_def)
    have ul3: "unlisted w3 b" using unmapped_not_listed [OF inv3 b3(2)] .
    let ?d = "adopt_desc this (d'\<lparr>is_primary := True\<rparr>)"
    define w4 where "w4 = w3\<lparr>proc := (proc w3)\<lparr>descs := (descs (proc w3))(b \<mapsto> ?d)\<rparr>\<rparr>"
    have inv4: "world_inv e w4" using update_step(1) [OF inv3 b3(1) ul3, of ?d] by (simp add: w4_def)
    have b4: "descs (proc w4) b = Some ?d" "unmapped e w4 b" "uncached w4 b"
      using b3 by (simp_all add: w4_def unmapped_def uncached_def)
    obtain p5 where p5: "register_segment (trie_cfg e) (plat e) th b (proc w4) = Some p5" "world_inv e (w4\<lparr>proc := p5\<rparr>)"
        "registered (trie_cfg e) (plat e) p5 b ?d" "no_stale p5 th"
      using register_step [OF env inv4 b4, of th] by blast
    have "upd_desc b (\<lambda>d. adopt_desc this (d\<lparr>is_primary := True\<rparr>)) w3 = w4" using b3(1) by (simp add: upd_desc_def w4_def)
    then have run: "remap_primary e th this name a s0_size w = Some (Inr b, w4\<lparr>proc := p5\<rparr>)"
      using p(1) mu b(1,2) del(1) p5(1) by (simp add: remap_primary_def w3_def [symmetric] Let_def)
    have "unlisted (w4\<lparr>proc := p5\<rparr>) b" using ul3 by (simp add: unlisted_def w4_def)
    then have "primary_mapped e th this b s0_size (w4\<lparr>proc := p5\<rparr>)"
      using p5 d' unfolding primary_mapped_def by (intro conjI exI [of _ ?d]) simp_all
    moreover have "same_rest w (w4\<lparr>proc := p5\<rparr>)" by (simp add: same_rest_def w4_def w3_def w2)
    ultimately show ?thesis using run by simp
  qed
qed

text \<open>
  A shared object that is ready to be opened: its table lists contiguous chunks from 0, the
  first at least as large as the probe, and at the start of every chunk there is a Boost manager.
\<close>

definition object_ready :: "'m env \<Rightarrow> 'm world \<Rightarrow> string \<Rightarrow> bool" where
  "object_ready e w path \<longleftrightarrow>
     (let tbl = tables w path; tl = table_layout tbl in
        magic tbl = kSegmentTableMagic \<and> length (entries tbl) = kMaxSubSegments \<and>
        unat (count tbl) \<le> kMaxSubSegments \<and> contiguous 0 tl \<and> tl \<noteq> [] \<and> kMinSegmentSize \<le> snd (hd tl) \<and>
        (\<forall>k < length tl. smgrs w (Shared path (fst (tl ! k) + smgr_offset e (k = 0))) \<noteq> None))"

lemma table_head:
  assumes "table_layout tbl \<noteq> []" "contiguous 0 (table_layout tbl)"
  shows "ent_size (entries tbl ! 0) = snd (hd (table_layout tbl))" "hd (table_layout tbl) = (0, snd (hd (table_layout tbl)))"
    "table_layout tbl = hd (table_layout tbl) # map (\<lambda>i. ent_chunk (entries tbl ! i)) [1..<unat (count tbl)] \<or>
     length (entries tbl) < unat (count tbl)"
proof -
  obtain c cs where c: "table_layout tbl = c # cs" using assms(1) by (cases "table_layout tbl") auto
  have "entries tbl \<noteq> []" "unat (count tbl) \<noteq> 0" using assms(1) by (auto simp: table_layout_def)
  then obtain x xs n where x: "entries tbl = x # xs" "unat (count tbl) = Suc n"
    by (metis list.exhaust not0_implies_Suc)
  then show "ent_size (entries tbl ! 0) = snd (hd (table_layout tbl))" by (simp add: table_layout_def)
  have "fst c = 0" using assms(2) c by (cases c) (simp add: unat_eq_zero)
  then show "hd (table_layout tbl) = (0, snd (hd (table_layout tbl)))" using c by (simp add: prod_eq_iff)
  show "table_layout tbl = hd (table_layout tbl) # map (\<lambda>i. ent_chunk (entries tbl ! i)) [1..<unat (count tbl)] \<or>
     length (entries tbl) < unat (count tbl)"
    using table_tail [of tbl "[hd (table_layout tbl)]" "tl (table_layout tbl)"] c by auto
qed

text \<open>The places of the Boost managers of a layout that starts with segment 0.\<close>

lemma usable_from_object:
  assumes inv: "world_inv e w" and m: "managers w this = Some m" "\<not> anon m"
    and sl: "seg_layout w m = table_layout (tables w (object_of e m))"
    and base: "\<forall>k < length (segments m). \<exists>d. descs (proc w) (seg (segments m ! k)) = Some d \<and>
      smgr (segments m ! k) = base_vaddr d + smgr_offset e (k = 0)"
    and ready: "\<forall>k < length (seg_layout w m). smgrs w (Shared (object_of e m) (fst (seg_layout w m ! k) + smgr_offset e (k = 0))) \<noteq> None"
  shows "usable e w this"
proof -
  have "smgr_at e w m i \<noteq> None" if i: "i \<in> set (segments m)" for i
  proof -
    obtain k where k: "k < length (segments m)" "segments m ! k = i" using i by (auto simp: in_set_conv_nth)
    obtain d where d: "descs (proc w) (seg i) = Some d" "smgr i = base_vaddr d + smgr_offset e (k = 0)"
      using base k by auto
    have "\<not> is_anon d" using world_seg_desc [OF inv m(1) i] d(1) m(2) by auto
    moreover have "fst (seg_layout w m ! k) = file_offset d"
      using k d(1) by (simp add: seg_layout_def chunk_at_def desc_chunk_def)
    ultimately show ?thesis using d ready k by (auto simp: smgr_at_def place_of_def seg_layout_def)
  qed
  then show ?thesis using m(1) by (simp add: usable_def)
qed

text \<open>A manager that has mapped segment 0 and then grown to all the chunks of the table.\<close>

lemma opened_complete:
  assumes inv: "world_inv e w5" and gr: "grown e this w4 w5" and m4: "managers w4 this = Some m4" "segments m4 = [i] \<and> \<not> anon m4"
    and i: "i = \<lparr>seg = b, smgr = base_vaddr d + smgr_offset e True\<rparr>" and d: "descs (proc w4) b = Some d" "is_primary d"
    and m5: "managers w5 this = Some m5"
    and full: "seg_layout w5 m5 = table_layout (tables w5 (object_of e m4))"
    and tb: "length (entries (tables w5 (object_of e m4))) = kMaxSubSegments" "unat (count (tables w5 (object_of e m4))) \<le> kMaxSubSegments"
    and c: "contiguous 0 (seg_layout w5 m5)"
    and ready: "\<forall>k < length (seg_layout w5 m5).
      smgrs w5 (Shared (object_of e m4) (fst (seg_layout w5 m5 ! k) + smgr_offset e (k = 0))) \<noteq> None"
  shows "up_to_date e w5 this \<and> usable e w5 this \<and> managers w5 = (managers w4)(this \<mapsto> m5)"
proof -
  obtain new where new: "managers w5 this = Some (m4\<lparr>segments := segments m4 @ new\<rparr>)" "\<forall>i \<in> set new. well_placed e w5 i"
    "managers w5 = (managers w4)(this \<mapsto> m4\<lparr>segments := segments m4 @ new\<rparr>)"
    using gr m4(1) by (auto simp: grown_def)
  have eq: "m5 = m4\<lparr>segments := i # new\<rparr>" using new(1) m5 m4(2) by simp
  have d5: "descs (proc w5) b = Some d" using gr d(1) by (auto simp: grown_def)
  have ob: "object_of e m5 = object_of e m4" by (simp add: eq object_of_def)
  have "layout_ok e w5 this"
    unfolding layout_ok_def
    by (intro exI [of _ m5]) (use m5 eq m4(2) i d5 d(2) ob tb full c in simp)
  then have up: "up_to_date e w5 this" using m5 ob full by (simp add: up_to_date_def)
  have base: "\<forall>k < length (segments m5). \<exists>d. descs (proc w5) (seg (segments m5 ! k)) = Some d \<and>
      smgr (segments m5 ! k) = base_vaddr d + smgr_offset e (k = 0)"
  proof (intro allI impI)
    fix k assume "k < length (segments m5)"
    then show "\<exists>d. descs (proc w5) (seg (segments m5 ! k)) = Some d \<and>
      smgr (segments m5 ! k) = base_vaddr d + smgr_offset e (k = 0)"
      using d5 i new(2) eq by (cases k) (auto simp: well_placed_def)
  qed
  have "usable e w5 this"
    by (rule usable_from_object [OF inv m5 _ _ base]) (use eq m4(2) full ready ob in simp_all)
  then show ?thesis using up new(3) eq m4(2) by simp
qed

text \<open>
  The first half of \<^verbatim>\<open>open_all_segments\<close>: it throws before anything is listed, or segment 0 is mapped
  at its size and what remains is to push it and to add the other chunks.
\<close>

definition open_rest :: "'m env \<Rightarrow> nat \<Rightarrow> u64 \<Rightarrow> seg_manager \<Rightarrow> u64 \<Rightarrow> 'm world \<Rightarrow> ((exn + unit) \<times> 'm world) option" where
  "open_rest e th this m b w =
     do {
       d \<leftarrow> descs (proc w) b;
       w \<leftarrow> push_segment this \<lparr>seg = b, smgr = base_vaddr d + smgr_offset e True\<rparr> w;
       add_listed e th this [1..<unat (count (tables w (object_of e m)))] w
     }"

definition primary_size :: "segment_table_t \<Rightarrow> u64" where
  "primary_size tbl = max kMinSegmentSize (ent_size (entries tbl ! 0))"

lemma maybe_remap:
  assumes env: "env_ok e" and pm: "primary_mapped e th this a kMinSegmentSize w"
  shows "\<exists>r w'. (if s0 > kMinSegmentSize then remap_primary e th this name a s0 w else Some (Inr a, w)) = Some (r, w') \<and>
    same_rest w w' \<and>
    (case r of
       Inl x \<Rightarrow> x \<in> {Bad_alloc, Terminate} \<and> (x \<noteq> Terminate \<longrightarrow> world_inv e w')
     | Inr b \<Rightarrow> primary_mapped e th this b (max kMinSegmentSize s0) w')"
proof (cases "s0 > kMinSegmentSize")
  case True
  then have "max kMinSegmentSize s0 = s0" by simp
  then show ?thesis using remap_spec [OF env pm, of name s0] True by presburger
next
  case False
  then show ?thesis using pm by (simp add: max_def same_rest_def)
qed

lemma open_primary:
  assumes env: "env_ok e" and inv: "world_inv e w" and m: "managers w this = Some m"
  defines "tbl \<equiv> tables w (object_of e m)"
  shows "(\<exists>x w'. open_all_segments e th this w = Some (Inl x, w') \<and>
      (x = Runtime_error ''Invalid segment table magic'' \<and> magic tbl \<noteq> kSegmentTableMagic \<or>
       x \<in> {Runtime_error ''Cannot open primary segment'', Bad_alloc, Terminate} \<and>
       (x \<noteq> Terminate \<longrightarrow> world_inv e w' \<and> managers w' = managers w))) \<or>
    (\<exists>b w'. open_all_segments e th this w = open_rest e th this m b w' \<and>
      same_rest w w' \<and> primary_mapped e th this b (primary_size tbl) w')"
proof -
  let ?name = "shm_root_name m"
  obtain res w1 where mu: "make_unique e (open_shm_chunk (kernel e) (plat e) ?name kMinSegmentSize 0 (hist w)) w = (res, w1)"
    by fastforce
  from open_chunk_cases [OF env inv mu] show ?thesis
  proof (elim disjE conjE exE)
    assume "res = Inl Terminate"
    then show ?thesis using mu m by (intro disjI1 exI [of _ Terminate] exI [of _ w1]) (simp add: open_all_segments_def Let_def)
  next
    assume "res = Inr nullptr" "world_inv e w1" "same_rest w w1"
    then show ?thesis using mu m
      by (intro disjI1 exI [of _ "Runtime_error ''Cannot open primary segment''"] exI [of _ w1])
        (simp add: open_all_segments_def Let_def same_rest_def)
  next
    fix a d h' off
    assume a: "res = Inr a" "a \<noteq> nullptr" "a = new_sub_segment e (proc w)"
      and f: "(Some d, h') \<in> factories (kernel e) (plat e) ?name kMinSegmentSize off (hist w)"
      and d: "size_of d = kMinSegmentSize" "\<not> is_anon d" "file_offset d = 0"
      and w1: "w1 = w\<lparr>hist := h', proc := (proc w)\<lparr>descs := (descs (proc w))(a \<mapsto> d)\<rparr>\<rparr>"
    obtain p where p: "register_segment (trie_cfg e) (plat e) th a (proc w1) = Some p"
      and pm0: "primary_mapped e th this a kMinSegmentSize (upd_desc a (\<lambda>d. adopt_desc this (d\<lparr>is_primary := True\<rparr>)) (w1\<lparr>proc := p\<rparr>))"
      and sr0: "same_rest w (upd_desc a (\<lambda>d. adopt_desc this (d\<lparr>is_primary := True\<rparr>)) (w1\<lparr>proc := p\<rparr>))"
      using probe_spec [OF env inv f a(3,2) d w1, of th this] by blast
    define w2 where "w2 = upd_desc a (\<lambda>d. adopt_desc this (d\<lparr>is_primary := True\<rparr>)) (w1\<lparr>proc := p\<rparr>)"
    note pm2 = pm0 [folded w2_def] and sr2 = sr0 [folded w2_def]
    have t2: "tables w2 (object_of e m) = tbl" using sr2 by (simp add: same_rest_def tbl_def)
    show ?thesis
    proof (cases "magic tbl = kSegmentTableMagic")
      case False
      have "\<exists>d2. descs (proc w2) a = Some d2" using pm2 by (auto simp: primary_mapped_def registered_def)
      then have "\<exists>w3. open_all_segments e th this w = Some (Inl (Runtime_error ''Invalid segment table magic''), w3)"
        using mu m a(1,2) p t2 False by (auto simp: open_all_segments_def Let_def w2_def [symmetric] delete_desc_def)
      then show ?thesis using False by blast
    next
      case True
      obtain r w3 where rm: "(if ent_size (entries tbl ! 0) > kMinSegmentSize
            then remap_primary e th this ?name a (ent_size (entries tbl ! 0)) w2 else Some (Inr a, w2)) = Some (r, w3)"
          "same_rest w2 w3"
        and res: "case r of Inl x \<Rightarrow> x \<in> {Bad_alloc, Terminate} \<and> (x \<noteq> Terminate \<longrightarrow> world_inv e w3)
          | Inr b \<Rightarrow> primary_mapped e th this b (primary_size tbl) w3"
        using maybe_remap [OF env pm2, of "ent_size (entries tbl ! 0)" ?name] unfolding primary_size_def by blast
      have sr3: "same_rest w w3" using same_rest_trans [OF sr2 rm(2)] .
      have "open_all_segments e th this w =
          do {
            (r, w) \<leftarrow> (if ent_size (entries tbl ! 0) > kMinSegmentSize
              then remap_primary e th this ?name a (ent_size (entries tbl ! 0)) w2 else Some (Inr a, w2));
            case r of Inl x \<Rightarrow> Some (Inl x, w) | Inr b \<Rightarrow> open_rest e th this m b w
          }"
        unfolding open_rest_def using mu m a(1,2) p True t2 by (simp add: open_all_segments_def Let_def w2_def [symmetric])
      then have run: "open_all_segments e th this w =
          (case r of Inl x \<Rightarrow> Some (Inl x, w3) | Inr b \<Rightarrow> open_rest e th this m b w3)"
        unfolding rm(1) by simp
      show ?thesis
      proof (cases r)
        case (Inl x)
        then show ?thesis using run res sr3
          by (intro disjI1 exI [of _ x] exI [of _ w3]) (auto simp: same_rest_def)
      next
        case (Inr b)
        then show ?thesis using run res sr3 by auto
      qed
    qed
  qed
qed

text \<open>Segment 0 becomes the first segment of the manager.\<close>

lemma push_primary:
  assumes pm: "primary_mapped e th this b sz w" and m: "managers w this = Some m" "\<not> anon m" "segments m = []"
  shows "\<exists>d i w'. descs (proc w) b = Some d \<and> i = \<lparr>seg = b, smgr = base_vaddr d + smgr_offset e True\<rparr> \<and>
    push_segment this i w = Some w' \<and> world_inv e w' \<and> w' = w\<lparr>managers := (managers w)(this \<mapsto> m\<lparr>segments := [i]\<rparr>)\<rparr> \<and>
    no_stale (proc w') th \<and> is_primary d \<and> size_of d = sz \<and> seg_layout w' (m\<lparr>segments := [i]\<rparr>) = [(0, sz)] \<and>
    open_rest e th this m b w = add_listed e th this [1..<unat (count (tables w (object_of e m)))] w'"
proof -
  obtain d where inv: "world_inv e w" and ul: "unlisted w b" and ns: "no_stale (proc w) th"
    and r: "registered (trie_cfg e) (plat e) (proc w) b d"
    and d: "manager d = this" "\<not> is_anon d" "is_primary d" "discover_growth_fn d" "find_by_file_offset_fn d"
      "file_offset d = 0" "size_of d = sz"
    using pm by (auto simp: primary_mapped_def)
  have ds: "descs (proc w) b = Some d" using r by (simp add: registered_def)
  let ?i = "\<lparr>seg = b, smgr = base_vaddr d + smgr_offset e True\<rparr>"
  obtain w' where w': "push_segment this ?i w = Some w'" "world_inv e w'"
    "w' = w\<lparr>managers := (managers w)(this \<mapsto> m\<lparr>segments := [?i]\<rparr>)\<rparr>"
    using push_step [OF inv m(1) ul r d(1) _ d(4,5), of "base_vaddr d + smgr_offset e True"] d(2) m(2,3) by auto
  have "seg_layout w' (m\<lparr>segments := [?i]\<rparr>) = [(0, sz)]"
    using ds d(6,7) w'(3) by (simp add: seg_layout_def chunk_at_def desc_chunk_def)
  moreover have "open_rest e th this m b w = add_listed e th this [1..<unat (count (tables w (object_of e m)))] w'"
    using ds w'(1,3) by (simp add: open_rest_def)
  ultimately show ?thesis using ds w' ns d(3,7)
    by (intro exI [of _ d] exI [of _ ?i] exI [of _ w']) simp
qed

lemma open_all_spec:
  assumes env: "env_ok e" and inv: "world_inv e w"
    and m: "managers w this = Some m" "\<not> anon m" "segments m = []" and rd: "object_ready e w (object_of e m)"
  shows "\<exists>r w'. open_all_segments e th this w = Some (r, w') \<and>
    (case r of
       Inl x \<Rightarrow> x \<in> {Runtime_error ''Cannot open primary segment'', Bad_alloc, Terminate,
         Runtime_error ''segmented_segment_manager: failed to map SHM chunk''} \<and>
         (x \<noteq> Terminate \<longrightarrow> world_inv e w' \<and> managers w' this \<noteq> None)
     | Inr _ \<Rightarrow> world_inv e w' \<and> up_to_date e w' this \<and> usable e w' this \<and> no_stale (proc w') th \<and>
         tables w' = tables w \<and> smgrs w' = smgrs w \<and>
         (\<exists>m'. managers w' = (managers w)(this \<mapsto> m') \<and> anon m' = anon m \<and> shm_root_name m' = shm_root_name m \<and>
           seg_layout w' m' = table_layout (tables w (object_of e m))))"
proof -
  let ?ob = "object_of e m"
  let ?tbl = "tables w ?ob"
  define tlay where "tlay = table_layout ?tbl"
  have rd': "magic ?tbl = kSegmentTableMagic" "length (entries ?tbl) = kMaxSubSegments"
      "unat (count ?tbl) \<le> kMaxSubSegments" "contiguous 0 tlay" "tlay \<noteq> []" "kMinSegmentSize \<le> snd (hd tlay)"
      "\<forall>k < length tlay. smgrs w (Shared ?ob (fst (tlay ! k) + smgr_offset e (k = 0))) \<noteq> None"
    using rd by (auto simp: object_ready_def Let_def tlay_def)
  define s0 where "s0 = snd (hd tlay)"
  note th = table_head [of ?tbl, folded tlay_def, OF rd'(5,4), folded s0_def]
  have tl: "tlay = (0, s0) # map (\<lambda>i. ent_chunk (entries ?tbl ! i)) [1..<unat (count ?tbl)]" using th rd'(2,3) by auto
  have ps: "primary_size ?tbl = s0" using th(1) rd'(6) by (simp add: primary_size_def s0_def max_def)
  consider (failed) x w1 where "open_all_segments e th this w = Some (Inl x, w1)"
      "x \<in> {Runtime_error ''Cannot open primary segment'', Bad_alloc, Terminate}"
      "x \<noteq> Terminate \<longrightarrow> world_inv e w1 \<and> managers w1 = managers w"
    | (mapped) b w3 where "open_all_segments e th this w = open_rest e th this m b w3" "same_rest w w3"
      "primary_mapped e th this b s0 w3"
    using open_primary [OF env inv m(1), of th] rd'(1) unfolding ps by blast
  then show ?thesis
  proof cases
    case failed
    then show ?thesis using m(1) by (intro exI [of _ "Inl x"] exI [of _ w1]) auto
  next
    case mapped
    have m3: "managers w3 this = Some m" using mapped(2) m by (simp add: same_rest_def)
    obtain d i w4 where d: "descs (proc w3) b = Some d" "i = \<lparr>seg = b, smgr = base_vaddr d + smgr_offset e True\<rparr>" "is_primary d"
      and push: "world_inv e w4" "w4 = w3\<lparr>managers := (managers w3)(this \<mapsto> m\<lparr>segments := [i]\<rparr>)\<rparr>" "no_stale (proc w4) th"
      and sl4: "seg_layout w4 (m\<lparr>segments := [i]\<rparr>) = [(0, s0)]"
      and rest: "open_rest e th this m b w3 = add_listed e th this [1..<unat (count (tables w3 ?ob))] w4"
      using push_primary [OF mapped(3) m3 m(2,3)] by blast
    let ?m4 = "m\<lparr>segments := [i]\<rparr>" and ?is = "[1..<unat (count ?tbl)]"
    have w4: "tables w4 = tables w" "smgrs w4 = smgrs w" "managers w4 this = Some ?m4" "managers w4 = (managers w)(this \<mapsto> ?m4)"
      using mapped(2) push(2) by (simp_all add: same_rest_def)
    have ob4: "object_of e ?m4 = ?ob" by (simp add: object_of_def)
    have "\<forall>i \<in> set ?is. i < length (entries ?tbl)" using rd'(2,3) by auto
    then obtain r5 w5 k m5 where al: "add_listed e th this ?is w4 = Some (r5, w5)" "world_inv e w5" "grown e this w4 w5"
        "tables w5 = tables w4" "smgrs w5 = smgrs w4" "managers w5 this = Some m5" "anon m5 = anon ?m4"
        "shm_root_name m5 = shm_root_name ?m4"
        "seg_layout w5 m5 = seg_layout w4 ?m4 @ map (\<lambda>i. ent_chunk (entries ?tbl ! i)) (take k ?is)"
      and res5: "case r5 of
           Inl x \<Rightarrow> x \<in> {Runtime_error ''segmented_segment_manager: failed to map SHM chunk'', Terminate}
         | Inr _ \<Rightarrow> k = length ?is"
      using add_listed_spec [OF env push(1) w4(3), of ?tbl ?is th] m(2) w4(1) ob4 by auto
    have run5: "open_all_segments e th this w = Some (r5, w5)"
      using mapped(1,2) rest al(1) by (simp add: same_rest_def)
    show ?thesis
    proof (cases r5)
      case (Inl x)
      then show ?thesis using run5 res5 al(2,6) by (intro exI [of _ "Inl x"] exI [of _ w5]) auto
    next
      case (Inr y)
      then have full: "seg_layout w5 m5 = tlay" using al(9) sl4 tl res5 by simp
      have b4: "descs (proc w4) b = Some d" using d(1) push(2) by simp
      have fin: "up_to_date e w5 this \<and> usable e w5 this \<and> managers w5 = (managers w4)(this \<mapsto> m5)"
        by (rule opened_complete [OF al(2,3) w4(3) _ d(2) b4 d(3) al(6)])
          (use m(2) full al(4,5) w4(1,2) rd'(2-4,7) ob4 in \<open>simp_all add: tlay_def\<close>)
      have "no_stale (proc w5) th" using al(3) push(3) by (auto simp: grown_def)
      then show ?thesis
        using run5 Inr al(2,4,5,7,8) fin w4 full
        by (intro exI [of _ "Inr ()"] exI [of _ w5]) (auto simp: tlay_def)
    qed
  qed
qed

lemma delete_all_total:
  "distinct (map seg is) \<Longrightarrow> \<forall>i \<in> set is. descs (proc w) (seg i) \<noteq> None \<Longrightarrow> \<exists>w'. delete_all e is w = Some w'"
proof (induction "is" arbitrary: w)
  case (Cons i "is")
  obtain d where d: "descs (proc w) (seg i) = Some d" using Cons.prems by auto
  let ?w1 = "w\<lparr>hist := destroy_sub_segment (kernel e) (plat e) d (hist w),
    proc := (proc w)\<lparr>descs := (descs (proc w))(seg i := None)\<rparr>\<rparr>"
  have "seg j \<noteq> seg i" if "j \<in> set is" for j
    using that Cons.prems(1) by (metis distinct.simps(2) imageI list.set_map list.simps(9))
  then have "\<exists>w'. delete_all e is ?w1 = Some w'" using Cons.IH [of ?w1] Cons.prems by auto
  then show ?case using d by (simp add: delete_desc_def)
qed simp

lemma new_manager_open_spec:
  assumes env: "env_ok e" and inv: "world_inv e w" and rd: "object_ready e w (get_platform_shm_path (plat e) name)"
  shows "\<exists>r w'. new_manager_shm e th this name initial False w = Some (r, w') \<and>
    (case r of
       Inl x \<Rightarrow> x \<in> {Runtime_error ''Cannot open primary segment'', Bad_alloc, Terminate,
         Runtime_error ''segmented_segment_manager: failed to map SHM chunk''} \<and>
         (x \<noteq> Terminate \<longrightarrow> managers w' this = None)
     | Inr _ \<Rightarrow> world_inv e w' \<and> up_to_date e w' this \<and> usable e w' this \<and> no_stale (proc w') th \<and>
         tables w' = tables w \<and> smgrs w' = smgrs w \<and>
         (\<exists>m. managers w' = (managers w)(this \<mapsto> m) \<and> \<not> anon m \<and> shm_root_name m = name \<and>
           seg_layout w' m = table_layout (tables w (get_platform_shm_path (plat e) name))))"
proof -
  let ?m = "\<lparr>anon = False, shm_root_name = name, segments = []\<rparr>"
  define w0 where "w0 = w\<lparr>managers := (managers w)(this \<mapsto> ?m)\<rparr>"
  have inv0: "world_inv e w0" using world_inv_fresh_manager [OF inv] by (simp add: w0_def)
  have m0: "managers w0 this = Some ?m" "\<not> anon ?m" "segments ?m = []" by (simp_all add: w0_def)
  have ob: "object_of e ?m = get_platform_shm_path (plat e) name" by (simp add: object_of_def)
  have "object_ready e w0 (object_of e ?m)" using rd by (simp add: object_ready_def w0_def ob)
  from open_all_spec [OF env inv0 m0 this, of th] obtain r w1 where
    run: "open_all_segments e th this w0 = Some (r, w1)"
    and res: "case r of
       Inl x \<Rightarrow> x \<in> {Runtime_error ''Cannot open primary segment'', Bad_alloc, Terminate,
         Runtime_error ''segmented_segment_manager: failed to map SHM chunk''} \<and>
         (x \<noteq> Terminate \<longrightarrow> world_inv e w1 \<and> managers w1 this \<noteq> None)
     | Inr _ \<Rightarrow> world_inv e w1 \<and> up_to_date e w1 this \<and> usable e w1 this \<and> no_stale (proc w1) th \<and>
         tables w1 = tables w0 \<and> smgrs w1 = smgrs w0 \<and>
         (\<exists>m'. managers w1 = (managers w0)(this \<mapsto> m') \<and> anon m' = anon ?m \<and> shm_root_name m' = shm_root_name ?m \<and>
           seg_layout w1 m' = table_layout (tables w0 (object_of e ?m)))"
    by blast
  have nm: "new_manager_shm e th this name initial False w = finish_constructor e this (r, w1)"
    using run by (simp add: new_manager_shm_def w0_def)
  show ?thesis
  proof (cases r)
    case (Inl x)
    show ?thesis
    proof (cases "x = Terminate")
      case True
      then show ?thesis using nm Inl by (intro exI [of _ "Inl x"] exI [of _ w1]) (simp add: finish_constructor_def)
    next
      case False
      then obtain m1 where m1: "world_inv e w1" "managers w1 this = Some m1" using res Inl by auto
      have "\<forall>i \<in> set (segments m1). descs (proc w1) (seg i) \<noteq> None" using world_seg_desc [OF m1] by blast
      then obtain w2 where "delete_all e (segments m1) w1 = Some w2"
        using delete_all_total [OF world_distinct [OF m1]] by blast
      then show ?thesis using nm Inl m1(2) False res
        by (intro exI [of _ "Inl x"] exI [of _ "w2\<lparr>managers := (managers w2)(this := None)\<rparr>"])
          (simp add: finish_constructor_def)
    qed
  next
    case (Inr y)
    define w' where "w' = w1\<lparr>prefetch := prefetch w1 @ [Register_manager this]\<rparr>"
    have run': "new_manager_shm e th this name initial False w = Some (Inr (), w')"
      using nm Inr by (simp add: finish_constructor_def w'_def)
    have r1: "world_inv e w1" "up_to_date e w1 this" "usable e w1 this" "no_stale (proc w1) th"
      "tables w1 = tables w" "smgrs w1 = smgrs w"
      "\<exists>m'. managers w1 = (managers w)(this \<mapsto> m') \<and> \<not> anon m' \<and> shm_root_name m' = name \<and>
           seg_layout w1 m' = table_layout (tables w (object_of e ?m))"
      using res Inr by (auto simp: w0_def)
    have "world_inv e w'" "up_to_date e w' this" "usable e w' this"
      using r1(1-3) by (simp_all add: w'_def up_to_date_def layout_ok_def usable_def smgr_at_def)
    then show ?thesis using run' r1 ob by (intro exI [of _ "Inr ()"] exI [of _ w']) (simp add: w'_def)
  qed
qed

text \<open>A freshly created object is ready.\<close>

lemma created_ready:
  assumes inv: "world_inv e w" and l: "up_to_date e w this" and u: "usable e w this" and f: "fresh_shm e w this name sz" and sz: "kMinSegmentSize \<le> sz"
  shows "object_ready e w (get_platform_shm_path (plat e) name)"
proof -
  let ?path = "get_platform_shm_path (plat e) name"
  obtain a d where m: "managers w this = Some \<lparr>anon = False, shm_root_name = name,
          segments = [\<lparr>seg = a, smgr = base_vaddr d + smgr_offset e True\<rparr>]\<rparr>" (is "_ = Some ?m")
    and d: "descs (proc w) a = Some d" "file_offset d = 0" "size_of d = sz"
    and t: "magic (tables w ?path) = kSegmentTableMagic" "table_layout (tables w ?path) = [(0, sz)]"
    using f by (auto simp: fresh_shm_def)
  have ob: "object_of e ?m = ?path" by (simp add: object_of_def)
  have lo: "length (entries (tables w ?path)) = kMaxSubSegments" "unat (count (tables w ?path)) \<le> kMaxSubSegments"
    "contiguous 0 (table_layout (tables w ?path))"
    using l m ob by (auto simp: up_to_date_def layout_ok_def)
  have "smgr_at e w ?m \<lparr>seg = a, smgr = base_vaddr d + smgr_offset e True\<rparr> \<noteq> None"
    using u m by (auto simp: usable_def)
  moreover have "\<not> is_anon d" using world_seg_desc [OF inv m] d(1) by auto
  ultimately have "smgrs w (Shared ?path (smgr_offset e True)) \<noteq> None"
    using d(1,2) by (auto simp: smgr_at_def place_of_def object_of_def split: bind_splits)
  then show ?thesis using t lo sz by (simp add: object_ready_def Let_def)
qed

section \<open>An opening that throws\<close>

text \<open>
  An opening constructor that throws keeps the invariant as long as it has pushed or registered nothing
  that it does not take back: when the primary segment cannot be mapped, or not again at its full
  size.
\<close>

lemma add_segment_shm_exn:
  "add_segment_shm e th this fo sz pr cr ini w = Some (Inl x, w') \<Longrightarrow>
   x \<in> {Runtime_error ''segmented_segment_manager: failed to map SHM chunk'', Terminate}"
  by (auto simp: add_segment_shm_def map_shm_def make_unique_def Let_def
      split: bind_splits sum.splits prod.splits option.splits if_splits)

lemma add_listed_exn:
  "add_listed e th this is w = Some (Inl x, w') \<Longrightarrow>
   x \<in> {Runtime_error ''segmented_segment_manager: failed to map SHM chunk'', Terminate}"
proof (induction "is" arbitrary: w)
  case (Cons i "is")
  obtain fo sz r w1 where a: "add_segment_shm e th this fo sz False False False w = Some (r, w1)"
    and k: "(case r of Inl y \<Rightarrow> Some (Inl y, w1) | Inr _ \<Rightarrow> add_listed e th this is w1) = Some (Inl x, w')"
    using Cons.prems by (auto simp: Let_def split: bind_splits if_splits)
  show ?case
  proof (cases r)
    case (Inl y)
    then show ?thesis using k a add_segment_shm_exn [of e th this fo sz False False False w y w1] by simp
  next
    case (Inr u)
    then show ?thesis using k Cons.IH [of w1] by simp
  qed
qed simp

definition leaves_entries :: "exn \<Rightarrow> bool" where
  "leaves_entries x \<longleftrightarrow> x \<in> {Runtime_error ''Invalid segment table magic'',
     Runtime_error ''segmented_segment_manager: failed to map SHM chunk''}"

lemma open_manager_throws:
  assumes env: "env_ok e" and inv: "world_inv e w"
    and run: "new_manager_shm e th this name sz False w = Some (Inl x, w')" and x: "x \<noteq> Terminate" "\<not> leaves_entries x"
  shows "world_inv e w'"
proof -
  let ?m = "\<lparr>anon = False, shm_root_name = name, segments = []\<rparr>"
  let ?w0 = "w\<lparr>managers := (managers w)(this \<mapsto> ?m)\<rparr>"
  have inv0: "world_inv e ?w0" using world_inv_fresh_manager [OF inv] by simp
  have m0: "managers ?w0 this = Some ?m" by simp
  obtain w1 where o: "open_all_segments e th this ?w0 = Some (Inl x, w1)" "finish_constructor e this (Inl x, w1) = Some (Inl x, w')"
    using run by (auto simp: new_manager_shm_def finish_constructor_def split: bind_splits sum.splits if_splits)
  have "world_inv e w1 \<and> managers w1 = managers ?w0"
    using open_primary [OF env inv0 m0, of th]
  proof (elim disjE exE conjE)
    fix b v assume r: "open_all_segments e th this ?w0 = open_rest e th this ?m b v"
    then obtain js v' where "add_listed e th this js v' = Some (Inl x, w1)"
      using o(1) by (auto simp: open_rest_def split: bind_splits)
    then show ?thesis using add_listed_exn [of e th this js v' x w1] x by (auto simp: leaves_entries_def)
  qed (use o(1) x in \<open>auto simp: leaves_entries_def\<close>)
  then have "w' = w1\<lparr>managers := (managers w1)(this := None)\<rparr>" "world_inv e w1"
    using o(2) x by (simp_all add: finish_constructor_def)
  then show ?thesis using world_inv_drop_manager by simp
qed

end
