(* ===== verification/Demo_World.thy ===== *)
theory Demo_World
  imports Manager_Life
begin

text \<open>
  A concrete environment that satisfies everything the theorems rely on, and the worlds of a
  process that creates a shared-memory manager and of another that opens it. The kernel maps at
  a multiple of 256 MiB that is apart from every live mapping; the allocator of descriptors
  skips addresses that are in use or in a cache; Boost's manager is a bump allocator with a
  list of names.
\<close>

section \<open>Environment\<close>

definition apart :: "platform \<Rightarrow> u64 \<times> u64 \<Rightarrow> u64 \<times> u64 \<Rightarrow> bool" where
  "apart pl a b \<longleftrightarrow>
     page_end pl (fst a) (snd a) \<le> page_begin pl (fst b) \<or> page_end pl (fst b) (snd b) \<le> page_begin pl (fst a)"

definition careful_os :: os where
  "careful_os = demo_os\<lparr>sys_mmap := \<lambda>h sz fl fd off.
     let p = push_bit 28 (of_nat (Suc (length h)))
     in if fits linux_x86 p sz \<and> list_all (apart linux_x86 (p, sz)) (live_maps h) then p else MAP_FAILED\<rparr>"

definition free_address :: "process \<Rightarrow> u64 \<Rightarrow> bool" where
  "free_address p a \<longleftrightarrow> descs p a = None \<and> (\<forall>th. \<forall>x \<in> set (tls p th). e_seg x \<noteq> a)"

definition careful_new :: "process \<Rightarrow> u64" where
  "careful_new p =
     (if free_address p 0x5000 then 0x5000 else if free_address p 0x6000 then 0x6000
      else if free_address p 0x7000 then 0x7000 else nullptr)"

text \<open>The region's length, the first unused offset, the named objects and the allocated blocks.\<close>

type_synonym bump = "u64 \<times> u64 \<times> (string \<times> u64 \<times> u64) list \<times> (u64 \<times> u64) list"

definition bump_boost :: "bump boost_smgr" where
  "bump_boost =
     \<lparr>sm_new = \<lambda>n. (n, 64, [], []),
      sm_allocate = \<lambda>b (n, k, ns, bs).
        if k < n \<and> b \<le> n - k then (Some k, (n, k + max b 1, ns, (k, b) # bs)) else (None, (n, k, ns, bs)),
      sm_deallocate = \<lambda>off (n, k, ns, bs). (n, k, ns, filter (\<lambda>x. fst x \<noteq> off) bs),
      sm_free = \<lambda>(n, k, ns, bs). n - k,
      sm_construct = \<lambda>b name (n, k, ns, bs).
        if name \<in> set (map fst ns) then (C_throw Already_exists, (n, k, ns, bs))
        else if k < n \<and> b \<le> n - k then (C_ok k, (n, k + max b 1, (name, k, 1) # ns, bs))
        else (C_bad_alloc, (n, k, ns, bs)),
      sm_find = \<lambda>name (n, k, ns, bs). map_of ns name,
      sm_destroy = \<lambda>name (n, k, ns, bs). (name \<in> set (map fst ns), (n, k, filter (\<lambda>x. fst x \<noteq> name) ns, bs)),
      sm_destructor = \<lambda>(n, k, ns, bs). (n, k, [], bs)\<rparr>"

definition demo_env :: "bump env" where
  "demo_env = \<lparr>boost = bump_boost, kernel = careful_os, plat = linux_x86, trie_cfg = default_params,
     new_sub_segment = careful_new, sizeof_segment_table = 10368, alignof_smgr = 16\<rparr>"

lemma demo_env_simps [simp]:
  "kernel demo_env = careful_os" "plat demo_env = linux_x86" "trie_cfg demo_env = default_params"
  "new_sub_segment demo_env = careful_new" "boost demo_env = bump_boost"
  by (simp_all add: demo_env_def)

lemma apart_disjoint: "apart pl a b \<Longrightarrow> pages_disjoint pl a b"
  by (auto simp: apart_def pages_disjoint_def)

lemma careful_mmap_ok: "mmap_ok careful_os linux_x86"
  unfolding mmap_ok_def
  by (auto simp: careful_os_def Let_def list_all_iff intro: apart_disjoint split: if_splits)

lemma careful_new_ok: "new_ok careful_new"
  by (auto simp: new_ok_def careful_new_def free_address_def)

lemma demo_env_ok: "env_ok demo_env"
  by (simp add: env_ok_def careful_mmap_ok careful_new_ok)

section \<open>Worlds\<close>

definition empty_process :: process where
  "empty_process = \<lparr>trie = empty_trie, tls = (\<lambda>_. tls_cache_init), descs = Map.empty\<rparr>"

text \<open>A process before it has any manager, after some system calls, which sees the shared objects.\<close>

definition demo_init :: "history \<Rightarrow> (place \<rightharpoonup> bump) \<Rightarrow> (string \<Rightarrow> segment_table_t) \<Rightarrow> bump world" where
  "demo_init h s t = \<lparr>proc = empty_process, managers = Map.empty, smgrs = s, tables = t, hist = h, prefetch = []\<rparr>"

lemma demo_init_simps [simp]:
  "proc (demo_init h s t) = empty_process" "managers (demo_init h s t) = Map.empty" "smgrs (demo_init h s t) = s"
  "tables (demo_init h s t) = t" "hist (demo_init h s t) = h" "prefetch (demo_init h s t) = []"
  by (simp_all add: demo_init_def)

lemma empty_process_inv: "reg_inv default_params linux_x86 empty_process"
proof -
  have "instance_init default_params = Some empty_process"
    by (simp add: instance_init_def new_default_trie empty_process_def)
  then show ?thesis using init_spec [of default_params empty_process linux_x86] by simp
qed

lemma demo_init_inv: "world_inv demo_env (demo_init h s t)"
  using empty_process_inv by (simp add: world_inv_def) (simp add: empty_process_def)

lemma empty_no_stale: "no_stale empty_process th"
  by (simp add: no_stale_def empty_process_def tls_cache_init_def)

lemma careful_new_first: "careful_new empty_process = 0x5000"
  by (simp add: careful_new_def free_address_def empty_process_def tls_cache_init_def no_entry_def)

lemma careful_open: "sys_open careful_os h path fl md = int (length h)" "sys_ftruncate careful_os h fd sz = 0"
  by (simp_all add: careful_os_def demo_os_def)

lemma careful_mmap_first:
  assumes "length h < 4096" "live_maps h = []"
  shows "sys_mmap careful_os h 0x100000 fl fd off = push_bit 28 (of_nat (Suc (length h)))"
    "push_bit 28 (of_nat (Suc (length h))) \<noteq> MAP_FAILED" "push_bit 28 (of_nat (Suc (length h)) :: u64) \<noteq> 0"
proof -
  have u: "unat (push_bit 28 (of_nat (Suc (length h))) :: u64) = 2 ^ 28 * Suc (length h)"
    using unat_demo_base [OF assms(1)] .
  then have pos: "push_bit 28 (of_nat (Suc (length h)) :: u64) \<noteq> 0" by (metis mult_is_0 nat.simps(3) power_not_zero unat_0 zero_neq_numeral)
  then show "push_bit 28 (of_nat (Suc (length h)) :: u64) \<noteq> 0" .
  have "fits linux_x86 (push_bit 28 (of_nat (Suc (length h)))) 0x100000"
    using u assms(1) pos by (simp add: fits_def del: of_nat_Suc)
  then show "sys_mmap careful_os h 0x100000 fl fd off = push_bit 28 (of_nat (Suc (length h)))"
    using assms(2) by (simp add: careful_os_def Let_def del: of_nat_Suc)
  have "unat MAP_FAILED = 2 ^ 64 - 1" by (simp add: MAP_FAILED_def unsigned_minus_1_eq_mask mask_eq_exp_minus_1)
  moreover have "2 ^ 28 * Suc (length h) < 2 ^ 64 - 1" using assms(1) by simp
  ultimately show "push_bit 28 (of_nat (Suc (length h))) \<noteq> MAP_FAILED" using u by (intro notI) (simp del: of_nat_Suc)
qed


section \<open>A creator and an opener\<close>

lemma careful_map_first:
  assumes "length h < 4000" "live_maps h = []"
  shows "\<exists>p h'. p \<noteq> nullptr \<and> Platform.shm_create careful_os linux_x86 name 0x100000 h = (p, h')"
    "\<exists>p h'. p \<noteq> nullptr \<and> shm_map_chunk careful_os linux_x86 name 0x100000 off h = (p, h')"
proof -
  have l: "length (snd (do_open os path fl md g)) = Suc (length g)" "length (snd (do_unlink os path g)) = Suc (length g)"
    "length (snd (do_ftruncate os fd n g)) = Suc (length g)" for os path fl md g fd n
    by (simp_all add: syscall_defs Let_def)
  have o: "\<not> fst (do_open careful_os path fl md g) < 0" "fst (do_ftruncate careful_os fd n g) = 0" for path fl md g fd n
    by (simp_all add: syscall_defs Let_def careful_open)
  let ?path = "get_platform_shm_path linux_x86 name"
  define g where "g = snd (do_ftruncate careful_os (fst (do_open careful_os ?path [O_CREAT, O_RDWR, O_EXCL] mode_0600
      (snd (do_unlink careful_os ?path h)))) 0x100000
      (snd (do_open careful_os ?path [O_CREAT, O_RDWR, O_EXCL] mode_0600 (snd (do_unlink careful_os ?path h)))))"
  have g: "length g < 4096" "live_maps g = []" using assms by (simp_all add: g_def l)
  show "\<exists>p h'. p \<noteq> nullptr \<and> Platform.shm_create careful_os linux_x86 name 0x100000 h = (p, h')"
    using careful_mmap_first [OF g]
    by (simp add: Platform.shm_create_def case_prod_beta Let_def o do_mmap_live g_def [symmetric] del: of_nat_Suc)
  define k where "k = snd (do_open careful_os ?path [O_RDWR] mode_0600 h)"
  have k: "length k < 4096" "live_maps k = []" using assms by (simp_all add: k_def l)
  show "\<exists>p h'. p \<noteq> nullptr \<and> shm_map_chunk careful_os linux_x86 name 0x100000 off h = (p, h')"
    using careful_mmap_first [OF k]
    by (simp add: shm_map_chunk_def case_prod_beta Let_def o do_mmap_live k_def [symmetric] del: of_nat_Suc)
qed

lemma add_shm_ok:
  "add_segment_shm e th this fo sz pr cr ini w = Some (r, w') \<Longrightarrow> managers w this = Some m \<Longrightarrow>
   map_shm e m fo sz cr w = (Inr a, w1) \<Longrightarrow> a \<noteq> nullptr \<Longrightarrow> r = Inr ()"
  by (auto simp: add_segment_shm_def Let_def split: bind_splits)

text \<open>The creating constructor succeeds once its chunk is mapped and described.\<close>

lemma created_when_mapped:
  assumes run: "new_manager_shm e th this name 0 True w = Some (r, w')"
    and p: "Platform.shm_create (kernel e) (plat e) name 0x100000 (hist w) = (p, h')" "p \<noteq> nullptr"
    and a: "new_sub_segment e (proc w) = a" "a \<noteq> nullptr"
  shows "r = Inr ()"
proof -
  have k: "max 0 kMinSegmentSize = (0x100000 :: u64)" by (simp add: kMinSegmentSize_def)
  let ?m = "\<lparr>anon = False, shm_root_name = name, segments = []\<rparr>"
  let ?wm = "w\<lparr>managers := (managers w)(this \<mapsto> ?m)\<rparr>"
  have "\<exists>w1. map_shm e ?m 0 0x100000 True ?wm = (Inr a, w1)"
    using p a by (simp add: map_shm_def create_shm_def make_unique_def Let_def)
  then obtain w1 where ms: "map_shm e ?m 0 0x100000 True ?wm = (Inr a, w1)" by blast
  obtain r' w2 where ad: "add_segment_shm e th this 0 0x100000 True True False ?wm = Some (r', w2)"
    using run k by (cases "add_segment_shm e th this 0 0x100000 True True False ?wm")
      (simp_all add: new_manager_shm_def, metis surj_pair)
  have "r' = Inr ()" by (rule add_shm_ok [OF ad _ ms a(2)]) simp
  then show "r = Inr ()" using run k ad
    by (cases "init_segment_table e this w2") (simp_all add: new_manager_shm_def finish_constructor_def)
qed

definition demo_manager :: u64 where
  "demo_manager = 0x9000"

lemma demo_created:
  assumes "length h < 4000" "live_maps h = []"
  shows "\<exists>w. new_manager_shm demo_env th demo_manager ''/m'' 0 True (demo_init h s t) = Some (Inr (), w)"
proof -
  let ?w = "demo_init h s t"
  have nm: "managers ?w demo_manager = None" by simp
  obtain r w' where run: "new_manager_shm demo_env th demo_manager ''/m'' 0 True ?w = Some (r, w')"
    using new_manager_shm_spec [OF demo_env_ok demo_init_inv nm, where initial = 0 and th = th and name = "''/m''"] by blast
  obtain p h' where p: "p \<noteq> nullptr" "Platform.shm_create careful_os linux_x86 ''/m'' 0x100000 h = (p, h')"
    using careful_map_first(1) [OF assms] by blast
  have "r = Inr ()" using created_when_mapped [OF run _ _ refl] p by (simp add: careful_new_first)
  then show ?thesis using run by auto
qed


text \<open>The path of the object, the world of the creator and the world of an opener.\<close>

definition demo_path :: string where
  "demo_path = get_platform_shm_path linux_x86 ''/m''"

definition demo_good :: "nat \<Rightarrow> bump world \<Rightarrow> bool" where
  "demo_good th w \<longleftrightarrow> world_inv demo_env w \<and> no_stale (proc w) th \<and> up_to_date demo_env w demo_manager \<and>
     usable demo_env w demo_manager \<and> object_ready demo_env w demo_path \<and>
     table_layout (tables w demo_path) = [(0, 0x100000)] \<and>
     (\<exists>m. managers w demo_manager = Some m \<and> \<not> anon m \<and> object_of demo_env m = demo_path)"

lemma demo_creator:
  assumes "length h < 4000" "live_maps h = []"
  shows "\<exists>w. new_manager_shm demo_env th demo_manager ''/m'' 0 True (demo_init h s t) = Some (Inr (), w) \<and> demo_good th w"
proof -
  obtain w where run: "new_manager_shm demo_env th demo_manager ''/m'' 0 True (demo_init h s t) = Some (Inr (), w)"
    using demo_created [OF assms] by blast
  have nm: "managers (demo_init h s t) demo_manager = None" by simp
  have k: "max 0 kMinSegmentSize = (0x100000 :: u64)" by (simp add: kMinSegmentSize_def)
  have w: "world_inv demo_env w" "up_to_date demo_env w demo_manager" "usable demo_env w demo_manager"
      "fresh_shm demo_env w demo_manager ''/m'' 0x100000" "\<forall>u. no_stale empty_process u \<longrightarrow> no_stale (proc w) u"
    using new_manager_shm_spec [OF demo_env_ok demo_init_inv nm, where initial = 0 and th = th and name = "''/m''"] run k
    by auto
  have rd: "object_ready demo_env w demo_path"
    using created_ready [OF w(1-4)] by (simp add: demo_path_def kMinSegmentSize_def)
  have tl: "table_layout (tables w demo_path) = [(0, 0x100000)]" using w(4) by (simp add: fresh_shm_def demo_path_def)
  have "\<exists>m. managers w demo_manager = Some m \<and> \<not> anon m \<and> object_of demo_env m = demo_path"
    using w(4) by (auto simp: fresh_shm_def demo_path_def object_of_def)
  then have "demo_good th w" using w rd tl empty_no_stale by (simp add: demo_good_def)
  then show ?thesis using run by blast
qed

lemma open_all_one:
  assumes "make_unique e (open_shm_chunk (kernel e) (plat e) (shm_root_name m) kMinSegmentSize 0 (hist w)) w = (Inr a, w1)"
    "a \<noteq> nullptr" "managers w this = Some m" "tables w1 = tables w" "magic (tables w (object_of e m)) = kSegmentTableMagic"
    "ent_size (entries (tables w (object_of e m)) ! 0) = kMinSegmentSize" "count (tables w (object_of e m)) = 1"
    "open_all_segments e th this w = Some (r, w')"
  shows "r = Inr ()"
  using assms by (auto simp: open_all_segments_def Let_def upd_desc_def push_segment_def split: bind_splits)

lemma demo_opener:
  assumes h: "length h < 4000" "live_maps h = []" and w: "demo_good th0 w"
  shows "\<exists>w2. new_manager_shm demo_env th demo_manager ''/m'' 0 False (demo_init h (smgrs w) (tables w)) = Some (Inr (), w2) \<and>
    demo_good th w2"
proof -
  let ?w = "demo_init h (smgrs w) (tables w)" and ?tbl = "tables w demo_path"
  have rd: "object_ready demo_env ?w (get_platform_shm_path (plat demo_env) ''/m'')"
    using w by (simp add: demo_good_def object_ready_def demo_path_def)
  let ?m = "\<lparr>anon = False, shm_root_name = ''/m'', segments = []\<rparr>"
  let ?wm = "?w\<lparr>managers := (managers ?w)(demo_manager \<mapsto> ?m)\<rparr>"
  have ob: "object_of demo_env ?m = demo_path" by (simp add: object_of_def demo_path_def)
  obtain r w2 where run: "new_manager_shm demo_env th demo_manager ''/m'' 0 False ?w = Some (r, w2)"
    and res: "case r of
       Inl x \<Rightarrow> x \<in> {Runtime_error ''Cannot open primary segment'', Bad_alloc, Terminate,
         Runtime_error ''segmented_segment_manager: failed to map SHM chunk''} \<and>
         (x \<noteq> Terminate \<longrightarrow> managers w2 demo_manager = None)
     | Inr _ \<Rightarrow> world_inv demo_env w2 \<and> up_to_date demo_env w2 demo_manager \<and> usable demo_env w2 demo_manager \<and> no_stale (proc w2) th \<and>
         tables w2 = tables ?w \<and> smgrs w2 = smgrs ?w \<and>
         (\<exists>m. managers w2 = (managers ?w)(demo_manager \<mapsto> m) \<and> \<not> anon m \<and> shm_root_name m = ''/m'' \<and>
           seg_layout w2 m = table_layout (tables ?w (get_platform_shm_path (plat demo_env) ''/m'')))"
    using new_manager_open_spec [OF demo_env_ok demo_init_inv rd, where initial = 0 and th = th and this = demo_manager] by blast
  obtain p h' where p: "p \<noteq> nullptr" "shm_map_chunk careful_os linux_x86 ''/m'' 0x100000 0 h = (p, h')"
    using careful_map_first(2) [OF h] by blast
  have k: "kMinSegmentSize = (0x100000 :: u64)" by (simp add: kMinSegmentSize_def)
  obtain w1 where mu: "make_unique demo_env (open_shm_chunk (kernel demo_env) (plat demo_env) (shm_root_name ?m) kMinSegmentSize 0 (hist ?wm)) ?wm = (Inr 0x5000, w1)"
    and t1: "tables w1 = tables ?wm"
    using p by (simp add: k open_shm_chunk_def make_unique_def Let_def careful_new_first)
  have tl: "table_layout ?tbl = [(0, 0x100000)]" "magic ?tbl = kSegmentTableMagic" "length (entries ?tbl) = kMaxSubSegments"
      "unat (count ?tbl) \<le> kMaxSubSegments"
    using w by (auto simp: demo_good_def object_ready_def Let_def)
  have "length (table_layout ?tbl) = unat (count ?tbl)" using tl(3,4) by (simp add: table_layout_def)
  then have "unat (count ?tbl) = 1" by (simp add: tl(1))
  then have cnt: "count ?tbl = 1" by (metis unat_1 word_unat_eq_iff)
  have e0: "ent_size (entries ?tbl ! 0) = kMinSegmentSize" using table_head(1) [of ?tbl] tl(1) by (simp add: kMinSegmentSize_def)
  obtain r' w3 where op: "open_all_segments demo_env th demo_manager ?wm = Some (r', w3)"
    using run by (cases "open_all_segments demo_env th demo_manager ?wm") (simp_all add: new_manager_shm_def, metis surj_pair)
  have "r' = Inr ()"
    by (rule open_all_one [OF mu _ _ t1 _ _ _ op]) (use ob tl(2) cnt e0 in simp_all)
  then have r: "r = Inr ()" using run op by (simp add: new_manager_shm_def finish_constructor_def)
  then have w2: "world_inv demo_env w2" "up_to_date demo_env w2 demo_manager" "usable demo_env w2 demo_manager" "no_stale (proc w2) th"
      "tables w2 = tables w" "smgrs w2 = smgrs w"
      "\<exists>m. managers w2 demo_manager = Some m \<and> \<not> anon m \<and> shm_root_name m = ''/m''"
    using res by auto
  have "object_ready demo_env w2 demo_path" using w w2(5,6) by (simp add: demo_good_def object_ready_def)
  then have "demo_good th w2" using w2 tl(1) by (auto simp: demo_good_def object_of_def demo_path_def)
  then show ?thesis using run r by blast
qed

lemma demo_views:
  assumes "demo_good th w" "off < 0x100000"
  shows "\<exists>p. views w demo_manager off p"
proof -
  obtain m where inv: "world_inv demo_env w" and l: "layout_ok demo_env w demo_manager"
    and m: "managers w demo_manager = Some m" "object_of demo_env m = demo_path"
    and tl: "table_layout (tables w (object_of demo_env m)) = seg_layout w m" "seg_layout w m = [(0, 0x100000)]"
    using assms(1) by (auto simp: demo_good_def up_to_date_def)
  have c: "contiguous 0 (seg_layout w m)" using layout_contiguous [OF l m(1)] .
  have "length (segments m) = 1" using arg_cong [OF tl(2), of length] by (simp add: seg_layout_def)
  moreover from this have "chunk_at w (segments m ! 0) = (0, 0x100000)"
    using tl(2) by (cases "segments m") (simp_all add: seg_layout_def)
  ultimately show ?thesis
    using views_exist [OF inv c m(1), of 0 off] assms(2) by (simp add: in_chunk_def)
qed

end
