(* ===== verification/Demo_Growth.thy ===== *)
theory Demo_Growth
  imports Demo_World
begin

text \<open>
  The world of the creator of \<open>Demo_World\<close> in full detail, and a growth of its manager that
  succeeds: what the witnesses about growth and allocation evaluate.
\<close>

lemma live_entry:
  assumes "reg_inv c pl p" "no_stale p u" "x \<in> set (tls p u)" "x \<noteq> no_entry"
  shows "descs p (e_seg x) \<noteq> None"
proof -
  have t: "trie_ready c (trie p)" and "entry_ok c pl (trie p) x" using assms(1,3) by (auto simp: reg_inv_def cache_ok_def)
  then obtain q s where e: "e_seg x \<noteq> nullptr" "even (e_seg x)" "e_leaf x = Some s" "page_slot c (trie p) q = Some s"
    using assms(4) by (auto simp: entry_ok_def)
  have "\<not> stale (trie p) x" using assms(2-4) by (simp add: no_stale_def)
  then have "lookup_page c (trie p) q = Some (e_seg x)" using stale_iff [OF t e(4,3,1,2)] by simp
  then show ?thesis using assms(1) e(1) unfolding reg_inv_def registered_def by fastforce
qed

lemma careful_new_second:
  assumes "reg_inv c pl p" "\<forall>u. no_stale p u" "descs p 0x5000 \<noteq> None" "descs p 0x6000 = None"
  shows "careful_new p = 0x6000"
proof -
  have "e_seg x \<noteq> 0x6000" if "x \<in> set (tls p u)" for u x
    using live_entry [OF assms(1) _ that] assms(2,4) by (cases "x = no_entry") (auto simp: no_entry_def)
  then show ?thesis using assms(3,4) by (simp add: careful_new_def free_address_def)
qed

lemma careful_new_third:
  assumes "reg_inv c pl p" "\<forall>u. no_stale p u" "descs p 0x5000 \<noteq> None" "descs p 0x6000 \<noteq> None" "descs p 0x7000 = None"
  shows "careful_new p = 0x7000"
proof -
  have "e_seg x \<noteq> 0x7000" if "x \<in> set (tls p u)" for u x
    using live_entry [OF assms(1) _ that] assms(2,5) by (cases "x = no_entry") (auto simp: no_entry_def)
  then show ?thesis using assms(3-5) by (simp add: careful_new_def free_address_def)
qed

definition demo_base :: u64 where
  "demo_base = 0x40000000"

definition demo_creator_manager :: seg_manager where
  "demo_creator_manager = \<lparr>anon = False, shm_root_name = ''/m'', segments = [\<lparr>seg = 0x5000, smgr = demo_base + 10368\<rparr>]\<rparr>"

definition demo_world :: "bump world \<Rightarrow> bool" where
  "demo_world w \<longleftrightarrow> demo_good 0 w \<and> (\<forall>u. no_stale (proc w) u) \<and> length (hist w) = 5 \<and>
     live_maps (hist w) = [(demo_base, 0x100000)] \<and> managers w = [demo_manager \<mapsto> demo_creator_manager] \<and>
     smgrs w = [Shared demo_path 10368 \<mapsto> (1038208, 64, [], [])] \<and>
     (\<exists>d. descs (proc w) = [0x5000 \<mapsto> d] \<and> base_vaddr d = demo_base \<and> size_of d = 0x100000 \<and> file_offset d = 0 \<and>
        \<not> is_anon d \<and> is_primary d)"

lemma demo_smgr_offset: "smgr_offset demo_env True = 10368"
  by (simp add: smgr_offset_def demo_env_def align_up_def)

lemma map_shm_managers: "map_shm e m fo sz cr w = (Inr a, w1) \<Longrightarrow> managers w1 = managers w"
  by (auto simp: map_shm_def make_unique_def Let_def zero_object_def split: if_splits prod.splits option.splits sum.splits)

lemma add_segment_shm_hist:
  "map_shm e m fo sz cr w = (Inr a, w1) \<Longrightarrow> a \<noteq> nullptr \<Longrightarrow> managers w this = Some m \<Longrightarrow>
   add_segment_shm e th this fo sz pr cr ini w = Some (r, w') \<Longrightarrow>
   r = Inr () \<and> hist w' = hist w1 \<and> (\<exists>s. managers w' this = Some (m\<lparr>segments := segments m @ [\<lparr>seg = a, smgr = s\<rparr>]\<rparr>))"
  using map_shm_managers [of e m fo sz cr w a w1]
  by (auto simp: add_segment_shm_def Let_def upd_desc_def push_segment_def split: bind_splits)

lemma demo_shm_create:
  "\<exists>h'. Platform.shm_create careful_os linux_x86 ''/m'' 0x100000 [] = (demo_base, h') \<and> length h' = 5 \<and>
     live_maps h' = [(demo_base, 0x100000)]"
proof -
  have m: "sys_mmap careful_os h 0x100000 fl fd off = demo_base"
    if "length h = 3" "live_maps h = []" for h fl fd off
    using careful_mmap_first [where h = h] that by (simp add: demo_base_def push_bit_eq_mult)
  have "demo_base \<noteq> MAP_FAILED" by (simp add: demo_base_def MAP_FAILED_def)
  then show ?thesis
    by (simp add: Platform.shm_create_def syscall_defs platform_shm_unlink_def platform_shm_open_def Let_def careful_open m live_maps_def map_event_def do_close_def)
qed

lemma demo_creator_world:
  "\<exists>w. new_manager_shm demo_env 0 demo_manager ''/m'' 0 True (demo_init [] Map.empty (\<lambda>_. zero_table)) = Some (Inr (), w) \<and>
     demo_world w"
proof -
  let ?w = "demo_init [] Map.empty (\<lambda>_. zero_table) :: bump world"
  obtain w where run: "new_manager_shm demo_env 0 demo_manager ''/m'' 0 True ?w = Some (Inr (), w)" and good: "demo_good 0 w"
    using demo_creator [of "[]" 0 Map.empty "\<lambda>_. zero_table"] by (auto simp: live_maps_def)
  have k: "max 0 kMinSegmentSize = (0x100000 :: u64)" by (simp add: kMinSegmentSize_def)
  let ?m = "\<lparr>anon = False, shm_root_name = ''/m'', segments = []\<rparr>"
  define wm where "wm = ?w\<lparr>managers := (managers ?w)(demo_manager \<mapsto> ?m)\<rparr>"
  obtain h' where sc: "Platform.shm_create careful_os linux_x86 ''/m'' 0x100000 [] = (demo_base, h')"
    and h': "length h' = 5" "live_maps h' = [(demo_base, 0x100000)]"
    using demo_shm_create by blast
  have "\<exists>w1. map_shm demo_env ?m 0 0x100000 True wm = (Inr 0x5000, w1) \<and> hist w1 = h'"
    using sc by (simp add: wm_def map_shm_def create_shm_def make_unique_def Let_def careful_new_first zero_object_def demo_base_def)
  then obtain w1 where ms: "map_shm demo_env ?m 0 0x100000 True wm = (Inr 0x5000, w1)" "hist w1 = h'" by blast
  have invm: "world_inv demo_env wm" using world_inv_fresh_manager [OF demo_init_inv] by (simp add: wm_def)
  have mm: "managers wm demo_manager = Some ?m" "\<not> anon ?m" by (simp_all add: wm_def)
  obtain r' w2 where ad: "add_segment_shm demo_env 0 demo_manager 0 0x100000 True True False wm = Some (r', w2)"
    and res: "case r' of
       Inl x \<Rightarrow> x \<in> {Runtime_error ''segmented_segment_manager: failed to map SHM chunk'', Terminate} \<and> unchanged wm w2
     | Inr _ \<Rightarrow> \<exists>a d. added demo_env demo_manager ?m a d (base_vaddr d + smgr_offset demo_env True) wm w2 \<and> size_of d = 0x100000 \<and>
         is_primary d \<and> file_offset d = 0 \<and> tables w2 = (tables wm)(object_of demo_env ?m := zero_table) \<and>
         smgrs w2 = (smgrs (zero_object (object_of demo_env ?m) wm))
             (Shared (object_of demo_env ?m) (file_offset d + smgr_offset demo_env True) \<mapsto>
               sm_new (boost demo_env) (0x100000 - smgr_offset demo_env True))"
    and inv2: "world_inv demo_env w2"
    using add_segment_shm_spec [OF demo_env_ok invm mm, of 0 0 "0x100000" True True False, unfolded if_True simp_thms]
    by blast
  have r': "r' = Inr ()" "hist w2 = h'" and ms2: "\<exists>s. managers w2 demo_manager = Some (?m\<lparr>segments := segments ?m @ [\<lparr>seg = 0x5000, smgr = s\<rparr>]\<rparr>)"
    using add_segment_shm_hist [OF ms(1) _ mm(1) ad] ms(2) by simp_all
  then obtain a d where added: "added demo_env demo_manager ?m a d (base_vaddr d + smgr_offset demo_env True) wm w2"
    and d: "size_of d = 0x100000" "is_primary d" "file_offset d = 0"
    and s: "smgrs w2 = (smgrs (zero_object (object_of demo_env ?m) wm))
             (Shared (object_of demo_env ?m) (file_offset d + smgr_offset demo_env True) \<mapsto>
               sm_new (boost demo_env) (0x100000 - smgr_offset demo_env True))"
    using res by auto
  have "\<exists>w3. init_segment_table demo_env demo_manager w2 = Some w3 \<and> w = w3\<lparr>prefetch := prefetch w3 @ [Register_manager demo_manager]\<rparr>"
    using run ad r'(1) k
    by (cases "init_segment_table demo_env demo_manager w2") (simp_all add: new_manager_shm_def finish_constructor_def wm_def)
  then have fin: "\<exists>t q. w = w2\<lparr>tables := t, prefetch := q\<rparr>"
    by (auto simp: init_segment_table_def Let_def split: list.splits bind_splits)
      (intro exI [of _ "tables w2"] exI [of _ "prefetch w2 @ [Register_manager demo_manager]"], simp)
  then have same: "proc w = proc w2" "managers w = managers w2" "smgrs w = smgrs w2" "hist w = h'" using r'(2) by auto
  have "descs (proc wm) = Map.empty" by (simp add: wm_def empty_process_def)
  then have ds: "descs (proc w2) = [a \<mapsto> d]" using added by (simp add: added_def)
  have a: "a = 0x5000" using added ms2 by (auto simp: added_def)
  have b: "base_vaddr d = demo_base" using world_desc [OF inv2, of a d] ds r'(2) h'(2) by (simp add: desc_ok_def)
  have mg: "managers w2 = [demo_manager \<mapsto> demo_creator_manager]"
    using added a b by (simp add: added_def demo_smgr_offset demo_creator_manager_def wm_def)
  have "clear_object path (Map.empty :: place \<rightharpoonup> bump) = Map.empty" for path by (auto simp: clear_object_def split: place.split)
  then have sm: "smgrs w2 = [Shared demo_path 10368 \<mapsto> (1038208, 64, [], [])]"
    using s d(3) by (simp add: demo_smgr_offset zero_object_def wm_def object_of_def demo_path_def bump_boost_def clear_object_def)
  have ns: "no_stale (proc w) u" for u
    using added empty_no_stale by (simp add: added_def same wm_def)
  have "\<not> is_anon d" using added by (simp add: added_def)
  then have "demo_world w" using good ns same h' mg sm ds a b d
    by (simp add: demo_world_def) (intro exI [of _ d], simp)
  then show ?thesis using run by blast
qed


lemma demo_worldD:
  assumes "demo_world w"
  shows "world_inv demo_env w" "usable demo_env w demo_manager" "layout_ok demo_env w demo_manager"
    "managers w demo_manager = Some demo_creator_manager"
  using assms by (simp_all add: demo_world_def demo_good_def up_to_date_def)

section \<open>A growth that succeeds\<close>

lemma demo_shm_grow:
  assumes "length h = 5"
  shows "\<exists>h'. shm_grow careful_os linux_x86 ''/m'' sz h = (True, h') \<and> length h' = 8 \<and> live_maps h' = live_maps h"
  using assms
  by (simp add: shm_grow_def syscall_defs platform_shm_open_def Let_def careful_open live_maps_def map_event_def do_close_def)

lemma demo_map_chunk:
  assumes "length h = 8" "live_maps h = [(demo_base, 0x100000)]"
  shows "\<exists>h'. shm_map_chunk careful_os linux_x86 ''/m'' 0x200000 off h = (0xA0000000, h')"
proof -
  have "apart linux_x86 (0xA0000000, 0x200000) (demo_base, 0x100000)"
    by (simp add: apart_def demo_base_def page_end_def page_begin_def ptr_to_vaddr_def strip_pac_def)
  then have m: "sys_mmap careful_os g 0x200000 fl fd off = 0xA0000000"
    if "length g = 9" "live_maps g = live_maps h" for g fl fd off
    using that assms(2) by (simp add: careful_os_def Let_def push_bit_eq_mult fits_def)
  have "(0xA0000000 :: u64) \<noteq> MAP_FAILED" by (simp add: MAP_FAILED_def)
  then show ?thesis using assms(1)
    by (simp add: shm_map_chunk_def syscall_defs platform_shm_open_def Let_def careful_open m live_maps_def map_event_def)
qed

lemma demo_growth:
  assumes w0: "demo_world w0" and w: "w = w0\<lparr>tables := t, smgrs := sm\<rparr>"
    and s: "sm (Shared demo_path 10368) = Some (1038208, k, ns, bs)" "k \<le> 1038208" and lo: "layout_ok demo_env w demo_manager"
  shows "\<exists>w'. grow demo_env 0 demo_manager 0x200000 w = Some (Inr (), w')"
proof -
  let ?m = "demo_creator_manager"
  obtain d where d: "descs (proc w) = [0x5000 \<mapsto> d]" "base_vaddr d = demo_base" "size_of d = 0x100000" "file_offset d = 0" "\<not> is_anon d"
    "is_primary d"
    using w0 w by (auto simp: demo_world_def)
  have m: "managers w demo_manager = Some ?m" and inv0: "world_inv demo_env w0"
    and h: "length (hist w) = 5" "live_maps (hist w) = [(demo_base, 0x100000)]"
    and ns: "\<forall>u. no_stale (proc w) u"
    using w0 w by (simp_all add: demo_world_def demo_good_def)
  have inv: "world_inv demo_env w" using inv0 w by simp
  have seg: "segments ?m = [\<lparr>seg = 0x5000, smgr = demo_base + 10368\<rparr>]" "\<not> anon ?m" "shm_root_name ?m = ''/m''" "object_of demo_env ?m = demo_path"
    by (simp_all add: demo_creator_manager_def object_of_def demo_path_def)
  have u: "usable demo_env w demo_manager" using m d s(1) w seg by (simp add: usable_def smgr_at_def place_of_def)
  have "unat (1038208 - k) \<le> 1038208" using s(2) by (simp add: unat_sub)
  then have "\<not> 0x200000 \<le> 1038208 - k" by (simp add: word_le_nat_alt)
  then have plan: "grow_plan demo_env demo_manager 0x200000 w = Some (Some (0x200000, 0x100000))"
    using m seg d s(1) w by (simp add: grow_plan_def smgr_at_def place_of_def bump_boost_def Let_def kGrowMultiplier_def align_up_def)
  obtain h' where sg: "shm_grow careful_os linux_x86 ''/m'' 0x300000 (hist w) = (True, h')" "length h' = 8" "live_maps h' = [(demo_base, 0x100000)]"
    using demo_shm_grow [OF h(1)] h(2) by metis
  obtain h2 where mc: "shm_map_chunk careful_os linux_x86 ''/m'' 0x200000 0x100000 h' = (0xA0000000, h2)"
    using demo_map_chunk [OF sg(2,3)] by blast
  have "careful_new (proc w) = 0x6000"
    using careful_new_second [OF world_reg [OF inv]] ns d(1) by simp
  then obtain w1 where ms: "map_shm demo_env ?m 0x100000 0x200000 False (w\<lparr>hist := h'\<rparr>) = (Inr 0x6000, w1)"
    using mc seg by (simp add: map_shm_def open_shm_chunk_def make_unique_def Let_def)
  obtain r w' where run: "grow demo_env 0 demo_manager 0x200000 w = Some (r, w')"
    using grow_shm_spec [OF demo_env_ok inv lo u m] by blast
  then obtain r1 w2 where ad: "add_segment_shm demo_env 0 demo_manager 0x100000 0x200000 False False True (w\<lparr>hist := h'\<rparr>) = Some (r1, w2)"
    using plan m seg sg(1)
    by (cases "add_segment_shm demo_env 0 demo_manager 0x100000 0x200000 False False True (w\<lparr>hist := h'\<rparr>)")
      (simp_all add: grow_def grow_commit_def, metis surj_pair)
  have "r1 = Inr ()" using add_segment_shm_hist [OF ms _ _ ad] m by simp
  then have up: "update_segment_table demo_env demo_manager w2 = Some (r, w')"
    using run plan m seg sg(1) ad by (simp add: grow_def grow_commit_def)
  have "length (segments m') = 2" if "managers w2 demo_manager = Some m'" for m'
    using add_segment_shm_hist [OF ms _ _ ad] that m seg(1) by auto
  then have "r = Inr ()"
    using up by (auto simp: update_segment_table_def Let_def kMaxSubSegments_def split: bind_splits list.splits if_splits)
  then show ?thesis using run by blast
qed

lemma demo_growth_now:
  assumes "demo_world w"
  shows "\<exists>w'. grow demo_env 0 demo_manager 0x200000 w = Some (Inr (), w')"
  using demo_growth [OF assms, where w = w and t = "tables w" and sm = "smgrs w" and k = 64 and ns = "[]" and bs = "[]"] demo_worldD(3) [OF assms] assms by (simp add: demo_world_def)

lemma demo_free:
  assumes "demo_world w"
  shows "get_free_memory demo_env demo_manager w = Some 1038144"
  using assms
  by (auto simp: demo_world_def get_free_memory_def smgr_at_def place_of_def bump_boost_def demo_creator_manager_def
      object_of_def demo_path_def)

end
