(* ===== verification/Segment_Lookup.thy ===== *)
theory Segment_Lookup
  imports Manager_Life
begin

text \<open>
  Registry lookups in the world of a process whose calling thread has no stale cache entry: the
  segment that owns a page, what a lookup changes, and the addresses inside a manager's segments.
  Pointers and the allocator rest on these lemmas.
\<close>

section \<open>Lookups\<close>

text \<open>The segment the registry holds for the page of an address, and a step that only moves cache entries.\<close>

definition seg_of :: "'m env \<Rightarrow> 'm world \<Rightarrow> u64 \<Rightarrow> u64 option" where
  "seg_of e w addr = lookup_page (trie_cfg e) (trie (proc w)) (drop_bit (page_shift (plat e)) addr)"

definition good :: "'m env \<Rightarrow> nat \<Rightarrow> 'm world \<Rightarrow> bool" where
  "good e th w \<longleftrightarrow> world_inv e w \<and> no_stale (proc w) th"

definition cached :: "'m env \<Rightarrow> nat \<Rightarrow> 'm world \<Rightarrow> 'm world \<Rightarrow> bool" where
  "cached e th w w' \<longleftrightarrow> good e th w' \<and> (\<forall>u. no_stale (proc w) u \<longrightarrow> no_stale (proc w') u) \<and>
     managers w' = managers w \<and> smgrs w' = smgrs w \<and> tables w' = tables w \<and> hist w' = hist w \<and>
     descs (proc w') = descs (proc w) \<and> trie (proc w') = trie (proc w)"

lemma cached_trans: "cached e th w w1 \<Longrightarrow> cached e th w1 w2 \<Longrightarrow> cached e th w w2"
  by (simp add: cached_def)

lemma cached_refl: "good e th w \<Longrightarrow> cached e th w w"
  by (simp add: cached_def)

lemma cached_good: "cached e th w w' \<Longrightarrow> good e th w'"
  by (simp add: cached_def)

lemma cached_views [simp]: "cached e th w w' \<Longrightarrow> views w' = views w"
  by (intro ext) (simp add: cached_def views_def)

lemma cached_seg_of: "cached e th w w' \<Longrightarrow> seg_of e w' = seg_of e w"
  by (intro ext) (simp add: cached_def seg_of_def)

lemma cached_seg_layout: "cached e th w w' \<Longrightarrow> seg_layout w' m = seg_layout w m"
  by (simp add: cached_def seg_layout_def chunk_at_def)

lemma cached_layout: "cached e th w w' \<Longrightarrow> layout_ok e w' M \<longleftrightarrow> layout_ok e w M"
  using cached_seg_layout [of e th w w'] by (simp add: cached_def layout_ok_def)

lemma find_cached:
  assumes g: "good e th w"
  shows "\<exists>v p. find_seg (trie_cfg e) (plat e) th addr (proc w) = Some (v, p) \<and> cached e th w (w\<lparr>proc := p\<rparr>) \<and>
    seg_of e w addr = Some v \<and> (v \<noteq> nullptr \<longrightarrow> (\<exists>d. registered (trie_cfg e) (plat e) (proc w) v d))"
proof -
  have inv: "world_inv e w" "no_stale (proc w) th" using g by (simp_all add: good_def)
  obtain v p where f: "find_seg (trie_cfg e) (plat e) th addr (proc w) = Some (v, p)" "reg_inv (trie_cfg e) (plat e) p"
      "no_stale p th" "trie p = trie (proc w)" "descs p = descs (proc w)"
      "lookup_page (trie_cfg e) (trie (proc w)) (drop_bit (page_shift (plat e)) addr) = Some v"
      "v \<noteq> nullptr \<longrightarrow> (\<exists>d. registered (trie_cfg e) (plat e) (proc w) v d)"
    using find_exact [OF world_reg [OF inv(1)] inv(2), of addr] by blast
  have "tls p u = tls (proc w) u" if "u \<noteq> th" for u
    using f(1) that by (auto simp: find_seg_def split: bind_splits)
  then have "no_stale p u" if "no_stale (proc w) u" for u
    using that f(3,4) by (cases "u = th") (simp_all add: no_stale_def)
  moreover have "world_inv e (w\<lparr>proc := p\<rparr>)"
    using inv(1) f(2,4,5) by (simp add: world_inv_def desc_ok_def seg_ok_def registered_def)
  ultimately show ?thesis using f by (simp add: cached_def good_def seg_of_def)
qed

text \<open>An address inside a segment of a manager is found, and is canonical.\<close>

lemma managed_seg_of:
  assumes inv: "world_inv e w" and m: "managers w M = Some m" "i \<in> set (segments m)"
    and d: "descs (proc w) (seg i) = Some d" "in_range (base_vaddr d) (size_of d) a"
  shows "seg_of e w a = Some (seg i)" "ptr_to_vaddr (plat e) a = a" "a \<noteq> nullptr" "unat a < 2 ^ 47"
proof -
  have r: "registered (trie_cfg e) (plat e) (proc w) (seg i) d" "base_addr (plat e) d = base_vaddr d"
    and f: "fits (plat e) (base_vaddr d) (size_of d)"
    using world_seg_desc [OF inv m] d(1) by auto
  show "seg_of e w a = Some (seg i)" using registered_page [OF r(1)] r(2) d(2) by (simp add: seg_of_def)
  have "unat (base_vaddr d) \<le> unat a" "unat a < 2 ^ 47"
    using d(2) in_rangeI_unat [of "base_vaddr d" "size_of d" a] fits_no_wrap [OF f] by auto
  moreover have "0 < unat (base_vaddr d)" using f by (simp add: fits_def unat_gt_0)
  ultimately show "ptr_to_vaddr (plat e) a = a" "a \<noteq> nullptr" "unat a < 2 ^ 47"
    by (auto simp: ptr_to_vaddr_def strip_pac_user)
qed

lemma find_managed:
  assumes g: "good e th w" and m: "managers w M = Some m" "i \<in> set (segments m)"
    and d: "descs (proc w) (seg i) = Some d" "in_range (base_vaddr d) (size_of d) a"
  shows "\<exists>p. find_seg (trie_cfg e) (plat e) th a (proc w) = Some (seg i, p) \<and> cached e th w (w\<lparr>proc := p\<rparr>)"
  using find_cached [OF g, of a] managed_seg_of(1) [OF _ m d] g by (auto simp: good_def)

lemma viewsE:
  assumes "views w M off p" "managers w M = Some m"
  obtains i d where "i \<in> set (segments m)" "descs (proc w) (seg i) = Some d"
    "in_range (base_vaddr d) (size_of d) p" "off = file_offset d + (p - base_vaddr d)"
  using assms by (auto simp: views_def)

lemma views_user:
  assumes "world_inv e w" "managers w M = Some m" "views w M off p"
  shows "p \<noteq> nullptr" "unat p < 2 ^ 47"
proof -
  obtain i d where "i \<in> set (segments m)" "descs (proc w) (seg i) = Some d" "in_range (base_vaddr d) (size_of d) p"
    using viewsE [OF assms(3,2)] .
  from managed_seg_of(3,4) [OF assms(1,2) this] show "p \<noteq> nullptr" "unat p < 2 ^ 47" .
qed

end
