(* ===== verification/Block_Heap.thy ===== *)
theory Block_Heap
  imports Prelude
begin

text \<open>
  The interface of a heap of blocks: taking a block makes exactly one new block live, apart from
  all others, and giving a live block back removes exactly that block. What follows for any
  sequence of the two operations is proved once here; the manager's \<^verbatim>\<open>allocate\<close> and
  \<^verbatim>\<open>deallocate\<close> interpret it in \<open>Manager_Heap\<close>.
\<close>

definition block_bytes :: "u64 \<times> u64 \<Rightarrow> nat set" where
  "block_bytes x = {unat (fst x)..<unat (fst x) + unat (snd x)}"

definition apart_blocks :: "u64 \<times> u64 \<Rightarrow> u64 \<times> u64 \<Rightarrow> bool" where
  "apart_blocks x y \<longleftrightarrow> fst x \<noteq> fst y \<and> block_bytes x \<inter> block_bytes y = {}"

definition separated :: "(u64 \<times> u64) set \<Rightarrow> bool" where
  "separated B \<longleftrightarrow> (\<forall>x \<in> B. \<forall>y \<in> B. x \<noteq> y \<longrightarrow> apart_blocks x y)"

lemma apart_blocks_sym: "apart_blocks x y \<longleftrightarrow> apart_blocks y x"
  by (auto simp: apart_blocks_def)

lemma separated_empty [simp]: "separated {}"
  by (simp add: separated_def)

lemma separated_insert: "separated B \<Longrightarrow> \<forall>y \<in> B. apart_blocks x y \<Longrightarrow> separated (insert x B)"
  using apart_blocks_sym by (auto simp: separated_def)

lemma separated_subset: "separated B \<Longrightarrow> C \<subseteq> B \<Longrightarrow> separated C"
  unfolding separated_def by blast

text \<open>One operation of a client: take a block, or give back one that is live.\<close>

inductive heap_step ::
  "('s \<Rightarrow> (u64 \<times> u64) set) \<Rightarrow> (u64 \<Rightarrow> 's \<Rightarrow> (u64 \<times> 's) option) \<Rightarrow> (u64 \<Rightarrow> 's \<Rightarrow> 's option) \<Rightarrow> 's \<Rightarrow> 's \<Rightarrow> bool"
  for blocks take_block give_block where
  take_step: "take_block n s = Some (p, s') \<Longrightarrow> heap_step blocks take_block give_block s s'"
| give_step: "x \<in> blocks s \<Longrightarrow> give_block (fst x) s = Some s' \<Longrightarrow> heap_step blocks take_block give_block s s'"

inductive_cases heap_stepE: "heap_step blocks take_block give_block s s'"

locale block_heap =
  fixes ok :: "'s \<Rightarrow> bool"
    and blocks :: "'s \<Rightarrow> (u64 \<times> u64) set"
    and take_block :: "u64 \<Rightarrow> 's \<Rightarrow> (u64 \<times> 's) option"
    and give_block :: "u64 \<Rightarrow> 's \<Rightarrow> 's option"
  assumes take_fresh: "ok s \<Longrightarrow> take_block n s = Some (p, s') \<Longrightarrow>
      ok s' \<and> blocks s' = insert (p, n) (blocks s) \<and> (\<forall>y \<in> blocks s. apart_blocks (p, n) y)"
    and give_live: "ok s \<Longrightarrow> x \<in> blocks s \<Longrightarrow>
      \<exists>s'. give_block (fst x) s = Some s' \<and> ok s' \<and> blocks s' = {y \<in> blocks s. fst y \<noteq> fst x}"
begin

lemma step_separated:
  assumes "ok s \<and> separated (blocks s)" "heap_step blocks take_block give_block s s'"
  shows "ok s' \<and> separated (blocks s')"
  using assms(2)
proof cases
  case (take_step n p)
  then show ?thesis using take_fresh [of s n p s'] assms(1) separated_insert by auto
next
  case (give_step x)
  then have "ok s' \<and> blocks s' = {y \<in> blocks s. fst y \<noteq> fst x}" using give_live [of s x] assms(1) by auto
  then show ?thesis using assms(1) separated_subset by auto
qed

lemma give_taken:
  assumes "ok s" "take_block n s = Some (p, s1)"
  shows "\<exists>s2. give_block p s1 = Some s2 \<and> ok s2 \<and> blocks s2 = blocks s"
proof -
  have t: "ok s1" "blocks s1 = insert (p, n) (blocks s)" "\<forall>y \<in> blocks s. fst y \<noteq> p"
    using take_fresh [OF assms] by (auto simp: apart_blocks_def)
  obtain s2 where "give_block p s1 = Some s2" "ok s2" "blocks s2 = {y \<in> blocks s1. fst y \<noteq> p}"
    using give_live [OF t(1), of "(p, n)"] t(2) by auto
  then show ?thesis using t by auto
qed

text \<open>A block that a client does not give back stays live whatever the client does with others.\<close>

lemma step_keeps:
  assumes "ok s" "separated (blocks s)" "heap_step blocks take_block give_block s s'" "y \<in> blocks s" "y \<notin> blocks s'"
  shows "give_block (fst y) s = Some s'"
  using assms(3)
proof cases
  case (take_step n p)
  then show ?thesis using take_fresh [OF assms(1)] assms(4,5) by blast
next
  case (give_step x)
  then have "blocks s' = {z \<in> blocks s. fst z \<noteq> fst x}" using give_live [OF assms(1) give_step(1)] by auto
  then have "fst y = fst x" using assms(4,5) by auto
  then show ?thesis using give_step(2) by simp
qed

end

text \<open>Any run of a client keeps the live blocks apart.\<close>

sublocale block_heap \<subseteq> run: stepper "\<lambda>s. ok s \<and> separated (blocks s)" "heap_step blocks take_block give_block"
    "\<lambda>s. ok s \<and> separated (blocks s)"
  by unfold_locales (use step_separated in blast)+

end
