(* ===== verification/Manager_Heap.thy ===== *)
theory Manager_Heap
  imports Demo_Growth Segment_Lookup Block_Heap
begin

text \<open>
  The heap a manager offers: the blocks that are live in all its segments. Boost's segment
  manager is specified by what its documentation promises about the blocks of one segment; the
  theorems lift that to \<^verbatim>\<open>allocate\<close> and \<^verbatim>\<open>deallocate\<close> of the multi-segment manager, which try the
  segments in turn, grow when all are full and route a block back to the segment it lies in.
\<close>

section \<open>What is relied on\<close>

text \<open>
  A view of Boost's state: a validity predicate, the allocated blocks as offsets and sizes, and
  the length of the region it manages.
\<close>

record 'm heap_view =
  hv_ok :: "'m \<Rightarrow> bool"
  hv_blocks :: "'m \<Rightarrow> (u64 \<times> u64) set"
  hv_span :: "'m \<Rightarrow> nat"

definition boost_new_ok :: "'m boost_smgr \<Rightarrow> 'm heap_view \<Rightarrow> bool" where
  "boost_new_ok b v \<longleftrightarrow>
     (\<forall>n. hv_ok v (sm_new b n) \<and> hv_blocks v (sm_new b n) = {} \<and> hv_span v (sm_new b n) = unat n) \<and>
     (\<forall>s. hv_ok v s \<longrightarrow> (\<forall>x \<in> hv_blocks v s. 0 < fst x \<and> unat (fst x) < hv_span v s \<and> unat (fst x) + unat (snd x) \<le> hv_span v s))"

definition boost_allocate_ok :: "'m boost_smgr \<Rightarrow> 'm heap_view \<Rightarrow> bool" where
  "boost_allocate_ok b v \<longleftrightarrow>
     (\<forall>s n r s'. hv_ok v s \<longrightarrow> sm_allocate b n s = (r, s') \<longrightarrow> hv_ok v s' \<and> hv_span v s' = hv_span v s \<and>
        (case r of
           None \<Rightarrow> hv_blocks v s' = hv_blocks v s
         | Some off \<Rightarrow> hv_blocks v s' = insert (off, n) (hv_blocks v s) \<and> (\<forall>x \<in> hv_blocks v s. apart_blocks (off, n) x)))"

definition boost_deallocate_ok :: "'m boost_smgr \<Rightarrow> 'm heap_view \<Rightarrow> bool" where
  "boost_deallocate_ok b v \<longleftrightarrow>
     (\<forall>s off. hv_ok v s \<longrightarrow> off \<in> fst ` hv_blocks v s \<longrightarrow>
        hv_ok v (sm_deallocate b off s) \<and> hv_span v (sm_deallocate b off s) = hv_span v s \<and>
        hv_blocks v (sm_deallocate b off s) = {x \<in> hv_blocks v s. fst x \<noteq> off})"

definition boost_laws :: "'m boost_smgr \<Rightarrow> 'm heap_view \<Rightarrow> bool" where
  "boost_laws b v \<longleftrightarrow> boost_new_ok b v \<and> boost_allocate_ok b v \<and> boost_deallocate_ok b v"

section \<open>The live blocks of a manager\<close>

definition heap_segment :: "'m env \<Rightarrow> 'm heap_view \<Rightarrow> 'm world \<Rightarrow> seg_manager \<Rightarrow> seg_info \<Rightarrow> bool" where
  "heap_segment e v w m i \<longleftrightarrow>
     (\<exists>d s. descs (proc w) (seg i) = Some d \<and> smgrs w (place_of e m d (smgr i)) = Some s \<and> hv_ok v s \<and>
        in_range (base_vaddr d) (size_of d) (smgr i) \<and>
        unat (smgr i) + hv_span v s \<le> unat (base_vaddr d) + unat (size_of d))"

definition heap_ok :: "'m env \<Rightarrow> 'm heap_view \<Rightarrow> 'm world \<Rightarrow> u64 \<Rightarrow> bool" where
  "heap_ok e v w this \<longleftrightarrow>
     (\<exists>m. managers w this = Some m \<and> segments m \<noteq> [] \<and> (\<not> anon m \<longrightarrow> layout_ok e w this) \<and>
        (\<forall>i \<in> set (segments m). heap_segment e v w m i))"

definition seg_blocks :: "'m env \<Rightarrow> 'm heap_view \<Rightarrow> 'm world \<Rightarrow> seg_manager \<Rightarrow> seg_info \<Rightarrow> (u64 \<times> u64) set" where
  "seg_blocks e v w m i =
     (case smgr_at e w m i of
        None \<Rightarrow> {}
      | Some (_, s) \<Rightarrow> (\<lambda>(off, n). (smgr i + off, n)) ` hv_blocks v s)"

definition live_blocks :: "'m env \<Rightarrow> 'm heap_view \<Rightarrow> 'm world \<Rightarrow> u64 \<Rightarrow> (u64 \<times> u64) set" where
  "live_blocks e v w this =
     (case managers w this of None \<Rightarrow> {} | Some m \<Rightarrow> (\<Union>i \<in> set (segments m). seg_blocks e v w m i))"

text \<open>A block inside one mapped segment of the manager.\<close>

definition inside :: "'m world \<Rightarrow> seg_manager \<Rightarrow> u64 \<times> u64 \<Rightarrow> bool" where
  "inside w m x \<longleftrightarrow>
     (\<exists>i \<in> set (segments m). \<exists>d. descs (proc w) (seg i) = Some d \<and> in_range (base_vaddr d) (size_of d) (fst x) \<and>
        unat (fst x) + unat (snd x) \<le> unat (base_vaddr d) + unat (size_of d))"

lemma heap_okD:
  assumes "heap_ok e v w this" "managers w this = Some m" "i \<in> set (segments m)"
  shows "\<exists>d s. descs (proc w) (seg i) = Some d \<and> smgr_at e w m i = Some (place_of e m d (smgr i), s) \<and>
    smgrs w (place_of e m d (smgr i)) = Some s \<and> hv_ok v s \<and> in_range (base_vaddr d) (size_of d) (smgr i) \<and>
    unat (smgr i) + hv_span v s \<le> unat (base_vaddr d) + unat (size_of d)"
  using assms by (fastforce simp: heap_ok_def heap_segment_def smgr_at_def)

lemma heap_usable: "heap_ok e v w this \<Longrightarrow> usable e w this"
  by (fastforce simp: heap_ok_def heap_segment_def usable_def smgr_at_def)

lemma live_blocksI: "managers w this = Some m \<Longrightarrow> live_blocks e v w this = (\<Union>i \<in> set (segments m). seg_blocks e v w m i)"
  by (simp add: live_blocks_def)

lemma heap_contiguous: "heap_ok e v w this \<Longrightarrow> managers w this = Some m \<Longrightarrow> \<not> anon m \<Longrightarrow> contiguous 0 (seg_layout w m)"
  using layout_contiguous by (auto simp: heap_ok_def)

text \<open>The Boost managers of two segments are at different places.\<close>

lemma same_seg:
  assumes "world_inv e w" "managers w this = Some m" "i \<in> set (segments m)" "j \<in> set (segments m)"
    and "descs (proc w) (seg i) = Some d" "in_range (base_vaddr d) (size_of d) a"
    and "descs (proc w) (seg j) = Some d'" "in_range (base_vaddr d') (size_of d') a"
  shows "i = j"
proof -
  have "seg i = seg j"
    using managed_seg_of(1) [OF assms(1,2,3,5,6)] managed_seg_of(1) [OF assms(1,2,4,7,8)] by simp
  then show ?thesis using world_distinct [OF assms(1,2)] assms(3,4) by (auto simp: distinct_map inj_on_def)
qed

lemma places_distinct:
  assumes inv: "world_inv e w" and m: "managers w this = Some m" "i \<in> set (segments m)" "j \<in> set (segments m)"
    and c: "\<not> anon m \<longrightarrow> contiguous 0 (seg_layout w m)"
    and d: "descs (proc w) (seg i) = Some d" "in_range (base_vaddr d) (size_of d) (smgr i)"
    and d': "descs (proc w) (seg j) = Some d'" "in_range (base_vaddr d') (size_of d') (smgr j)"
    and pl: "place_of e m d (smgr i) = place_of e m d' (smgr j)"
  shows "i = j"
proof (cases "anon m")
  case True
  then have "smgr i = smgr j"
    using pl world_seg_desc [OF inv m(1,2)] world_seg_desc [OF inv m(1,3)] d(1) d'(1) by (auto simp: place_of_def)
  then show ?thesis using same_seg [OF inv m d d'(1)] d'(2) by simp
next
  case False
  have f: "fits (plat e) (base_vaddr d) (size_of d)" "fits (plat e) (base_vaddr d') (size_of d')" "\<not> is_anon d" "\<not> is_anon d'"
    using world_seg_desc [OF inv m(1,2)] world_seg_desc [OF inv m(1,3)] d(1) d'(1) False by auto
  have c': "contiguous 0 (seg_layout w m)" using c False by blast
  let ?off = "file_offset d + (smgr i - base_vaddr d)"
  have off: "?off = file_offset d' + (smgr j - base_vaddr d')" using pl f by (simp add: place_of_def)
  have "in_chunk (chunk_at w i) ?off" "in_chunk (chunk_at w j) ?off"
    using view_chunk [OF c' m(2) d f(1)] view_chunk [OF c' m(3) d' f(2)] off by simp_all
  moreover obtain k k' where "k < length (segments m)" "segments m ! k = i" "k' < length (segments m)" "segments m ! k' = j"
    using m(2,3) by (auto simp: in_set_conv_nth)
  ultimately show ?thesis using contiguous_unique [OF c', of k k' ?off] by (auto simp: seg_layout_def)
qed

text \<open>The blocks of a segment lie in its mapping; blocks of two segments are apart.\<close>

lemma seg_block_inside:
  assumes inv: "world_inv e w" and bn: "boost_new_ok (boost e) v" and h: "heap_ok e v w this"
    and m: "managers w this = Some m" "i \<in> set (segments m)" and x: "x \<in> seg_blocks e v w m i"
  shows "\<exists>d off s. descs (proc w) (seg i) = Some d \<and> in_range (base_vaddr d) (size_of d) (fst x) \<and>
    unat (fst x) + unat (snd x) \<le> unat (base_vaddr d) + unat (size_of d) \<and>
    smgr_at e w m i = Some (place_of e m d (smgr i), s) \<and> (off, snd x) \<in> hv_blocks v s \<and> fst x = smgr i + off"
proof -
  obtain d s where d: "descs (proc w) (seg i) = Some d" "smgr_at e w m i = Some (place_of e m d (smgr i), s)" "hv_ok v s"
    "in_range (base_vaddr d) (size_of d) (smgr i)" "unat (smgr i) + hv_span v s \<le> unat (base_vaddr d) + unat (size_of d)"
    using heap_okD [OF h m] by blast
  obtain off where o': "(off, snd x) \<in> hv_blocks v s" "fst x = smgr i + off"
    using x d(2) by (auto simp: seg_blocks_def)
  have b: "unat off < hv_span v s" "unat off + unat (snd x) \<le> hv_span v s"
    using bn o'(1) d(3) by (force simp: boost_new_ok_def)+
  have f: "unat (base_vaddr d) + unat (size_of d) < 2 ^ 47"
    using world_seg_desc [OF inv m] d(1) fits_no_wrap by auto
  have r: "unat (base_vaddr d) \<le> unat (smgr i)" using d(4) in_rangeI_unat [of "base_vaddr d" "size_of d"] f by simp
  have u: "unat (fst x) = unat (smgr i) + unat off" using o'(2) b d(5) f by (simp add: unat_word_ariths)
  have "in_range (base_vaddr d) (size_of d) (fst x)" using u b d(5) r in_rangeI_unat f by simp
  then show ?thesis using d(1,2) o' u b d(5) by auto
qed
lemma in_block_range:
  assumes "k \<in> block_bytes x" "in_range b sz (fst x)" "unat (fst x) + unat (snd x) \<le> unat b + unat sz" "unat b + unat sz < 2 ^ 47"
  shows "in_range b sz (of_nat k)"
proof -
  have r: "unat b \<le> unat (fst x)" using assms(2,4) in_rangeI_unat [of b sz "fst x"] by simp
  have k: "unat (fst x) \<le> k" "k < unat (fst x) + unat (snd x)" using assms(1) by (simp_all add: block_bytes_def)
  then have "unat (of_nat k :: u64) = k" using assms(3,4) by (simp add: unat_of_nat)
  then show ?thesis using in_rangeI_unat [of b sz "of_nat k"] r k assms(3,4) by simp
qed

lemma blocks_apart:
  assumes inv: "world_inv e w" and m: "managers w this = Some m" "i \<in> set (segments m)" "j \<in> set (segments m)" "i \<noteq> j"
    and x: "descs (proc w) (seg i) = Some d" "in_range (base_vaddr d) (size_of d) (fst x)"
      "unat (fst x) + unat (snd x) \<le> unat (base_vaddr d) + unat (size_of d)"
    and y: "descs (proc w) (seg j) = Some d'" "in_range (base_vaddr d') (size_of d') (fst y)"
      "unat (fst y) + unat (snd y) \<le> unat (base_vaddr d') + unat (size_of d')"
  shows "apart_blocks x y"
proof -
  have f: "unat (base_vaddr d) + unat (size_of d) < 2 ^ 47" "unat (base_vaddr d') + unat (size_of d') < 2 ^ 47"
    using world_seg_desc [OF inv m(1,2)] world_seg_desc [OF inv m(1,3)] x(1) y(1) fits_no_wrap by auto
  have "k \<notin> block_bytes y" if "k \<in> block_bytes x" for k
    using same_seg [OF inv m(1-3) x(1) in_block_range [OF that x(2,3) f(1)] y(1)] in_block_range [OF _ y(2,3) f(2), of k] m(4)
    by blast
  moreover have "fst x \<noteq> fst y" using same_seg [OF inv m(1-3) x(1,2) y(1)] y(2) m(4) by auto
  ultimately show ?thesis by (auto simp: apart_blocks_def)
qed

text \<open>Replacing the state of one Boost manager.\<close>

lemma smgr_at_update:
  assumes inv: "world_inv e w" and h: "heap_ok e v w this" and m: "managers w this = Some m" "i \<in> set (segments m)" "j \<in> set (segments m)"
    and l: "smgr_at e w m i = Some (l, s)"
  shows "smgr_at e (w\<lparr>smgrs := (smgrs w)(l \<mapsto> s')\<rparr>) m j = (if j = i then Some (l, s') else smgr_at e w m j)"
proof -
  obtain d s0 where d: "descs (proc w) (seg i) = Some d" "l = place_of e m d (smgr i)" "in_range (base_vaddr d) (size_of d) (smgr i)"
    using heap_okD [OF h m(1,2)] l by auto
  obtain d' where d': "descs (proc w) (seg j) = Some d'" "in_range (base_vaddr d') (size_of d') (smgr j)"
    using heap_okD [OF h m(1,3)] by blast
  have "place_of e m d' (smgr j) = l \<longrightarrow> j = i"
    using places_distinct [OF inv m(1,3,2) _ d'(1,2) d(1,3)] heap_contiguous [OF h m(1)] d(2) by blast
  then show ?thesis using d d' by (auto simp: smgr_at_def)
qed

lemma heap_update:
  assumes inv: "world_inv e w" and h: "heap_ok e v w this" and m: "managers w this = Some m" "i \<in> set (segments m)"
    and l: "smgr_at e w m i = Some (l, s)" and s': "hv_ok v s'" "hv_span v s' = hv_span v s"
    and w': "w' = w\<lparr>smgrs := (smgrs w)(l \<mapsto> s')\<rparr>"
  shows "world_inv e w'" "heap_ok e v w' this" "managers w' = managers w" "proc w' = proc w" "tables w' = tables w"
    "prefetch w' = prefetch w" "hist w' = hist w"
    "live_blocks e v w' this = (\<Union>j \<in> set (segments m) - {i}. seg_blocks e v w m j) \<union> (\<lambda>(off, n). (smgr i + off, n)) ` hv_blocks v s'"
    "live_blocks e v w this = (\<Union>j \<in> set (segments m) - {i}. seg_blocks e v w m j) \<union> (\<lambda>(off, n). (smgr i + off, n)) ` hv_blocks v s"
proof -
  note upd = smgr_at_update [OF inv h m _ l, of _ s', folded w']
  show "world_inv e w'" using inv by (simp add: w')
  have mm: "managers w' this = Some m" "proc w' = proc w" "tables w' = tables w" using m by (simp_all add: w')
  have "heap_segment e v w' m j" if j: "j \<in> set (segments m)" for j
  proof -
    obtain d s0 where d: "descs (proc w) (seg j) = Some d" "smgr_at e w m j = Some (place_of e m d (smgr j), s0)"
        "hv_ok v s0" "in_range (base_vaddr d) (size_of d) (smgr j)"
        "unat (smgr j) + hv_span v s0 \<le> unat (base_vaddr d) + unat (size_of d)"
      using heap_okD [OF h m(1) j] by blast
    show ?thesis
    proof (cases "j = i")
      case True
      then have "smgr_at e w' m j = Some (place_of e m d (smgr j), s')" using upd [OF j] l d(2) by simp
      then have "smgrs w' (place_of e m d (smgr j)) = Some s'" using d(1) mm(2) by (auto simp: smgr_at_def split: bind_splits)
      then show ?thesis using d s' l True mm(2) unfolding heap_segment_def by (intro exI [of _ d] exI [of _ s']) simp
    next
      case False
      then have "smgr_at e w' m j = Some (place_of e m d (smgr j), s0)" using upd [OF j] d(2) by simp
      then have "smgrs w' (place_of e m d (smgr j)) = Some s0" using d(1) mm(2) by (auto simp: smgr_at_def split: bind_splits)
      then show ?thesis using d mm(2) unfolding heap_segment_def by (intro exI [of _ d] exI [of _ s0]) simp
    qed
  qed
  moreover have "layout_ok e w' this = layout_ok e w this"
    by (simp add: layout_ok_def w')
  ultimately show "heap_ok e v w' this" using h mm m by (auto simp: heap_ok_def)
  have "seg_blocks e v w' m j = (if j = i then (\<lambda>(off, n). (smgr i + off, n)) ` hv_blocks v s' else seg_blocks e v w m j)"
    if "j \<in> set (segments m)" for j using upd [OF that] by (simp add: seg_blocks_def)
  then have "live_blocks e v w' this = (\<Union>j \<in> set (segments m). if j = i then (\<lambda>(off, n). (smgr i + off, n)) ` hv_blocks v s' else seg_blocks e v w m j)"
    using live_blocksI [OF mm(1), of e v] by simp
  then show "live_blocks e v w' this = (\<Union>j \<in> set (segments m) - {i}. seg_blocks e v w m j) \<union> (\<lambda>(off, n). (smgr i + off, n)) ` hv_blocks v s'"
    using m(2) by (auto split: if_splits)
  have "seg_blocks e v w m i = (\<lambda>(off, n). (smgr i + off, n)) ` hv_blocks v s" using l by (simp add: seg_blocks_def)
  then show "live_blocks e v w this = (\<Union>j \<in> set (segments m) - {i}. seg_blocks e v w m j) \<union> (\<lambda>(off, n). (smgr i + off, n)) ` hv_blocks v s"
    using live_blocksI [OF m(1), of e v] m(2) by auto
qed (simp_all add: w')
section \<open>Allocation in the segments\<close>

text \<open>A step that only touches Boost managers, and the block it takes.\<close>

definition only_heaps :: "'m world \<Rightarrow> 'm world \<Rightarrow> bool" where
  "only_heaps w w' \<longleftrightarrow> (\<exists>sm c. w' = w\<lparr>smgrs := sm, prefetch := c\<rparr>)"

definition taken :: "'m env \<Rightarrow> 'm heap_view \<Rightarrow> u64 \<Rightarrow> u64 \<times> u64 \<Rightarrow> 'm world \<Rightarrow> 'm world \<Rightarrow> bool" where
  "taken e v this x w w' \<longleftrightarrow> fst x \<noteq> nullptr \<and> live_blocks e v w' this = insert x (live_blocks e v w this) \<and>
     (\<forall>y \<in> live_blocks e v w this. apart_blocks x y) \<and> (\<exists>m. managers w' this = Some m \<and> inside w' m x)"

lemma only_heaps_refl [simp]: "only_heaps w w"
  unfolding only_heaps_def by (intro exI [of _ "smgrs w"] exI [of _ "prefetch w"]) simp

lemma only_heaps_trans: "only_heaps w w1 \<Longrightarrow> only_heaps w1 w2 \<Longrightarrow> only_heaps w w2"
  unfolding only_heaps_def by (elim exE) (rule exI, rule exI, simp)

lemma only_heapsD:
  "only_heaps w w' \<Longrightarrow> managers w' = managers w \<and> proc w' = proc w \<and> tables w' = tables w \<and> hist w' = hist w"
  unfolding only_heaps_def by auto

lemma only_heaps_world: "only_heaps w w' \<Longrightarrow> world_inv e w \<Longrightarrow> world_inv e w'"
  unfolding only_heaps_def by auto

lemma smgr_update_only: "only_heaps w (w\<lparr>smgrs := s\<rparr>)"
  unfolding only_heaps_def by (intro exI [of _ s] exI [of _ "prefetch w"]) simp

lemma block_not_null:
  assumes "world_inv e w" "managers w this = Some m" "inside w m x"
  shows "fst x \<noteq> nullptr"
  using assms managed_seg_of(3) unfolding inside_def by blast

text \<open>Offsets that are apart inside one Boost manager are apart as addresses.\<close>

lemma apart_shift:
  fixes b off off' :: u64
  assumes "apart_blocks (off, n) (off', n')" "unat b + sp < 2 ^ 47" "unat off < sp" "unat off' < sp"
  shows "apart_blocks (b + off, n) (b + off', n')"
proof -
  have u: "unat (b + off) = unat b + unat off" "unat (b + off') = unat b + unat off'"
    using assms(2-4) by (simp_all add: unat_word_ariths)
  have "k - unat b \<in> block_bytes (off, n) \<inter> block_bytes (off', n')"
    if "k \<in> block_bytes (b + off, n) \<inter> block_bytes (b + off', n')" for k
    using that u by (auto simp: block_bytes_def)
  then show ?thesis using assms(1) by (auto simp: apart_blocks_def)
qed

text \<open>One segment: its Boost manager either takes a block or leaves the blocks alone.\<close>

lemma allocate_one:
  assumes laws: "boost_laws (boost e) v" and inv: "world_inv e w" and h: "heap_ok e v w this"
    and m: "managers w this = Some m" "i \<in> set (segments m)"
    and l: "smgr_at e w m i = Some (l, s)" and a: "sm_allocate (boost e) n s = (r, s')"
    and w': "w' = w\<lparr>smgrs := (smgrs w)(l \<mapsto> s')\<rparr>"
  shows "world_inv e w' \<and> heap_ok e v w' this \<and> only_heaps w w' \<and>
    (case r of None \<Rightarrow> live_blocks e v w' this = live_blocks e v w this
     | Some off \<Rightarrow> taken e v this (smgr i + off, n) w w')"
proof -
  have ok: "hv_ok v s" using heap_okD [OF h m] l by auto
  have s': "hv_ok v s'" "hv_span v s' = hv_span v s"
    and bl: "case r of None \<Rightarrow> hv_blocks v s' = hv_blocks v s
         | Some off \<Rightarrow> hv_blocks v s' = insert (off, n) (hv_blocks v s) \<and> (\<forall>x \<in> hv_blocks v s. apart_blocks (off, n) x)"
    using laws ok a unfolding boost_laws_def boost_allocate_ok_def by blast+
  note u = heap_update [OF inv h m l s' w']
  have bn: "boost_new_ok (boost e) v" using laws by (simp add: boost_laws_def)
  have oh: "only_heaps w w'" by (simp add: w' smgr_update_only)
  show ?thesis
  proof (cases r)
    case None
    then show ?thesis using u bl oh by simp
  next
    case (Some off)
    let ?x = "(smgr i + off, n)"
    have live: "live_blocks e v w' this = insert ?x (live_blocks e v w this)" using u(8,9) bl Some by auto
    have at: "smgr_at e w' m i = Some (l, s')" using smgr_at_update [OF inv h m(1,2,2) l] w' by simp
    have mm: "managers w' this = Some m" using m u(3) by simp
    have "?x \<in> seg_blocks e v w' m i" using at bl Some by (simp add: seg_blocks_def)
    from seg_block_inside [OF u(1) bn u(2) mm m(2) this]
    obtain d where d: "descs (proc w') (seg i) = Some d" "in_range (base_vaddr d) (size_of d) (fst ?x)"
      "unat (fst ?x) + unat (snd ?x) \<le> unat (base_vaddr d) + unat (size_of d)" by blast
    then have ins: "inside w' m ?x" using m(2) unfolding inside_def by blast
    have "apart_blocks ?x y" if y: "y \<in> live_blocks e v w this" for y
    proof -
      obtain j where j: "j \<in> set (segments m)" "y \<in> seg_blocks e v w m j" using y live_blocksI [OF m(1)] by auto
      obtain d' o' s0 where d': "descs (proc w) (seg j) = Some d'" "in_range (base_vaddr d') (size_of d') (fst y)"
          "unat (fst y) + unat (snd y) \<le> unat (base_vaddr d') + unat (size_of d')"
          "smgr_at e w m j = Some (place_of e m d' (smgr j), s0)" "(o', snd y) \<in> hv_blocks v s0" "fst y = smgr j + o'"
        using seg_block_inside [OF inv bn h m(1) j] by blast
      show ?thesis
      proof (cases "j = i")
        case False
        then show ?thesis using blocks_apart [OF u(1) mm m(2) j(1) _ d, of d' y] d' u(4) by simp
      next
        case True
        then have s0: "s0 = s" using d'(4) l by simp
        have ap: "apart_blocks (off, n) (o', snd y)" using bl Some d'(5) s0 by (force simp: apart_blocks_def)
        have f: "unat (base_vaddr d') + unat (size_of d') < 2 ^ 47"
          using world_seg_desc [OF inv m(1) j(1)] d'(1) fits_no_wrap by auto
        have sp: "unat (smgr i) + hv_span v s \<le> unat (base_vaddr d') + unat (size_of d')"
          using heap_okD [OF h m] d'(1) l True by auto
        have "unat o' < hv_span v s" using bn d'(5) ok s0 by (force simp: boost_new_ok_def)
        moreover have "unat off < hv_span v s" using bn s' bl Some by (force simp: boost_new_ok_def)
        ultimately have "apart_blocks ?x (smgr i + o', snd y)" using apart_shift [OF ap, of "smgr i" "hv_span v s"] sp f by simp
        then show ?thesis using d'(6) True by (cases y) simp
      qed
    qed
    then have "taken e v this ?x w w'"
      using live ins mm block_not_null [OF u(1) mm ins] unfolding taken_def by simp
    then show ?thesis using u(1,2) oh Some by simp
  qed
qed

lemma taken_after:
  "live_blocks e v w1 this = live_blocks e v w this \<Longrightarrow> taken e v this x w1 w' \<Longrightarrow> taken e v this x w w'"
  by (simp add: taken_def)

lemma allocate_in_spec:
  assumes laws: "boost_laws (boost e) v" and "world_inv e w" "heap_ok e v w this" "managers w this = Some m" "set is \<subseteq> set (segments m)"
  shows "\<exists>p w'. allocate_in e n m is w = Some (p, w') \<and> world_inv e w' \<and> heap_ok e v w' this \<and> only_heaps w w' \<and>
    (if p = nullptr then live_blocks e v w' this = live_blocks e v w this else taken e v this (p, n) w w')"
  using assms(2-)
proof (induction "is" arbitrary: w)
  case (Cons i "is")
  have i: "i \<in> set (segments m)" "set is \<subseteq> set (segments m)" using Cons.prems(4) by auto
  obtain l s where l: "smgr_at e w m i = Some (l, s)" using heap_okD [OF Cons.prems(2,3) i(1)] by blast
  obtain r s' where a: "sm_allocate (boost e) n s = (r, s')" by fastforce
  let ?w1 = "w\<lparr>smgrs := (smgrs w)(l \<mapsto> s')\<rparr>"
  note one = allocate_one [OF laws Cons.prems(1-3) i(1) l a refl]
  show ?case
  proof (cases r)
    case (Some off)
    then have t: "taken e v this (smgr i + off, n) w ?w1" using one by simp
    then have "smgr i + off \<noteq> nullptr" by (simp add: taken_def)
    then show ?thesis using l a Some t one by simp
  next
    case None
    have "managers ?w1 this = Some m" using Cons.prems(3) by simp
    then obtain p w' where w': "allocate_in e n m is ?w1 = Some (p, w')" "world_inv e w'" "heap_ok e v w' this" "only_heaps ?w1 w'"
      "if p = nullptr then live_blocks e v w' this = live_blocks e v ?w1 this else taken e v this (p, n) ?w1 w'"
      using Cons.IH [OF _ _ _ i(2), of ?w1] one by blast
    have lb: "live_blocks e v ?w1 this = live_blocks e v w this" using one None by simp
    have run: "allocate_in e n m (i # is) w = Some (p, w')" using l a None w'(1) by simp
    show ?thesis
      by (intro exI [of _ p] exI [of _ w'] conjI run w'(2,3))
        (use w'(4,5) lb one only_heaps_trans taken_after [OF lb] in \<open>auto split: if_splits\<close>)
  qed
qed simp
lemma heap_cong:
  assumes "descs (proc w') = descs (proc w)" "managers w' = managers w" "smgrs w' = smgrs w" "tables w' = tables w"
  shows "smgr_at e w' = smgr_at e w" "live_blocks e v w' this = live_blocks e v w this" "heap_ok e v w' this = heap_ok e v w this"
proof -
  show s: "smgr_at e w' = smgr_at e w" using assms by (intro ext) (simp add: smgr_at_def)
  have "seg_blocks e v w' = seg_blocks e v w" by (intro ext) (simp add: seg_blocks_def s)
  then show "live_blocks e v w' this = live_blocks e v w this" using assms(2) by (simp only: live_blocks_def)
  have "chunk_at w' = chunk_at w" using assms(1) by (intro ext) (simp add: chunk_at_def)
  then have "seg_layout w' = seg_layout w" by (intro ext) (simp add: seg_layout_def)
  then have "layout_ok e w' this = layout_ok e w this" using assms by (simp add: layout_ok_def)
  then show "heap_ok e v w' this = heap_ok e v w this" using assms by (simp add: heap_ok_def heap_segment_def)
qed

lemma prefetch_irrelevant [simp]:
  "live_blocks e v (w\<lparr>prefetch := c\<rparr>) this = live_blocks e v w this"
  "heap_ok e v (w\<lparr>prefetch := c\<rparr>) this = heap_ok e v w this"
  "taken e v this x w0 (w\<lparr>prefetch := c\<rparr>) = taken e v this x w0 w"
proof -
  note c = heap_cong [of "w\<lparr>prefetch := c\<rparr>" w, simplified]
  show "live_blocks e v (w\<lparr>prefetch := c\<rparr>) this = live_blocks e v w this" "heap_ok e v (w\<lparr>prefetch := c\<rparr>) this = heap_ok e v w this"
    by (simp_all only: c)
  then show "taken e v this x w0 (w\<lparr>prefetch := c\<rparr>) = taken e v this x w0 w" by (simp add: taken_def inside_def)
qed

lemma try_allocate_spec:
  assumes laws: "boost_laws (boost e) v" and inv: "world_inv e w" and h: "heap_ok e v w this"
  shows "\<exists>p w'. try_allocate_locked e this n w = Some (p, w') \<and> world_inv e w' \<and> heap_ok e v w' this \<and> only_heaps w w' \<and>
    (if p = nullptr then live_blocks e v w' this = live_blocks e v w this else taken e v this (p, n) w w')"
proof -
  obtain m where m: "managers w this = Some m" "segments m \<noteq> []" using h by (auto simp: heap_ok_def)
  obtain p w1 where a: "allocate_in e n m (segments m) w = Some (p, w1)" "world_inv e w1" "heap_ok e v w1 this" "only_heaps w w1"
    "if p = nullptr then live_blocks e v w1 this = live_blocks e v w this else taken e v this (p, n) w w1"
    using allocate_in_spec [OF laws inv h m(1) subset_refl] by blast
  have m1: "managers w1 this = Some m" using only_heapsD [OF a(4)] m(1) by simp
  have "last (segments m) \<in> set (segments m)" using m(2) by simp
  then obtain d s where d: "descs (proc w1) (seg (last (segments m))) = Some d"
    "smgr_at e w1 m (last (segments m)) = Some (place_of e m d (smgr (last (segments m))), s)"
    using heap_okD [OF a(3) m1] by blast
  let ?w2 = "w1\<lparr>prefetch := prefetch w1 @ [Hint_growth this]\<rparr>"
  define w' where "w' = (if p \<noteq> nullptr \<and> sm_free (boost e) s < size_of d div 2 then ?w2 else w1)"
  have run: "try_allocate_locked e this n w = Some (p, w')"
    using m(1) a(1) d by (simp add: try_allocate_locked_def w'_def)
  have "only_heaps w1 ?w2"
    unfolding only_heaps_def by (intro exI [of _ "smgrs w1"] exI [of _ "prefetch w1 @ [Hint_growth this]"]) simp
  then have "only_heaps w w'" using a(4) only_heaps_trans by (auto simp: w'_def)
  then show ?thesis using a(2,3,5) by (intro exI [of _ p] exI [of _ w'] conjI run) (simp_all add: w'_def)
qed

section \<open>Growth keeps the heap\<close>

text \<open>What growth does to the Boost managers: the old ones stay, new ones are fresh.\<close>

definition extends :: "'m env \<Rightarrow> u64 \<Rightarrow> 'm world \<Rightarrow> 'm world \<Rightarrow> bool" where
  "extends e this w w' \<longleftrightarrow>
     (\<exists>m new. managers w this = Some m \<and> managers w' this = Some (m\<lparr>segments := segments m @ new\<rparr>) \<and>
        (\<forall>j \<in> set (segments m). smgr_at e w' m j = smgr_at e w m j) \<and>
        (\<forall>i \<in> set new. i \<notin> set (segments m) \<and> (\<exists>l n. smgr_at e w' m i = Some (l, sm_new (boost e) n))))"

lemma place_of_segments [simp]:
  "place_of e (m\<lparr>segments := x\<rparr>) = place_of e m" "smgr_at e w (m\<lparr>segments := x\<rparr>) = smgr_at e w m"
proof -
  show p: "place_of e (m\<lparr>segments := x\<rparr>) = place_of e m" by (intro ext) (simp add: place_of_def object_of_def)
  show "smgr_at e w (m\<lparr>segments := x\<rparr>) = smgr_at e w m" by (intro ext) (simp add: smgr_at_def p)
qed

lemma one_more_heap:
  assumes bn: "boost_new_ok (boost e) v" and inv: "world_inv e w" and h: "heap_ok e v w this" and m: "managers w this = Some m"
    and inv': "world_inv e w'" and om: "one_more e this b m w w'" and up: "\<not> anon m \<longrightarrow> layout_ok e w' this"
  shows "heap_ok e v w' this \<and> live_blocks e v w' this = live_blocks e v w this \<and> extends e this w w'"
proof -
  obtain i d where m': "managers w' this = Some (m\<lparr>segments := segments m @ [i]\<rparr>)"
    and d: "descs (proc w) (seg i) = None" "descs (proc w') = (descs (proc w))(seg i \<mapsto> d)" "smgr i = base_vaddr d" "is_anon d = anon m"
    and s: "smgrs w' = (smgrs w)(place_of e m d (smgr i) \<mapsto> sm_new (boost e) (size_of d))"
    using om unfolding one_more_def by blast
  let ?m' = "m\<lparr>segments := segments m @ [i]\<rparr>"
  have pl: "place_of e ?m' = place_of e m" by (intro ext) (simp add: place_of_def object_of_def)
  have i: "i \<in> set (segments ?m')" "descs (proc w') (seg i) = Some d" using d(2) by simp_all
  have "fits (plat e) (base_vaddr d) (size_of d)" using world_seg_desc [OF inv' m' i(1)] i(2) by auto
  then have r: "in_range (base_vaddr d) (size_of d) (smgr i)"
    using d(3) fits_no_wrap in_rangeI_unat [of "base_vaddr d" "size_of d" "base_vaddr d"] by (fastforce simp: fits_def unat_gt_0)
  have c: "\<not> anon ?m' \<longrightarrow> contiguous 0 (seg_layout w' ?m')" using up layout_contiguous [OF _ m'] by auto
  have old: "smgr_at e w' ?m' j = smgr_at e w m j \<and> heap_segment e v w' ?m' j" if j: "j \<in> set (segments m)" for j
  proof -
    obtain d' s' where d': "descs (proc w) (seg j) = Some d'" "smgr_at e w m j = Some (place_of e m d' (smgr j), s')"
      "smgrs w (place_of e m d' (smgr j)) = Some s'" "hv_ok v s'" "in_range (base_vaddr d') (size_of d') (smgr j)"
      "unat (smgr j) + hv_span v s' \<le> unat (base_vaddr d') + unat (size_of d')"
      using heap_okD [OF h m j] by blast
    have ne: "seg j \<noteq> seg i" using d(1) d'(1) by auto
    then have dj: "descs (proc w') (seg j) = Some d'" using d(2) d'(1) by simp
    have "place_of e m d' (smgr j) \<noteq> place_of e m d (smgr i)"
      using places_distinct [OF inv' m' _ i(1) c dj d'(5) i(2) r, unfolded pl] j ne by auto
    then have "smgrs w' (place_of e ?m' d' (smgr j)) = Some s'" using s d'(3) pl by simp
    then show ?thesis using dj d' pl unfolding heap_segment_def smgr_at_def by auto
  qed
  have new: "smgrs w' (place_of e ?m' d (smgr i)) = Some (sm_new (boost e) (size_of d))" using s pl by simp
  then have hi: "heap_segment e v w' ?m' i" and bi: "seg_blocks e v w' ?m' i = {}"
    using bn i(2) r d(3) by (auto simp: heap_segment_def boost_new_ok_def seg_blocks_def smgr_at_def)
  have "heap_ok e v w' this" using m' old hi up unfolding heap_ok_def by (intro exI [of _ ?m']) auto
  moreover have "live_blocks e v w' this = live_blocks e v w this"
    using live_blocksI [OF m', of e v] live_blocksI [OF m, of e v] old bi by (auto simp: seg_blocks_def)
  moreover have "extends e this w w'"
  proof -
    have "i \<notin> set (segments m)" using heap_okD [OF h m, of i] d(1) by auto
    moreover have "smgr_at e w' m i = Some (place_of e m d (smgr i), sm_new (boost e) (size_of d))"
      using new i(2) by (simp add: smgr_at_def)
    ultimately show ?thesis using m m' old unfolding extends_def by (intro exI [of _ m] exI [of _ "[i]"]) auto
  qed
  ultimately show ?thesis by blast
qed

lemma unchanged_extends: "unchanged w w' \<Longrightarrow> managers w this = Some m \<Longrightarrow> extends e this w w'"
  using heap_cong(1) [of w' w e] unfolding extends_def by (intro exI [of _ m] exI [of _ "[]"]) (simp add: unchanged_def)

lemma unchanged_heap: "unchanged w w' \<Longrightarrow> heap_ok e v w' this = heap_ok e v w this \<and> live_blocks e v w' this = live_blocks e v w this"
  using heap_cong [of w' w e] by (simp add: unchanged_def)

lemma grow_heap:
  assumes env: "env_ok e" and bn: "boost_new_ok (boost e) v" and inv: "world_inv e w" and h: "heap_ok e v w this"
  shows "\<exists>r w'. grow e th this b w = Some (r, w') \<and> world_inv e w' \<and> grown e this w w' \<and>
    (r \<noteq> Inl (Runtime_error ''Too many sub-segments'') \<longrightarrow>
      heap_ok e v w' this \<and> live_blocks e v w' this = live_blocks e v w this \<and> extends e this w w')"
proof -
  obtain m where m: "managers w this = Some m" and lo: "\<not> anon m \<longrightarrow> layout_ok e w this" using h by (auto simp: heap_ok_def)
  show ?thesis
  proof (cases "anon m")
    case True
    obtain r w' where run: "grow e th this b w = Some (r, w')" "world_inv e w'" "grown e this w w'"
      and res: "case r of Inl x \<Rightarrow> x \<in> {Bad_alloc, Terminate} \<and> unchanged w w'
        | Inr _ \<Rightarrow> (if b \<le> the (get_free_memory e this w) then w' = w else one_more e this b m w w')"
      using grow_anon_spec [OF env inv m True heap_usable [OF h], of th b] by blast
    have "unchanged w w' \<or> one_more e this b m w w'" using res by (cases r) (auto simp: unchanged_def split: if_splits)
    then show ?thesis using run unchanged_heap [of w w' e v this] unchanged_extends [of w w' this m e]
        one_more_heap [OF bn inv h m run(2)] h m True by blast
  next
    case False
    obtain r w' where run: "grow e th this b w = Some (r, w')" "world_inv e w'" "grown e this w w'"
      and res: "case r of
       Inl x \<Rightarrow> if x = Runtime_error ''Too many sub-segments'' then length (segments m) = kMaxSubSegments \<and> one_more e this b m w w' \<and> tables w' = tables w
         else x \<in> {Bad_alloc, Runtime_error ''segmented_segment_manager: failed to map SHM chunk'', Terminate} \<and> unchanged w w'
     | Inr _ \<Rightarrow> (if b \<le> the (get_free_memory e this w) then w' = w else one_more e this b m w w' \<and> up_to_date e w' this)"
      using grow_shm_spec [OF env inv _ heap_usable [OF h] m, of th b] lo False by blast
    have "r = Inl (Runtime_error ''Too many sub-segments'') \<or> unchanged w w' \<or> one_more e this b m w w' \<and> layout_ok e w' this"
      using res by (cases r) (auto simp: unchanged_def up_to_date_def split: if_splits)
    then show ?thesis using run unchanged_heap [of w w' e v this] unchanged_extends [of w w' this m e]
        one_more_heap [OF bn inv h m run(2)] h m by blast
  qed
qed
section \<open>Properties\<close>

lemma only_heaps_views: "only_heaps w w' \<Longrightarrow> views w' = views w"
  using only_heapsD [of w w'] by (intro ext) (simp add: views_def)

lemma allocate_spec:
  assumes env: "env_ok e" and laws: "boost_laws (boost e) v" and inv: "world_inv e w" and h: "heap_ok e v w this"
  shows "\<exists>r w'. allocate e th this n w = Some (r, w') \<and> world_inv e w' \<and>
    (\<forall>u. no_stale (proc w) u \<longrightarrow> no_stale (proc w') u) \<and> (\<forall>off q. views w this off q \<longrightarrow> views w' this off q) \<and>
    (case r of
       Inr p \<Rightarrow> heap_ok e v w' this \<and> taken e v this (p, n) w w'
     | Inl x \<Rightarrow> x \<noteq> Runtime_error ''Too many sub-segments'' \<longrightarrow>
         heap_ok e v w' this \<and> live_blocks e v w' this = live_blocks e v w this)"
proof -
  obtain p w1 where t1: "try_allocate_locked e this n w = Some (p, w1)" "world_inv e w1" "heap_ok e v w1 this" "only_heaps w w1"
    "if p = nullptr then live_blocks e v w1 this = live_blocks e v w this else taken e v this (p, n) w w1"
    using try_allocate_spec [OF laws inv h] by blast
  note k1 = only_heapsD [OF t1(4)] only_heaps_views [OF t1(4)]
  show ?thesis
  proof (cases "p = nullptr")
    case False
    then have "allocate e th this n w = Some (Inr p, w1)" using t1(1) by (simp add: allocate_def)
    then show ?thesis using t1 k1 False by (intro exI [of _ "Inr p"] exI [of _ w1]) simp
  next
    case True
    have bn: "boost_new_ok (boost e) v" using laws by (simp add: boost_laws_def)
    obtain r w2 where g: "grow e th this (n + kMinSegmentSize) w1 = Some (r, w2)" "world_inv e w2" "grown e this w1 w2"
      "r \<noteq> Inl (Runtime_error ''Too many sub-segments'') \<longrightarrow>
        heap_ok e v w2 this \<and> live_blocks e v w2 this = live_blocks e v w1 this"
      using grow_heap [OF env bn t1(2,3)] by blast
    have k2: "\<forall>u. no_stale (proc w) u \<longrightarrow> no_stale (proc w2) u" "\<forall>off q. views w this off q \<longrightarrow> views w2 this off q"
      using g(3) k1 views_grown [OF g(3)] by (auto simp: grown_def)
    have lb: "live_blocks e v w1 this = live_blocks e v w this" using t1(5) True by simp
    show ?thesis
    proof (cases r)
      case (Inl x)
      then have "allocate e th this n w = Some (Inl x, w2)" using t1(1) True g(1) by (simp add: allocate_def)
      then show ?thesis using g k2 lb Inl by (intro exI [of _ "Inl x"] exI [of _ w2]) simp
    next
      case (Inr y)
      then have h2: "heap_ok e v w2 this" "live_blocks e v w2 this = live_blocks e v w this" using g(4) lb by simp_all
      obtain q w3 where t3: "try_allocate_locked e this n w2 = Some (q, w3)" "world_inv e w3" "heap_ok e v w3 this" "only_heaps w2 w3"
        "if q = nullptr then live_blocks e v w3 this = live_blocks e v w2 this else taken e v this (q, n) w2 w3"
        using try_allocate_spec [OF laws g(2) h2(1)] by blast
      note k3 = only_heapsD [OF t3(4)] only_heaps_views [OF t3(4)]
      have run: "allocate e th this n w = Some (if q = nullptr then Inl Bad_alloc else Inr q, w3)"
        using t1(1) True g(1) Inr t3(1) by (simp add: allocate_def)
      have st: "\<forall>u. no_stale (proc w) u \<longrightarrow> no_stale (proc w3) u" "\<forall>off q. views w this off q \<longrightarrow> views w3 this off q"
        using k2 k3 by simp_all
      show ?thesis
        by (rule exI [of _ "if q = nullptr then Inl Bad_alloc else Inr q"], rule exI [of _ w3], intro conjI run t3(2) st)
          (use t3(3,5) h2(2) taken_after [OF h2(2)] in \<open>auto split: if_splits\<close>)
    qed
  qed
qed

text \<open>
  C5: \<^verbatim>\<open>allocate\<close> refines a heap: on success the new block lies inside one mapped segment, shares
  no byte with any live block of any segment, and exactly it becomes live, whether a segment had
  room or the manager had to grow. On failure the live blocks are unchanged. In both cases no
  mapped byte has moved.
\<close>

theorem allocate_takes_fresh_block:
  assumes "env_ok e" "boost_laws (boost e) v" "world_inv e w" "heap_ok e v w this"
  shows "\<exists>r w'. allocate e th this n w = Some (r, w') \<and> world_inv e w' \<and>
    (\<forall>off q. views w this off q \<longrightarrow> views w' this off q) \<and>
    (case r of
       Inr p \<Rightarrow> heap_ok e v w' this \<and> p \<noteq> nullptr \<and>
         live_blocks e v w' this = insert (p, n) (live_blocks e v w this) \<and>
         (\<forall>y \<in> live_blocks e v w this. apart_blocks (p, n) y) \<and> (\<exists>m. managers w' this = Some m \<and> inside w' m (p, n))
     | Inl x \<Rightarrow> x \<noteq> Runtime_error ''Too many sub-segments'' \<longrightarrow>
         heap_ok e v w' this \<and> live_blocks e v w' this = live_blocks e v w this)"
proof -
  obtain r w' where "allocate e th this n w = Some (r, w')" "world_inv e w'" "\<forall>off q. views w this off q \<longrightarrow> views w' this off q"
    "case r of
       Inr p \<Rightarrow> heap_ok e v w' this \<and> taken e v this (p, n) w w'
     | Inl x \<Rightarrow> x \<noteq> Runtime_error ''Too many sub-segments'' \<longrightarrow>
         heap_ok e v w' this \<and> live_blocks e v w' this = live_blocks e v w this"
    using allocate_spec [OF assms, of th n] by blast
  then show ?thesis by (intro exI [of _ r] exI [of _ w']) (cases r; simp add: taken_def)
qed

text \<open>
  \<^verbatim>\<open>allocate_nothrow\<close> is \<^verbatim>\<open>allocate\<close> with every exception turned into a null pointer.
\<close>

lemma allocate_nothrow_is_allocate:
  "allocate_nothrow e th this n w =
     map_option (\<lambda>(r, w'). (case r of Inl x \<Rightarrow> if x = Terminate then Inl Terminate else Inr nullptr | Inr p \<Rightarrow> Inr p, w'))
       (allocate e th this n w)"
  by (auto simp: allocate_nothrow_def allocate_def split: bind_splits sum.splits)

lemma deallocate_spec:
  assumes laws: "boost_laws (boost e) v" and inv: "world_inv e w" and ns: "no_stale (proc w) th" and h: "heap_ok e v w this"
    and x: "x \<in> live_blocks e v w this"
  shows "\<exists>w'. deallocate e th this (fst x) w = Some w' \<and> world_inv e w' \<and> no_stale (proc w') th \<and> heap_ok e v w' this \<and>
    live_blocks e v w' this = {y \<in> live_blocks e v w this. fst y \<noteq> fst x}"
proof -
  have bn: "boost_new_ok (boost e) v" using laws by (simp add: boost_laws_def)
  obtain m where m: "managers w this = Some m" using h by (auto simp: heap_ok_def)
  obtain i where i: "i \<in> set (segments m)" "x \<in> seg_blocks e v w m i" using x live_blocksI [OF m] by auto
  obtain d off s where d: "descs (proc w) (seg i) = Some d" "in_range (base_vaddr d) (size_of d) (fst x)"
      "unat (fst x) + unat (snd x) \<le> unat (base_vaddr d) + unat (size_of d)"
      "smgr_at e w m i = Some (place_of e m d (smgr i), s)" "(off, snd x) \<in> hv_blocks v s" "fst x = smgr i + off"
    using seg_block_inside [OF inv bn h m i] by blast
  note user = managed_seg_of [OF inv m i(1) d(1,2)]
  have g: "good e th w" using inv ns by (simp add: good_def)
  obtain p where f: "find_seg (trie_cfg e) (plat e) th (fst x) (proc w) = Some (seg i, p)" "cached e th w (w\<lparr>proc := p\<rparr>)"
    using find_managed [OF g m i(1) d(1,2)] by blast
  let ?w1 = "w\<lparr>proc := p\<rparr>" and ?l = "place_of e m d (smgr i)"
  have p: "descs p = descs (proc w)" "trie p = trie (proc w)" and inv1: "world_inv e ?w1" and ns1: "no_stale p th"
    using f(2) by (simp_all add: cached_def good_def)
  have sa: "smgr_at e ?w1 = smgr_at e w" and lb: "live_blocks e v ?w1 this = live_blocks e v w this" and h1: "heap_ok e v ?w1 this"
    using heap_cong [of ?w1 w e] p h by simp_all
  have sb: "seg_blocks e v ?w1 = seg_blocks e v w" using sa by (intro ext) (simp add: seg_blocks_def)
  have m1: "managers ?w1 this = Some m" using m by simp
  have ok: "hv_ok v s" using heap_okD [OF h m i(1)] d(4) by auto
  let ?s' = "sm_deallocate (boost e) off s"
  have "off \<in> fst ` hv_blocks v s" using d(5) by force
  then have s': "hv_ok v ?s'" "hv_span v ?s' = hv_span v s" "hv_blocks v ?s' = {y \<in> hv_blocks v s. fst y \<noteq> off}"
    using laws ok by (simp_all add: boost_laws_def boost_deallocate_ok_def)
  have at1: "smgr_at e ?w1 m i = Some (?l, s)" using d(4) sa by simp
  note u = heap_update [OF inv1 h1 m1 i(1) at1 s'(1,2) refl]
  have fs: "List.find (\<lambda>j. seg j = seg i) (segments m) = Some i"
  proof -
    have "List.find (\<lambda>j. seg j = seg i) (segments m) \<noteq> None" using i(1) by (auto simp: find_None_iff)
    then obtain j where j: "List.find (\<lambda>j. seg j = seg i) (segments m) = Some j" by blast
    then have "j \<in> set (segments m)" "seg j = seg i" by (auto simp: find_Some_iff)
    then show ?thesis using j i(1) world_distinct [OF inv m] by (auto simp: distinct_map inj_on_def)
  qed
  have nz: "seg i \<noteq> nullptr" using world_seg_desc [OF inv m i(1)] by blast
  obtain d0 where "in_range (base_vaddr d0) (size_of d0) (smgr i)" "descs (proc w) (seg i) = Some d0"
    using heap_okD [OF h m i(1)] by blast
  then have si: "smgr i \<noteq> nullptr" using managed_seg_of(3) [OF inv m i(1)] by blast
  let ?w' = "?w1\<lparr>smgrs := (smgrs ?w1)(?l \<mapsto> ?s')\<rparr>"
  have run: "deallocate e th this (fst x) w = Some ?w'"
    using user f(1) fs nz si m at1 d(6) by (simp add: deallocate_def smgr_for_def)
  have other: "fst y \<noteq> fst x" if y: "y \<in> seg_blocks e v w m j" and j: "j \<in> set (segments m) - {i}" for y j
  proof -
    obtain d' where "descs (proc w) (seg j) = Some d'" "in_range (base_vaddr d') (size_of d') (fst y)"
      using seg_block_inside [OF inv bn h m _ y] j by blast
    then show ?thesis using same_seg [OF inv m i(1) _ d(1,2), of j d'] j by auto
  qed
  have "live_blocks e v ?w' this = {y \<in> live_blocks e v w this. fst y \<noteq> fst x}"
    using other unfolding u(8) lb [symmetric] u(9) s'(3) sb d(6) by auto
  then show ?thesis using run u(1,2) ns1 by (intro exI [of _ ?w']) simp
qed
text \<open>
  C6: \<^verbatim>\<open>deallocate\<close> of the address of a live block finds the segment it lies in and removes exactly
  that block from the heap of the manager.
\<close>

theorem deallocate_releases_block:
  assumes "boost_laws (boost e) v" "world_inv e w" "no_stale (proc w) th" "heap_ok e v w this"
    and "(p, n) \<in> live_blocks e v w this"
  shows "\<exists>w'. deallocate e th this p w = Some w' \<and> world_inv e w' \<and> no_stale (proc w') th \<and> heap_ok e v w' this \<and>
    live_blocks e v w' this = {y \<in> live_blocks e v w this. fst y \<noteq> p}"
  using deallocate_spec [OF assms] by simp

text \<open>The heap of a manager as an instance of the interface.\<close>

definition manager_heap :: "'m env \<Rightarrow> 'm heap_view \<Rightarrow> nat \<Rightarrow> u64 \<Rightarrow> 'm world \<Rightarrow> bool" where
  "manager_heap e v th this w \<longleftrightarrow>
     env_ok e \<and> boost_laws (boost e) v \<and> world_inv e w \<and> no_stale (proc w) th \<and> heap_ok e v w this"

definition manager_take :: "'m env \<Rightarrow> nat \<Rightarrow> u64 \<Rightarrow> u64 \<Rightarrow> 'm world \<Rightarrow> (u64 \<times> 'm world) option" where
  "manager_take e th this n w = (case allocate e th this n w of Some (Inr p, w') \<Rightarrow> Some (p, w') | _ \<Rightarrow> None)"

lemma manager_take_Some: "manager_take e th this n w = Some (p, w') \<longleftrightarrow> allocate e th this n w = Some (Inr p, w')"
  by (auto simp: manager_take_def split: option.splits sum.splits)

interpretation mgr: block_heap "manager_heap e v th this" "\<lambda>w. live_blocks e v w this" "manager_take e th this" "deallocate e th this"
  for e v th this
proof
  fix w n p w'
  assume h: "manager_heap e v th this w" and t: "manager_take e th this n w = Some (p, w')"
  then have a: "allocate e th this n w = Some (Inr p, w')" by (simp add: manager_take_Some)
  have "env_ok e" "boost_laws (boost e) v" "world_inv e w" "heap_ok e v w this" using h by (simp_all add: manager_heap_def)
  from allocate_spec [OF this, of th n] have "manager_heap e v th this w'" "taken e v this (p, n) w w'"
    using a h by (auto simp: manager_heap_def)
  then show "manager_heap e v th this w' \<and> live_blocks e v w' this = insert (p, n) (live_blocks e v w this) \<and>
      (\<forall>y \<in> live_blocks e v w this. apart_blocks (p, n) y)"
    by (simp add: taken_def)
next
  fix w x
  assume h: "manager_heap e v th this w" and x: "x \<in> live_blocks e v w this"
  then show "\<exists>w'. deallocate e th this (fst x) w = Some w' \<and> manager_heap e v th this w' \<and>
      live_blocks e v w' this = {y \<in> live_blocks e v w this. fst y \<noteq> fst x}"
    using deallocate_spec [OF _ _ _ _ x, of th] by (auto simp: manager_heap_def)
qed

text \<open>
  Freeing what was just allocated restores the set of live blocks, even if the allocation had
  to grow the manager.
\<close>

lemma allocate_deallocate_roundtrip:
  assumes "env_ok e" "boost_laws (boost e) v" "world_inv e w" "no_stale (proc w) th" "heap_ok e v w this"
    and "allocate e th this n w = Some (Inr p, w1)"
  shows "\<exists>w2. deallocate e th this p w1 = Some w2 \<and> live_blocks e v w2 this = live_blocks e v w this"
  using mgr.give_taken [of e v th this w n p w1] assms by (auto simp: manager_heap_def manager_take_Some)

text \<open>
  C2: Whatever sequence of allocations and frees of live blocks a client performs on a manager,
  across any growth, the live blocks never share a byte.
\<close>

theorem live_blocks_stay_apart:
  assumes "manager_heap e v th this w" "separated (live_blocks e v w this)"
    and "(heap_step (\<lambda>w. live_blocks e v w this) (manager_take e th this) (deallocate e th this))\<^sup>*\<^sup>* w w'"
  shows "separated (live_blocks e v w' this) \<and> world_inv e w'"
  using mgr.run.inv_steps [OF _ assms(3)] assms(1,2) by (auto simp: manager_heap_def)

section \<open>A concrete heap\<close>

definition bump_view :: "bump heap_view" where
  "bump_view =
     \<lparr>hv_ok = \<lambda>(n, k, ns, bs). 0 < k \<and> (\<forall>(_, off, _) \<in> set ns. off < n) \<and>
        (\<forall>(off, b) \<in> set bs. 0 < off \<and> off < n \<and> unat off < unat k \<and> unat off + unat b \<le> unat k \<and> unat off + unat b \<le> unat n),
      hv_blocks = \<lambda>(n, k, ns, bs). set bs,
      hv_span = \<lambda>(n, k, ns, bs). unat n\<rparr>"

lemma bump_laws: "boost_laws bump_boost bump_view"
proof -
  have "boost_new_ok bump_boost bump_view"
    by (auto simp: boost_new_ok_def bump_boost_def bump_view_def unat_word_less)
  moreover have "boost_deallocate_ok bump_boost bump_view"
    by (auto simp: boost_deallocate_ok_def bump_boost_def bump_view_def)
  moreover have "boost_allocate_ok bump_boost bump_view"
    unfolding boost_allocate_ok_def
  proof (intro allI impI)
    fix s n r s'
    assume ok: "hv_ok bump_view s" and a: "sm_allocate bump_boost n s = (r, s')"
    obtain z k ns bs where s: "s = (z, k, ns, bs)" by (cases s)
    show "hv_ok bump_view s' \<and> hv_span bump_view s' = hv_span bump_view s \<and>
        (case r of
           None \<Rightarrow> hv_blocks bump_view s' = hv_blocks bump_view s
         | Some off \<Rightarrow> hv_blocks bump_view s' = insert (off, n) (hv_blocks bump_view s) \<and>
             (\<forall>x \<in> hv_blocks bump_view s. apart_blocks (off, n) x))"
    proof (cases "k < z \<and> n \<le> z - k")
      case False
      then show ?thesis using ok a s by (auto simp: bump_boost_def bump_view_def)
    next
      case True
      have lt: "unat k < unat z" using True by (simp add: unat_word_less)
      have "unat n \<le> unat (z - k)" using True by (simp add: unat_word_le)
      then have le: "unat k + unat n \<le> unat z" using lt True by (simp add: unat_sub less_imp_le)
      have mx: "unat (max n 1) = max (unat n) 1" by (cases "n = 0") (auto simp: max_def word_le_nat_alt)
      have k': "unat (k + max n 1) = unat k + max (unat n) 1"
      proof -
        have "unat k + max (unat n) 1 < 18446744073709551616" using le lt unat_lt_2p64 [of z] unfolding max_def by (simp del: unat_lt_2p64 split: if_split)
        then show ?thesis using mx by (simp add: unat_word_ariths)
      qed
      have r: "r = Some k" "s' = (z, k + max n 1, ns, (k, n) # bs)" using a s True by (auto simp: bump_boost_def)
      have k0: "0 < k" and ns: "\<forall>(_, off, _) \<in> set ns. off < z" and bs: "\<forall>(off, b) \<in> set bs. 0 < off \<and> off < z \<and> unat off < unat k \<and> unat off + unat b \<le> unat k \<and> unat off + unat b \<le> unat z"
        using ok s by (simp_all add: bump_view_def)
      have "0 < k + max n 1" using k' k0 by (simp add: word_less_nat_alt)
      then have "hv_ok bump_view s'"
        using r(2) ns bs k' k0 le lt True by (fastforce simp: bump_view_def)
      moreover have "apart_blocks (k, n) x" if "x \<in> set bs" for x
        using bs that by (force simp: apart_blocks_def block_bytes_def)
      ultimately show ?thesis using r s by (simp add: bump_view_def)
    qed
  qed
  ultimately show ?thesis by (simp add: boost_laws_def)
qed

lemma demo_heap:
  assumes "demo_world w"
  shows "heap_ok demo_env bump_view w demo_manager" "live_blocks demo_env bump_view w demo_manager = {}"
proof -
  let ?m = demo_creator_manager
  obtain d where d: "descs (proc w) = [0x5000 \<mapsto> d]" "base_vaddr d = demo_base" "size_of d = 0x100000" "file_offset d = 0" "\<not> is_anon d"
    and s: "smgrs w = [Shared demo_path 10368 \<mapsto> (1038208, 64, [], [])]"
    using assms by (auto simp: demo_world_def)
  note m = demo_worldD [OF assms]
  have seg: "segments ?m = [\<lparr>seg = 0x5000, smgr = demo_base + 10368\<rparr>]" "\<not> anon ?m" "object_of demo_env ?m = demo_path"
    by (simp_all add: demo_creator_manager_def object_of_def demo_path_def)
  show "heap_ok demo_env bump_view w demo_manager"
    using m seg d s by (simp add: heap_ok_def heap_segment_def place_of_def bump_view_def in_range_def demo_base_def)
  show "live_blocks demo_env bump_view w demo_manager = {}"
    using m seg d s by (simp add: live_blocks_def seg_blocks_def smgr_at_def place_of_def bump_view_def)
qed

lemma demo_allocate:
  assumes "demo_world w" "n \<le> 0x100"
  shows "\<exists>w'. allocate demo_env th demo_manager n w = Some (Inr (demo_base + 10432), w')"
proof -
  let ?m = demo_creator_manager
  obtain d where d: "descs (proc w) = [0x5000 \<mapsto> d]" "base_vaddr d = demo_base" "size_of d = 0x100000" "file_offset d = 0" "\<not> is_anon d"
    and s: "smgrs w = [Shared demo_path 10368 \<mapsto> (1038208, 64, [], [])]"
    using assms by (auto simp: demo_world_def)
  note m = demo_worldD [OF assms(1)]
  have seg: "segments ?m = [\<lparr>seg = 0x5000, smgr = demo_base + 10368\<rparr>]" "\<not> anon ?m" "object_of demo_env ?m = demo_path"
    by (simp_all add: demo_creator_manager_def object_of_def demo_path_def)
  have "n \<le> 1038144" using assms(2) by (rule order_trans) simp
  then show ?thesis
    using m seg d s by (simp add: allocate_def try_allocate_locked_def smgr_at_def place_of_def bump_boost_def demo_base_def)
qed

theorem allocate_takes_fresh_block_witness:
  "\<exists>w w'. heap_ok demo_env bump_view w demo_manager \<and>
     allocate demo_env 0 demo_manager 0x40 w = Some (Inr (demo_base + 10432), w') \<and>
     live_blocks demo_env bump_view w' demo_manager = {(demo_base + 10432, 0x40)}"
proof -
  obtain w where w: "demo_world w" using demo_creator_world by blast
  obtain w' where a: "allocate demo_env 0 demo_manager 0x40 w = Some (Inr (demo_base + 10432), w')"
    using demo_allocate [OF w, of "0x40" 0] by auto
  have "boost_laws (boost demo_env) bump_view" using bump_laws by simp
  from allocate_takes_fresh_block [OF demo_env_ok this demo_worldD(1) [OF w] demo_heap(1) [OF w], of 0 "0x40"]
  show ?thesis using a demo_heap [OF w] by auto
qed

theorem deallocate_releases_block_witness:
  "\<exists>w p w'. live_blocks demo_env bump_view w demo_manager = {(p, 0x40)} \<and>
     deallocate demo_env 0 demo_manager p w = Some w' \<and> live_blocks demo_env bump_view w' demo_manager = {}"
proof -
  obtain w where w: "demo_world w" using demo_creator_world by blast
  obtain w1 where a: "allocate demo_env 0 demo_manager 0x40 w = Some (Inr (demo_base + 10432), w1)"
    using demo_allocate [OF w, of "0x40" 0] by auto
  have laws: "boost_laws (boost demo_env) bump_view" using bump_laws by simp
  have "no_stale (proc w) 0" using w by (simp add: demo_world_def)
  then have w1: "world_inv demo_env w1" "no_stale (proc w1) 0" "heap_ok demo_env bump_view w1 demo_manager"
      "taken demo_env bump_view demo_manager (demo_base + 10432, 0x40) w w1"
    using allocate_spec [OF demo_env_ok laws demo_worldD(1) [OF w] demo_heap(1) [OF w], of 0 "0x40"] a by auto
  have l: "live_blocks demo_env bump_view w1 demo_manager = {(demo_base + 10432, 0x40)}"
    using w1(4) demo_heap(2) [OF w] by (simp add: taken_def)
  then have "(demo_base + 10432, 0x40) \<in> live_blocks demo_env bump_view w1 demo_manager" by simp
  from deallocate_releases_block [OF laws w1(1-3) this]
  obtain w2 where "deallocate demo_env 0 demo_manager (demo_base + 10432) w1 = Some w2"
    "live_blocks demo_env bump_view w2 demo_manager = {y \<in> {(demo_base + 10432, 0x40)}. fst y \<noteq> demo_base + 10432}"
    unfolding l by blast
  then show ?thesis using l by (intro exI [of _ w1] exI [of _ "demo_base + 10432"] exI [of _ w2]) auto
qed

lemma demo_manager_heap: "demo_world w \<Longrightarrow> manager_heap demo_env bump_view 0 demo_manager w"
  using demo_env_ok bump_laws demo_worldD(1) demo_heap(1) by (simp add: manager_heap_def demo_world_def)

theorem live_blocks_stay_apart_witness:
  "\<exists>w w1 w2 p q. manager_take demo_env 0 demo_manager 0x40 w = Some (p, w1) \<and>
     manager_take demo_env 0 demo_manager 0x200000 w1 = q \<and>
     (case q of None \<Rightarrow> w2 = w1 | Some (_, w') \<Rightarrow> w2 = w') \<and> separated (live_blocks demo_env bump_view w2 demo_manager)"
proof -
  obtain w where w: "demo_world w" using demo_creator_world by blast
  obtain w1 where a: "manager_take demo_env 0 demo_manager 0x40 w = Some (demo_base + 10432, w1)"
    using demo_allocate [OF w, of "0x40" 0] by (auto simp: manager_take_Some)
  let ?step = "heap_step (\<lambda>w. live_blocks demo_env bump_view w demo_manager) (manager_take demo_env 0 demo_manager)
    (deallocate demo_env 0 demo_manager)"
  have s1: "?step w w1" using a by (rule take_step)
  define w2 where "w2 = (case manager_take demo_env 0 demo_manager 0x200000 w1 of None \<Rightarrow> w1 | Some (_, w') \<Rightarrow> w')"
  have s2: "?step\<^sup>*\<^sup>* w1 w2"
    by (cases "manager_take demo_env 0 demo_manager 0x200000 w1") (auto simp: w2_def intro: take_step)
  have "separated (live_blocks demo_env bump_view w demo_manager)" using demo_heap(2) [OF w] by simp
  from live_blocks_stay_apart [OF demo_manager_heap [OF w] this] s1 s2
  have "separated (live_blocks demo_env bump_view w2 demo_manager)" by (meson converse_rtranclp_into_rtranclp)
  then show ?thesis using a
    by (intro exI [of _ w] exI [of _ w1] exI [of _ w2]) (auto simp: w2_def split: option.splits)
qed

lemma allocate_deallocate_roundtrip_witness:
  "\<exists>w w1 w2. allocate demo_env 0 demo_manager 0x40 w = Some (Inr (demo_base + 10432), w1) \<and>
     deallocate demo_env 0 demo_manager (demo_base + 10432) w1 = Some w2 \<and> live_blocks demo_env bump_view w2 demo_manager = {}"
proof -
  obtain w where w: "demo_world w" using demo_creator_world by blast
  obtain w1 where a: "allocate demo_env 0 demo_manager 0x40 w = Some (Inr (demo_base + 10432), w1)"
    using demo_allocate [OF w, of "0x40" 0] by auto
  have laws: "boost_laws (boost demo_env) bump_view" using bump_laws by simp
  have "no_stale (proc w) 0" using w by (simp add: demo_world_def)
  from allocate_deallocate_roundtrip [OF demo_env_ok laws demo_worldD(1) [OF w] this demo_heap(1) [OF w] a]
  show ?thesis using a demo_heap(2) [OF w] by auto
qed
section \<open>Background growth\<close>

lemma size_of_segments_hist: "size_of_segments (w\<lparr>hist := h\<rparr>) is acc = size_of_segments w is acc"
  by (induction "is" arbitrary: acc) simp_all

text \<open>What a background growth may do to a manager: nothing its clients could notice.\<close>

definition undisturbed ::
  "'m env \<Rightarrow> 'm heap_view \<Rightarrow> u64 \<Rightarrow> 'm world \<Rightarrow> exn + unit \<Rightarrow> 'm world \<Rightarrow> bool" where
  "undisturbed e v this w r w' \<longleftrightarrow> world_inv e w' \<and> grown e this w w' \<and>
     (r = Inl Terminate \<or>
      r = Inr () \<and> heap_ok e v w' this \<and> live_blocks e v w' this = live_blocks e v w this)"

lemma undisturbed_unchanged:
  assumes "world_inv e w'" "heap_ok e v w this" "unchanged w w'" "grown e this w w'"
  shows "undisturbed e v this w (Inr ()) w'"
  using assms unchanged_heap [OF assms(3), of e v this] by (simp add: undisturbed_def)

lemma background_plan_cases:
  assumes inv: "world_inv e w" and h: "heap_ok e v w this" and m: "managers w this = Some m"
  shows "\<exists>cur. size_of_segments w (segments m) 0 = Some cur \<and>
    background_plan e this w \<in> {Some None, Some (Some (chunk_size e w m kMinSegmentSize, cur))}"
proof -
  have ne: "segments m \<noteq> []" using h m by (auto simp: heap_ok_def)
  then have "last (segments m) \<in> set (segments m)" by simp
  then obtain d s where d: "descs (proc w) (seg (last (segments m))) = Some d"
    "smgr_at e w m (last (segments m)) = Some (place_of e m d (smgr (last (segments m))), s)"
    using heap_okD [OF h m] by blast
  obtain cur where "size_of_segments w (segments m) 0 = Some cur"
    using grow_plan_cases [OF inv m heap_usable [OF h]] by blast
  then show ?thesis using m ne d
    by (auto simp: background_plan_def chunk_size_def chunk_at_def desc_chunk_def Let_def)
qed

lemma background_commit_anon_spec:
  assumes env: "env_ok e" and bn: "boost_new_ok (boost e) v" and inv: "world_inv e w" and h: "heap_ok e v w this"
    and m: "managers w this = Some m" "anon m"
  shows "\<exists>r w'. background_commit e th this (chunk_size e w m kMinSegmentSize) cur w = Some (r, w') \<and>
    undisturbed e v this w r w'"
proof -
  let ?sz = "chunk_size e w m kMinSegmentSize"
  obtain r w' where run: "add_segment_anon e th this ?sz False w = Some (r, w')" "world_inv e w'" "grown e this w w'"
    and res: "case r of Inl x \<Rightarrow> x \<in> {Bad_alloc, Terminate} \<and> unchanged w w' | Inr _ \<Rightarrow> one_more e this kMinSegmentSize m w w'"
    using append_anon_spec [OF env inv m heap_usable [OF h]] by blast
  have "background_commit e th this ?sz cur w = Some (if r = Inl Bad_alloc then Inr () else r, w')"
    using m run(1)
    by (auto simp: background_commit_def add_segment_anon_def make_unique_def Let_def
        split: prod.splits option.splits sum.splits if_splits bind_splits)
  moreover have "undisturbed e v this w (if r = Inl Bad_alloc then Inr () else r) w'"
    using run(2,3) res unchanged_heap [of w w' e v this] one_more_heap [OF bn inv h m(1) run(2)] h m(2)
    by (cases r) (auto simp: undisturbed_def)
  ultimately show ?thesis by blast
qed

lemma background_commit_shm_spec:
  assumes env: "env_ok e" and bn: "boost_new_ok (boost e) v" and inv: "world_inv e w" and h: "heap_ok e v w this"
    and m: "managers w this = Some m" "\<not> anon m" and cur: "size_of_segments w (segments m) 0 = Some cur"
  shows "\<exists>r w'. background_commit e th this (chunk_size e w m kMinSegmentSize) cur w = Some (r, w') \<and>
    undisturbed e v this w r w'"
proof -
  let ?sz = "chunk_size e w m kMinSegmentSize"
  have lo: "layout_ok e w this" using h m by (auto simp: heap_ok_def)
  have uc: "unat cur = total_size (seg_layout w m)" using mapped_size [OF inv m(1) layout_contiguous [OF lo m(1)]] cur by auto
  obtain ok h' where g: "shm_grow (kernel e) (plat e) (shm_root_name m) (cur + ?sz) (hist w) = (ok, h')" by fastforce
  then have h': "live_maps h' = live_maps (hist w)" by (metis shm_grow_live snd_conv)
  let ?w0 = "w\<lparr>hist := h'\<rparr>"
  have inv0: "world_inv e ?w0" using world_inv_hist [OF inv, of h'] h' by simp
  show ?thesis
  proof (cases ok)
    case False
    then have "background_commit e th this ?sz cur w = Some (Inr (), ?w0)" using m g by (simp add: background_commit_def)
    then show ?thesis using undisturbed_unchanged [OF inv0 h] grown_unchanged [of w ?w0 this m e] m(1)
      by (simp add: unchanged_def)
  next
    case True
    obtain r w' where ap: "(do {
        (r, w1) \<leftarrow> add_segment_shm e th this cur ?sz False False True ?w0;
        case r of Inl x \<Rightarrow> Some (Inl x, w1) | Inr _ \<Rightarrow> update_segment_table e this w1
      }) = Some (r, w')" "world_inv e w'" "grown e this w w'"
      and res: "case r of
         Inl x \<Rightarrow> if x = Runtime_error ''Too many sub-segments'' then length (segments m) = kMaxSubSegments \<and> one_more e this kMinSegmentSize m w w' \<and> tables w' = tables ?w0
           else x \<in> {Runtime_error ''segmented_segment_manager: failed to map SHM chunk'', Terminate} \<and> unchanged w w'
       | Inr _ \<Rightarrow> one_more e this kMinSegmentSize m w w' \<and> up_to_date e w' this"
      using append_chunk_spec [OF env inv0 _ _ _, of this m cur th kMinSegmentSize, unfolded hist_irrelevant,
          OF lo heap_usable [OF h] _ uc] m(1) by auto
    have "background_commit e th this ?sz cur w = Some (case r of Inl _ \<Rightarrow> Inl Terminate | Inr x \<Rightarrow> Inr x, w')"
      using m cur g True ap(1) by (simp add: background_commit_def no_except_def size_of_segments_hist)
    moreover have "undisturbed e v this w (case r of Inl _ \<Rightarrow> Inl Terminate | Inr x \<Rightarrow> Inr x) w'"
      using ap(2,3) res one_more_heap [OF bn inv h m(1) ap(2)]
      by (cases r) (auto simp: undisturbed_def up_to_date_def)
    ultimately show ?thesis by blast
  qed
qed

lemma grow_background_spec:
  assumes env: "env_ok e" and bn: "boost_new_ok (boost e) v" and inv: "world_inv e w" and h: "heap_ok e v w this"
  shows "\<exists>r w'. grow_background e th this owns_lock w = Some (r, w') \<and> undisturbed e v this w r w'"
proof -
  obtain m where m: "managers w this = Some m" using h by (auto simp: heap_ok_def)
  have stay: "undisturbed e v this w (Inr ()) w"
    using undisturbed_unchanged [OF inv h] grown_unchanged [of w w this m e] m by (simp add: unchanged_def)
  obtain cur where cur: "size_of_segments w (segments m) 0 = Some cur"
    and p: "background_plan e this w \<in> {Some None, Some (Some (chunk_size e w m kMinSegmentSize, cur))}"
    using background_plan_cases [OF inv h m] by blast
  show ?thesis
    using stay p background_commit_anon_spec [OF env bn inv h m, of th cur] background_commit_shm_spec [OF env bn inv h m _ cur, of th]
    by (cases owns_lock; cases "anon m") (auto simp: grow_background_def)
qed

text \<open>
  C12: Background growth never hands an exception to the worker and disturbs nothing: it either
  ends normally, with the live blocks, every mapped byte and every registration as before, or
  the process is terminated, which is what a throw inside the \<^verbatim>\<open>noexcept\<close> method does.
\<close>

theorem background_growth_keeps_the_heap:
  assumes "env_ok e" "boost_laws (boost e) v" "world_inv e w" "heap_ok e v w this"
  shows "\<exists>r w'. grow_background e th this owns_lock w = Some (r, w') \<and> world_inv e w' \<and>
    (\<forall>off q. views w this off q \<longrightarrow> views w' this off q) \<and>
    (r = Inl Terminate \<or>
     r = Inr () \<and> heap_ok e v w' this \<and> live_blocks e v w' this = live_blocks e v w this)"
proof -
  have "boost_new_ok (boost e) v" using assms(2) by (simp add: boost_laws_def)
  then show ?thesis using grow_background_spec [OF assms(1) _ assms(3,4), of th owns_lock] views_grown
    unfolding undisturbed_def by blast
qed

theorem background_growth_keeps_the_heap_witness:
  "\<exists>w r w'. heap_ok demo_env bump_view w demo_manager \<and> grow_background demo_env 0 demo_manager True w = Some (r, w') \<and>
     world_inv demo_env w'"
proof -
  obtain w where w: "demo_world w" using demo_creator_world by blast
  have "boost_laws (boost demo_env) bump_view" using bump_laws by simp
  from background_growth_keeps_the_heap [OF demo_env_ok this demo_worldD(1) [OF w] demo_heap(1) [OF w], of 0 True]
  show ?thesis using demo_heap(1) [OF w] by blast
qed

end
