(* ===== verification/Manager_Props.thy ===== *)
theory Manager_Props
  imports Demo_Growth
begin

text \<open>
  The properties of the segment manager: what its constructors, growth and destructor
  guarantee, and how growth goes wrong when another process has grown first.
\<close>

section \<open>Construction, growth and destruction\<close>

text \<open>
  C13: The creating constructor returns a manager with one primary segment of at least the
  requested size, whose shared object is ready for other processes: the table lists exactly that
  segment and a Boost manager is in place. If it throws, what the process has is as before --
  registry, descriptors, managers, mappings and registrations with the worker -- and the model's tables
  and Boost managers are untouched; but an object that had the name has been unlinked by then.
\<close>

theorem creator_initialises_object:
  assumes "env_ok e" "world_inv e w" "managers w this = None"
  shows "\<exists>r w'. new_manager_shm e th this name initial True w = Some (r, w') \<and>
    (case r of
       Inl x \<Rightarrow> x \<in> {Runtime_error ''segmented_segment_manager: failed to map SHM chunk'', Terminate} \<and>
         proc w' = proc w \<and> smgrs w' = smgrs w \<and> tables w' = tables w \<and> prefetch w' = prefetch w \<and>
         (\<exists>r es. hist w' = hist w @ Ev_unlink (get_platform_shm_path (plat e) name) r # es) \<and>
         (x \<noteq> Terminate \<longrightarrow> managers w' = managers w \<and> world_inv e w' \<and> live_maps (hist w') = live_maps (hist w))
     | Inr _ \<Rightarrow> world_inv e w' \<and> up_to_date e w' this \<and> usable e w' this \<and>
         fresh_shm e w' this name (max initial kMinSegmentSize) \<and>
         object_ready e w' (get_platform_shm_path (plat e) name) \<and> prefetch w' = prefetch w @ [Register_manager this])"
proof -
  obtain r w' where run: "new_manager_shm e th this name initial True w = Some (r, w')"
    and res: "case r of
       Inl x \<Rightarrow> x \<in> {Runtime_error ''segmented_segment_manager: failed to map SHM chunk'', Terminate} \<and>
         proc w' = proc w \<and> smgrs w' = smgrs w \<and> tables w' = tables w \<and> prefetch w' = prefetch w \<and>
         (\<exists>r es. hist w' = hist w @ Ev_unlink (get_platform_shm_path (plat e) name) r # es) \<and>
         (x \<noteq> Terminate \<longrightarrow> managers w' = managers w \<and> world_inv e w' \<and> live_maps (hist w') = live_maps (hist w))
     | Inr _ \<Rightarrow> world_inv e w' \<and> up_to_date e w' this \<and> usable e w' this \<and>
         fresh_shm e w' this name (max initial kMinSegmentSize) \<and>
         (\<forall>u. no_stale (proc w) u \<longrightarrow> no_stale (proc w') u) \<and> prefetch w' = prefetch w @ [Register_manager this]"
    using new_manager_shm_spec [OF assms, where th = th and name = name and initial = initial] by blast
  show ?thesis
  proof (cases r)
    case (Inr y)
    then have "object_ready e w' (get_platform_shm_path (plat e) name)"
      using created_ready [of e w' this name "max initial kMinSegmentSize"] res by simp
    then show ?thesis using run res Inr by (intro exI [of _ r] exI [of _ w']) simp
  next
    case (Inl x)
    show ?thesis by (intro exI [of _ r] exI [of _ w'] conjI run) (insert res [unfolded Inl sum.case], unfold Inl sum.case, assumption)
  qed
qed

theorem creator_initialises_object_witness:
  "env_ok demo_env \<and> world_inv demo_env (demo_init [] Map.empty (\<lambda>_. zero_table)) \<and>
   (\<exists>w'. new_manager_shm demo_env 0 demo_manager ''/m'' 0 True (demo_init [] Map.empty (\<lambda>_. zero_table)) = Some (Inr (), w') \<and>
     up_to_date demo_env w' demo_manager \<and> prefetch w' = [Register_manager demo_manager])"
proof -
  let ?w = "demo_init [] Map.empty (\<lambda>_. zero_table)"
  obtain w where w: "new_manager_shm demo_env 0 demo_manager ''/m'' 0 True ?w = Some (Inr (), w)"
    using demo_creator [of "[]" 0 Map.empty "\<lambda>_. zero_table"] by (auto simp: live_maps_def)
  have nm: "managers ?w demo_manager = None" by simp
  show ?thesis
    using creator_initialises_object [OF demo_env_ok demo_init_inv nm, of 0 "''/m''" 0] w demo_env_ok demo_init_inv by auto
qed

text \<open>
  C10: The opening constructor maps what the table of a ready object lists: on success the
  segments of the new manager are exactly the chunks of the table, in its order, each with the
  Boost manager that the creator placed there, and the shared state is unchanged.
\<close>

theorem opener_maps_the_table:
  assumes "env_ok e" "world_inv e w" "object_ready e w (get_platform_shm_path (plat e) name)"
  shows "\<exists>r w'. new_manager_shm e th this name initial False w = Some (r, w') \<and>
    (case r of
       Inl x \<Rightarrow> x \<in> {Runtime_error ''Cannot open primary segment'', Bad_alloc, Terminate,
         Runtime_error ''segmented_segment_manager: failed to map SHM chunk''} \<and>
         (x \<noteq> Terminate \<longrightarrow> managers w' this = None)
     | Inr _ \<Rightarrow> world_inv e w' \<and> up_to_date e w' this \<and> usable e w' this \<and> no_stale (proc w') th \<and>
         tables w' = tables w \<and> smgrs w' = smgrs w \<and>
         (\<exists>m. managers w' = (managers w)(this \<mapsto> m) \<and> \<not> anon m \<and> shm_root_name m = name \<and>
           seg_layout w' m = table_layout (tables w (get_platform_shm_path (plat e) name))))"
  by (rule new_manager_open_spec [OF assms])

theorem opener_maps_the_table_witness:
  "\<exists>w w' m. object_ready demo_env w demo_path \<and>
     new_manager_shm demo_env 1 demo_manager ''/m'' 0 False w = Some (Inr (), w') \<and>
     managers w' demo_manager = Some m \<and> seg_layout w' m = [(0, 0x100000)]"
proof -
  obtain v where v: "demo_good 0 v" using demo_creator [of "[]" 0 Map.empty "\<lambda>_. zero_table"] by (auto simp: live_maps_def)
  let ?w = "demo_init [Ev_close 3] (smgrs v) (tables v)"
  obtain w' where w': "new_manager_shm demo_env 1 demo_manager ''/m'' 0 False ?w = Some (Inr (), w')"
    using demo_opener [of "[Ev_close 3]", OF _ _ v, of 1] by (auto simp: live_maps_def map_event_def)
  have rd: "object_ready demo_env ?w demo_path" and tl: "table_layout (tables ?w demo_path) = [(0, 0x100000)]"
    using v by (simp_all add: demo_good_def object_ready_def)
  have "object_ready demo_env ?w (get_platform_shm_path (plat demo_env) ''/m'')" using rd by (simp add: demo_path_def)
  from opener_maps_the_table [OF demo_env_ok demo_init_inv this, of 1 demo_manager 0] w'
  obtain m where "managers w' = (managers ?w)(demo_manager \<mapsto> m)" "seg_layout w' m = [(0, 0x100000)]"
    using tl by (auto simp: demo_path_def)
  then show ?thesis using rd w' by auto
qed

text \<open>\<^verbatim>\<open>grow\<close> on both kinds of managers.\<close>

lemma grow_result:
  assumes "env_ok e" "world_inv e w" "managers w this = Some m" "usable e w this" "\<not> anon m \<longrightarrow> layout_ok e w this"
  shows "\<exists>r w'. grow e th this b w = Some (r, w') \<and> world_inv e w' \<and> grown e this w w' \<and> usable e w' this \<and>
    (case r of
       Inl x \<Rightarrow> if x = Runtime_error ''Too many sub-segments''
         then \<not> anon m \<and> length (segments m) = kMaxSubSegments \<and> one_more e this b m w w' \<and> tables w' = tables w
         else unchanged w w'
     | Inr _ \<Rightarrow> (if b \<le> the (get_free_memory e this w) then w' = w
         else one_more e this b m w w' \<and> (\<not> anon m \<longrightarrow> up_to_date e w' this)))"
proof (cases "anon m")
  case True
  obtain r w' where run: "grow e th this b w = Some (r, w')" "world_inv e w'" "grown e this w w'" "usable e w' this"
    and res: "case r of
       Inl x \<Rightarrow> x \<in> {Bad_alloc, Terminate} \<and> unchanged w w'
     | Inr _ \<Rightarrow> (if b \<le> the (get_free_memory e this w) then w' = w else one_more e this b m w w')"
    using grow_anon_spec [OF assms(1-3) True assms(4), of th b] by blast
  show ?thesis
    by (intro exI [of _ r] exI [of _ w'] conjI run) (use res True in \<open>cases r; auto\<close>)
next
  case False
  then have lo: "layout_ok e w this" using assms(5) by simp
  obtain r w' where run: "grow e th this b w = Some (r, w')" "world_inv e w'" "grown e this w w'" "usable e w' this"
    and res: "case r of
       Inl x \<Rightarrow> if x = Runtime_error ''Too many sub-segments''
         then length (segments m) = kMaxSubSegments \<and> one_more e this b m w w' \<and> tables w' = tables w
         else x \<in> {Bad_alloc, Runtime_error ''segmented_segment_manager: failed to map SHM chunk'', Terminate} \<and> unchanged w w'
     | Inr _ \<Rightarrow> (if b \<le> the (get_free_memory e this w) then w' = w else one_more e this b m w w' \<and> up_to_date e w' this)"
    using grow_shm_spec [OF assms(1,2) lo assms(4,3), of th b] by blast
  show ?thesis
  proof (cases r)
    case (Inl x)
    show ?thesis
      by (intro exI [of _ r] exI [of _ w'] conjI run)
        (use res False in \<open>unfold Inl sum.case, cases "x = Runtime_error ''Too many sub-segments''"; simp\<close>)
  next
    case (Inr y)
    show ?thesis
      by (intro exI [of _ r] exI [of _ w'] conjI run) (use res False in \<open>unfold Inr sum.case, simp split: if_splits\<close>)
  qed
qed

text \<open>
  C11: \<^verbatim>\<open>grow\<close> does nothing when enough memory is free, and otherwise appends one segment of at
  least the requested size, a multiple of the page size, with a Boost manager in it; for shared
  memory the segment is appended to the file and to the table. If it throws, one of two things has
  happened. Either the table was full: then the segment has been added just the same, mapped and
  registered, and only its entry in the table is missing. Or nothing in the process has
  changed, no descriptor, mapping, segment, Boost manager or table, and the only calls made to the
  system opened the object, set the size of its file to what the new chunk needs, tried to map, and
  closed: the file may have grown.
\<close>

theorem grow_adds_capacity:
  assumes "env_ok e" "world_inv e w" "managers w this = Some m" "usable e w this" "\<not> anon m \<longrightarrow> layout_ok e w this"
  shows "\<exists>r w'. grow e th this b w = Some (r, w') \<and> world_inv e w' \<and> grown e this w w' \<and> usable e w' this \<and>
    (case r of
       Inl x \<Rightarrow> if x = Runtime_error ''Too many sub-segments''
         then \<not> anon m \<and> length (segments m) = kMaxSubSegments \<and> one_more e this b m w w' \<and> tables w' = tables w
         else unchanged w w' \<and> prefetch w' = prefetch w \<and> only_resized e this b m w w' \<and>
           (x \<noteq> Terminate \<longrightarrow> live_maps (hist w') = live_maps (hist w))
     | Inr _ \<Rightarrow> (if b \<le> the (get_free_memory e this w) then w' = w
         else one_more e this b m w w' \<and> (\<not> anon m \<longrightarrow> up_to_date e w' this)))"
proof -
  obtain r w' where run: "grow e th this b w = Some (r, w')" "world_inv e w'" "grown e this w w'" "usable e w' this"
    and res: "case r of
       Inl x \<Rightarrow> if x = Runtime_error ''Too many sub-segments''
         then \<not> anon m \<and> length (segments m) = kMaxSubSegments \<and> one_more e this b m w w' \<and> tables w' = tables w
         else unchanged w w'
     | Inr _ \<Rightarrow> (if b \<le> the (get_free_memory e this w) then w' = w
         else one_more e this b m w w' \<and> (\<not> anon m \<longrightarrow> up_to_date e w' this))"
    using grow_result [OF assms] by blast
  show ?thesis
  proof (cases "\<exists>x. r = Inl x \<and> x \<noteq> Runtime_error ''Too many sub-segments''")
    case True
    then obtain x where x: "r = Inl x" "x \<noteq> Runtime_error ''Too many sub-segments''" by blast
    show ?thesis using grow_throws [OF assms(1,3) run(1) [unfolded x(1)] x(2)] run res x
      by (intro exI [of _ r] exI [of _ w']) simp
  next
    case False
    show ?thesis by (intro exI [of _ r] exI [of _ w'] conjI run) (use res False in \<open>cases r; auto\<close>)
  qed
qed

theorem grow_adds_capacity_witness:
  "\<exists>w m w'. world_inv demo_env w \<and> managers w demo_manager = Some m \<and> usable demo_env w demo_manager \<and>
     layout_ok demo_env w demo_manager \<and> grow demo_env 0 demo_manager 0x200000 w = Some (Inr (), w') \<and>
     one_more demo_env demo_manager 0x200000 m w w' \<and> up_to_date demo_env w' demo_manager"
proof -
  obtain w where w: "demo_world w" using demo_creator_world by blast
  note d = demo_worldD [OF w]
  obtain w' where g: "grow demo_env 0 demo_manager 0x200000 w = Some (Inr (), w')" using demo_growth_now [OF w] by blast
  show ?thesis using grow_adds_capacity [OF demo_env_ok d(1,4,2), of 0 "0x200000"] d g demo_free [OF w]
    by (intro exI [of _ w] exI [of _ demo_creator_manager] exI [of _ w']) (simp add: demo_creator_manager_def)
qed

text \<open>
  C9: Growth never moves memory: every byte of the file that a process could address before
  \<^verbatim>\<open>grow\<close> is at the same address afterwards, whatever \<^verbatim>\<open>grow\<close> returns or throws, and every
  registered segment stays registered.
\<close>

theorem growth_never_moves_memory:
  assumes "env_ok e" "world_inv e w" "managers w this = Some m" "usable e w this" "\<not> anon m \<longrightarrow> layout_ok e w this"
    and "grow e th this b w = Some (r, w')" "views w this off p"
  shows "views w' this off p \<and>
    (\<forall>v d. registered (trie_cfg e) (plat e) (proc w) v d \<longrightarrow> registered (trie_cfg e) (plat e) (proc w') v d)"
proof -
  have "grown e this w w'"
  proof (cases "anon m")
    case True
    then show ?thesis using grow_anon_spec [OF assms(1-3) True assms(4), of th b] assms(6) by auto
  next
    case False
    then show ?thesis using grow_shm_spec [OF assms(1,2) _ assms(4,3), of th b] assms(5,6) by auto
  qed
  then show ?thesis using views_grown [OF _ assms(7)] by (simp add: grown_def)
qed

theorem growth_never_moves_memory_witness:
  "\<exists>w w' p. grow demo_env 0 demo_manager 0x200000 w = Some (Inr (), w') \<and> views w demo_manager 0x4000 p \<and>
     views w' demo_manager 0x4000 p"
proof -
  obtain w where w: "demo_world w" using demo_creator_world by blast
  note d = demo_worldD [OF w]
  obtain w' where g: "grow demo_env 0 demo_manager 0x200000 w = Some (Inr (), w')" using demo_growth_now [OF w] by blast
  obtain p where p: "views w demo_manager 0x4000 p" using demo_views [of 0 w "0x4000"] w by (auto simp: demo_world_def)
  show ?thesis using growth_never_moves_memory [OF demo_env_ok d(1,4,2) _ g p] d(3) g p by blast
qed

text \<open>
  C7: A process that grows without having mapped what others added destroys it: when the table
  lists a chunk the process has not discovered, \<^verbatim>\<open>grow\<close> computes the new chunk from its own
  total, so it begins at the undiscovered chunk; a new Boost manager overwrites the one that is
  in use there, and the table forgets that chunk and all later ones.
\<close>

theorem grow_overwrites_undiscovered_chunk:
  assumes "env_ok e" "world_inv e w" "layout_ok e w this" "usable e w this" "managers w this = Some m"
    and "table_layout (tables w (object_of e m)) = seg_layout w m @ (off, sz) # rest"
    and "\<not> b \<le> the (get_free_memory e this w)" "grow e th this b w = Some (Inr (), w')"
  shows "\<exists>sz'. table_layout (tables w' (object_of e m)) = seg_layout w m @ [(off, sz')] \<and>
    smgrs w' (Shared (object_of e m) off) = Some (sm_new (boost e) sz')"
proof -
  have om: "one_more e this b m w w'" and up: "up_to_date e w' this"
    using grow_shm_spec [OF assms(1-5), of th b] assms(7,8) by auto
  obtain i d where m': "managers w' this = Some (m\<lparr>segments := segments m @ [i]\<rparr>)"
    and d: "descs (proc w) (seg i) = None" "descs (proc w') = (descs (proc w))(seg i \<mapsto> d)" "smgr i = base_vaddr d"
      "is_anon d = anon m" "\<not> anon m \<longrightarrow> unat (file_offset d) = total_size (seg_layout w m)"
    and s: "smgrs w' = (smgrs w)(place_of e m d (smgr i) \<mapsto> sm_new (boost e) (size_of d))"
    using om unfolding one_more_def by blast
  let ?m' = "m\<lparr>segments := segments m @ [i]\<rparr>"
  have tl: "table_layout (tables w' (object_of e ?m')) = seg_layout w' ?m'" using up m' by (simp add: up_to_date_def)
  have na: "\<not> anon m" and c: "contiguous 0 (seg_layout w m @ (off, sz) # rest)"
    using assms(3,5,6) by (auto simp: layout_ok_def)
  have "unat off = total_size (seg_layout w m)" using c by (simp add: contiguous_append total_size_def)
  then have off: "file_offset d = off" using d(5) na by (simp add: word_unat_eq_iff)
  have old: "chunk_at w' j = chunk_at w j" if "j \<in> set (segments m)" for j
    using world_seg_desc [OF assms(2,5) that] d(1,2) by (auto simp: chunk_at_def)
  then have "seg_layout w' ?m' = seg_layout w m @ [(off, size_of d)]"
    using d(2) off by (simp add: seg_layout_def chunk_at_def desc_chunk_def)
  then show ?thesis using tl s d(3,4) na off
    by (intro exI [of _ "size_of d"]) (simp add: object_of_def place_of_def)
qed

theorem grow_overwrites_undiscovered_chunk_witness:
  "\<exists>w w'. smgrs w (Shared demo_path 0x100000) = Some (0x80000, 0x7000, [(''x'', 64, 1)], []) \<and>
     table_layout (tables w demo_path) = [(0, 0x100000), (0x100000, 0x80000)] \<and>
     grow demo_env 0 demo_manager 0x200000 w = Some (Inr (), w') \<and>
     (\<exists>sz'. smgrs w' (Shared demo_path 0x100000) = Some (sz', 64, [], []) \<and>
       table_layout (tables w' demo_path) = [(0, 0x100000), (0x100000, sz')])"
proof -
  obtain w0 where w0: "demo_world w0" using demo_creator_world by blast
  let ?m = demo_creator_manager
  let ?sm = "(smgrs w0)(Shared demo_path 0x100000 \<mapsto> (0x80000, 0x7000, [(''x'', 64, 1)], []))"
  let ?tbl = "(tables w0 demo_path)\<lparr>entries := (entries (tables w0 demo_path))[1 := \<lparr>ent_file_offset = 0x100000, ent_size = 0x80000\<rparr>], count := of_nat (1 + 1)\<rparr>"
  let ?w = "w0\<lparr>tables := (tables w0)(demo_path := ?tbl), smgrs := ?sm\<rparr>"
  obtain d where d: "descs (proc w0) = [0x5000 \<mapsto> d]" "base_vaddr d = demo_base" "size_of d = 0x100000" "file_offset d = 0" "\<not> is_anon d"
    "is_primary d" and s: "?sm (Shared demo_path 10368) = Some (1038208, 64, [], [])"
    using w0 by (auto simp: demo_world_def)
  have m: "managers ?w demo_manager = Some ?m" "object_of demo_env ?m = demo_path" "segments ?m = [\<lparr>seg = 0x5000, smgr = demo_base + 10368\<rparr>]"
    "\<not> anon ?m"
    using demo_worldD(4) [OF w0] by (simp_all add: demo_creator_manager_def object_of_def demo_path_def)
  have len: "length (entries (tables w0 demo_path)) = kMaxSubSegments" "table_layout (tables w0 demo_path) = [(0, 0x100000)] @ []"
    using w0 by (simp_all add: demo_world_def demo_good_def object_ready_def Let_def)
  have tl: "table_layout ?tbl = [(0, 0x100000)] @ [(0x100000, 0x80000)]"
    by (rule table_append [OF len]) (simp_all add: kMaxSubSegments_def)
  have sl: "seg_layout ?w ?m = [(0, 0x100000)]" using m(3) d by (simp add: seg_layout_def chunk_at_def desc_chunk_def)
  have lo: "layout_ok demo_env ?w demo_manager"
    unfolding layout_ok_def using m d tl sl len(1) by (intro exI [of _ ?m]) (simp add: kMaxSubSegments_def)
  have inv: "world_inv demo_env ?w" using demo_worldD(1) [OF w0] by simp
  have u: "usable demo_env ?w demo_manager" using m d s by (simp add: usable_def smgr_at_def place_of_def)
  have f: "\<not> 0x200000 \<le> the (get_free_memory demo_env demo_manager ?w)"
    using m d s by (simp add: get_free_memory_def smgr_at_def place_of_def bump_boost_def)
  have t: "table_layout (tables ?w (object_of demo_env ?m)) = seg_layout ?w ?m @ (0x100000, 0x80000) # []"
    using tl sl m(2) by simp
  obtain w' where g: "grow demo_env 0 demo_manager 0x200000 ?w = Some (Inr (), w')" using demo_growth [OF w0 refl s _ lo] by auto
  show ?thesis
    using grow_overwrites_undiscovered_chunk [OF demo_env_ok inv lo u m(1) t f g] g tl sl m(2)
    by (intro exI [of _ ?w] exI [of _ w']) (auto simp: bump_boost_def)
qed

text \<open>
  C14: The destructor releases everything the manager held: the Boost manager of every segment is
  destroyed where it lies, also in a shared object that others have open, and no other Boost manager
  is touched; its descriptors are deleted, none of their pages stays registered, exactly their
  mappings are unmapped, and the prefetch worker is told first. Other managers keep their segments
  and their registrations.
\<close>

theorem destructor_releases_everything:
  assumes "world_inv e w" "managers w this = Some m" "usable e w this"
  shows "\<exists>w'. destroy_manager e th this w = Some w' \<and> world_inv e w' \<and> managers w' = (managers w)(this := None) \<and>
    prefetch w' = prefetch w @ [Unregister_manager this] \<and>
    (\<forall>l. smgrs w' l = (map_option (sm_destructor (boost e)) ^^ length (entries_at e w m l)) (smgrs w l)) \<and>
    (\<forall>i \<in> set (segments m). descs (proc w') (seg i) = None \<and> unmapped e w' (seg i)) \<and>
    (\<forall>v x. v \<notin> seg ` set (segments m) \<longrightarrow> registered (trie_cfg e) (plat e) (proc w) v x \<longrightarrow>
      registered (trie_cfg e) (plat e) (proc w') v x) \<and>
    live_maps (hist w') = fold remove1 (map (mapping_of w) (segments m)) (live_maps (hist w))"
proof -
  have "smgrs_exist e w m (segments m)" using assms(2,3) by (auto simp: usable_def smgrs_exist_def)
  then show ?thesis
    using destroy_manager_spec [OF assms(1,2), of th] by (auto simp: fold_destructed entries_at_def)
qed

theorem destructor_releases_everything_witness:
  "\<exists>w m w'. world_inv demo_env w \<and> managers w demo_manager = Some m \<and> segments m \<noteq> [] \<and>
     destroy_manager demo_env 0 demo_manager w = Some w' \<and> managers w' demo_manager = None \<and> world_inv demo_env w'"
proof -
  obtain w where w: "demo_good 0 w" using demo_creator [of "[]" 0 Map.empty "\<lambda>_. zero_table"] by (auto simp: live_maps_def)
  then obtain m where m: "world_inv demo_env w" "managers w demo_manager = Some m" "usable demo_env w demo_manager" "segments m \<noteq> []"
    by (auto simp: demo_good_def up_to_date_def layout_ok_def)
  then show ?thesis using destructor_releases_everything [OF m(1-3), of 0] by auto
qed

end
