(* ===== verification/Offset_Ptr.thy ===== *)
theory Offset_Ptr
  imports Demo_World Segment_Lookup
begin

text \<open>
  The position-independent pointer, \<^verbatim>\<open>include/segmented_interprocess/segmented_offset_ptr.hpp\<close>. A
  pointer object is its address \<open>self\<close> and its \<^verbatim>\<open>m_offset\<close>. The offset types of the template are
  the defaults, so all arithmetic is modulo \<open>2^64\<close>. \<^verbatim>\<open>get\<close> is \<^verbatim>\<open>noexcept\<close>: an exception inside the
  lazy discovery of segments terminates the process. The check that an encoded offset is not
  the null sentinel is an \<^verbatim>\<open>assert\<close> and does nothing in the release build.
\<close>

section \<open>Definitions\<close>

definition kNull :: u64 where
  "kNull = 1"

subsection \<open>Resolving and encoding\<close>

text \<open>The call through \<^verbatim>\<open>find_by_file_offset_fn\<close>; a null function pointer is undefined behaviour.\<close>

definition call_find_by_file_offset :: "sub_segment \<Rightarrow> u64 \<Rightarrow> 'm world \<Rightarrow> u64 option" where
  "call_find_by_file_offset d off w =
     (if find_by_file_offset_fn d then find_segment_by_file_offset (manager d) off w else None)"

definition resolve_target ::
  "'m env \<Rightarrow> nat \<Rightarrow> sub_segment \<Rightarrow> u64 \<Rightarrow> 'm world \<Rightarrow> ((exn + u64) \<times> 'm world) option" where
  "resolve_target e th d target_file_offset w =
     do {
       t \<leftarrow> call_find_by_file_offset d target_file_offset w;
       if t \<noteq> nullptr then Some (Inr t, w)
       else if discover_growth_fn d then
         do {
           (r, w) \<leftarrow> lazy_discover_growth e th (manager d) target_file_offset w;
           case r of
             Inl x \<Rightarrow> Some (Inl Terminate, w)
           | Inr found \<Rightarrow>
               if found then do { t \<leftarrow> call_find_by_file_offset d target_file_offset w; Some (Inr t, w) }
               else Some (Inr nullptr, w)
         }
       else Some (Inr nullptr, w)
     }"

definition target_addr :: "u64 \<Rightarrow> exn + u64 \<Rightarrow> 'm world \<Rightarrow> ((exn + u64) \<times> 'm world) option" where
  "target_addr target_file_offset r w =
     (case r of
        Inl x \<Rightarrow> Some (Inl x, w)
      | Inr t \<Rightarrow>
          if t = nullptr then Some (Inr nullptr, w)
          else do {
            td \<leftarrow> descs (proc w) t;
            Some (Inr (base_vaddr td + (target_file_offset - file_offset td)), w)
          })"

definition get :: "'m env \<Rightarrow> nat \<Rightarrow> u64 \<Rightarrow> u64 \<Rightarrow> 'm world \<Rightarrow> ((exn + u64) \<times> 'm world) option" where
  "get e th this m_offset w =
     (if m_offset = kNull then Some (Inr nullptr, w)
      else do {
        let self = ptr_to_vaddr (plat e) this;
        (self_seg, p) \<leftarrow> find_seg (trie_cfg e) (plat e) th self (proc w);
        let w = w\<lparr>proc := p\<rparr>;
        if self_seg = nullptr then Some (Inr (self + m_offset), w)
        else do {
          d \<leftarrow> descs (proc w) self_seg;
          if is_anon d then Some (Inr (base_vaddr d + m_offset), w)
          else do {
            let self_file_offset = file_offset d + (self - base_vaddr d);
            let target_file_offset = self_file_offset + m_offset;
            (r, w) \<leftarrow> resolve_target e th d target_file_offset w;
            target_addr target_file_offset r w
          }
        }
      })"

text \<open>\<^verbatim>\<open>set\<close> returns the new \<^verbatim>\<open>m_offset\<close>, or the exception.\<close>

definition set_ptr :: "'m env \<Rightarrow> nat \<Rightarrow> u64 \<Rightarrow> u64 \<Rightarrow> 'm world \<Rightarrow> ((exn + u64) \<times> 'm world) option" where
  "set_ptr e th this pointee w =
     (if pointee = nullptr then Some (Inr kNull, w)
      else do {
        let self = ptr_to_vaddr (plat e) this;
        (self_seg, p) \<leftarrow> find_seg (trie_cfg e) (plat e) th self (proc w);
        (target_seg, p) \<leftarrow> find_seg (trie_cfg e) (plat e) th pointee p;
        let w = w\<lparr>proc := p\<rparr>;
        if self_seg = nullptr then Some (Inr (pointee - self), w)
        else do {
          d \<leftarrow> descs (proc w) self_seg;
          if is_anon d then Some (Inr (pointee - base_vaddr d), w)
          else if target_seg = nullptr then
            Some (Inl (Runtime_error ''segmented_offset_ptr in managed SHM cannot point to unmanaged memory''), w)
          else do {
            td \<leftarrow> descs (proc w) target_seg;
            if manager td \<noteq> manager d then
              Some (Inl (Runtime_error ''segmented_offset_ptr cannot point across different segmented_segment_managers''), w)
            else
              let self_file_offset = file_offset d + (self - base_vaddr d);
                  target_file_offset = file_offset td + (pointee - base_vaddr td)
              in Some (Inr (target_file_offset - self_file_offset), w)
          }
        }
      })"

subsection \<open>Construction, assignment and casts\<close>

text \<open>
  Copy construction, the converting and the tagged constructors and copy assignment read the
  source with \<^verbatim>\<open>get\<close>, convert the raw pointer and \<^verbatim>\<open>set\<close> the destination; the conversion is the
  identity except between base and derived classes. The converting assignment, the cast
  helpers and \<^verbatim>\<open>pointer_to\<close> do the same in a \<^verbatim>\<open>noexcept\<close> function.
\<close>

definition null_ptr :: u64 where
  "null_ptr = kNull"

definition from_raw :: "'m env \<Rightarrow> nat \<Rightarrow> u64 \<Rightarrow> u64 \<Rightarrow> 'm world \<Rightarrow> ((exn + u64) \<times> 'm world) option" where
  "from_raw e th this ptr w = set_ptr e th this ptr w"

definition copy_cast ::
  "(u64 \<Rightarrow> u64) \<Rightarrow> 'm env \<Rightarrow> nat \<Rightarrow> u64 \<Rightarrow> u64 \<Rightarrow> u64 \<Rightarrow> 'm world \<Rightarrow> ((exn + u64) \<times> 'm world) option" where
  "copy_cast cast e th this other other_offset w =
     do {
       (r, w) \<leftarrow> get e th other other_offset w;
       case r of Inl x \<Rightarrow> Some (Inl x, w) | Inr p \<Rightarrow> set_ptr e th this (cast p) w
     }"

definition copy_ptr ::
  "'m env \<Rightarrow> nat \<Rightarrow> u64 \<Rightarrow> u64 \<Rightarrow> u64 \<Rightarrow> 'm world \<Rightarrow> ((exn + u64) \<times> 'm world) option" where
  "copy_ptr e th this other other_offset w = copy_cast (\<lambda>p. p) e th this other other_offset w"

definition convert_assign ::
  "(u64 \<Rightarrow> u64) \<Rightarrow> 'm env \<Rightarrow> nat \<Rightarrow> u64 \<Rightarrow> u64 \<Rightarrow> u64 \<Rightarrow> 'm world \<Rightarrow> ((exn + u64) \<times> 'm world) option" where
  "convert_assign cast e th this other other_offset w = no_except (copy_cast cast e th this other other_offset w)"

definition pointer_cast ::
  "(u64 \<Rightarrow> u64) \<Rightarrow> 'm env \<Rightarrow> nat \<Rightarrow> u64 \<Rightarrow> u64 \<Rightarrow> u64 \<Rightarrow> 'm world \<Rightarrow> ((exn + u64) \<times> 'm world) option" where
  "pointer_cast cast e th res p p_offset w = no_except (copy_cast cast e th res p p_offset w)"

definition pointer_to :: "'m env \<Rightarrow> nat \<Rightarrow> u64 \<Rightarrow> u64 \<Rightarrow> 'm world \<Rightarrow> ((exn + u64) \<times> 'm world) option" where
  "pointer_to e th res r w = no_except (from_raw e th res r w)"

text \<open>Assignment of a raw pointer and of \<^verbatim>\<open>nullptr\<close>.\<close>

definition assign_raw :: "'m env \<Rightarrow> nat \<Rightarrow> u64 \<Rightarrow> u64 \<Rightarrow> 'm world \<Rightarrow> ((exn + u64) \<times> 'm world) option" where
  "assign_raw e th this ptr w = set_ptr e th this ptr w"

definition assign_null :: "u64 \<Rightarrow> u64" where
  "assign_null m_offset = kNull"

text \<open>
  \<^verbatim>\<open>operator*\<close> and \<^verbatim>\<open>operator->\<close> resolve the pointer; using the null pointer is undefined behaviour
  for the first. \<^verbatim>\<open>to_raw_pointer\<close> and \<^verbatim>\<open>to_address\<close> are \<^verbatim>\<open>get\<close>.
\<close>

definition deref :: "'m env \<Rightarrow> nat \<Rightarrow> u64 \<Rightarrow> u64 \<Rightarrow> 'm world \<Rightarrow> ((exn + u64) \<times> 'm world) option" where
  "deref e th this m_offset w =
     do { (r, w) \<leftarrow> get e th this m_offset w; if r = Inr nullptr then None else Some (r, w) }"

definition arrow :: "'m env \<Rightarrow> nat \<Rightarrow> u64 \<Rightarrow> u64 \<Rightarrow> 'm world \<Rightarrow> ((exn + u64) \<times> 'm world) option" where
  "arrow e th this m_offset w = get e th this m_offset w"

definition to_raw_pointer :: "'m env \<Rightarrow> nat \<Rightarrow> u64 \<Rightarrow> u64 \<Rightarrow> 'm world \<Rightarrow> ((exn + u64) \<times> 'm world) option" where
  "to_raw_pointer e th p p_offset w = get e th p p_offset w"

definition traits_pointer_to :: "'m env \<Rightarrow> nat \<Rightarrow> u64 \<Rightarrow> u64 \<Rightarrow> 'm world \<Rightarrow> ((exn + u64) \<times> 'm world) option" where
  "traits_pointer_to e th res r w = no_except (from_raw e th res r w)"

definition to_address :: "'m env \<Rightarrow> nat \<Rightarrow> u64 \<Rightarrow> u64 \<Rightarrow> 'm world \<Rightarrow> ((exn + u64) \<times> 'm world) option" where
  "to_address e th p p_offset w = get e th p p_offset w"

subsection \<open>Tests, arithmetic and comparison\<close>

definition is_null :: "u64 \<Rightarrow> bool" where
  "is_null m_offset \<longleftrightarrow> m_offset = kNull"

definition inc_offset :: "u64 \<Rightarrow> u64 \<Rightarrow> u64" where
  "inc_offset m_offset bytes = m_offset + bytes"

definition pre_increment :: "u64 \<Rightarrow> u64 \<Rightarrow> u64" where
  "pre_increment sizeof_T m_offset = inc_offset m_offset sizeof_T"

definition pre_decrement :: "u64 \<Rightarrow> u64 \<Rightarrow> u64" where
  "pre_decrement sizeof_T m_offset = inc_offset m_offset (- sizeof_T)"

definition plus_assign :: "u64 \<Rightarrow> u64 \<Rightarrow> u64 \<Rightarrow> u64" where
  "plus_assign sizeof_T m_offset n = inc_offset m_offset (n * sizeof_T)"

definition minus_assign :: "u64 \<Rightarrow> u64 \<Rightarrow> u64 \<Rightarrow> u64" where
  "minus_assign sizeof_T m_offset n = inc_offset m_offset (- n * sizeof_T)"

text \<open>
  \<^verbatim>\<open>p + n\<close> and \<^verbatim>\<open>p - n\<close>: the caller copies the pointer into the parameter at address \<open>tmp\<close>; the
  \<^verbatim>\<open>noexcept\<close> body moves it in place and copies it into the result at address \<open>res\<close>. The postfix
  operators return a copy of the pointer made, inside the \<^verbatim>\<open>noexcept\<close> body, before it is moved.
\<close>

definition binary_arith ::
  "(u64 \<Rightarrow> u64) \<Rightarrow> 'm env \<Rightarrow> nat \<Rightarrow> u64 \<Rightarrow> u64 \<Rightarrow> u64 \<Rightarrow> u64 \<Rightarrow> 'm world \<Rightarrow> ((exn + u64) \<times> 'm world) option" where
  "binary_arith move e th res tmp other other_offset w =
     do {
       (r, w) \<leftarrow> copy_ptr e th tmp other other_offset w;
       case r of
         Inl x \<Rightarrow> Some (Inl x, w)
       | Inr m \<Rightarrow> no_except (copy_ptr e th res tmp (move m) w)
     }"

definition plus_ptr where
  "plus_ptr e th sizeof_T n = binary_arith (\<lambda>m. plus_assign sizeof_T m n) e th"

definition minus_ptr where
  "minus_ptr e th sizeof_T n = binary_arith (\<lambda>m. minus_assign sizeof_T m n) e th"

definition postfix ::
  "(u64 \<Rightarrow> u64) \<Rightarrow> 'm env \<Rightarrow> nat \<Rightarrow> u64 \<Rightarrow> u64 \<Rightarrow> u64 \<Rightarrow> 'm world \<Rightarrow> ((exn + u64 \<times> u64) \<times> 'm world) option" where
  "postfix move e th res this m_offset w =
     no_except (do {
       (r, w) \<leftarrow> copy_ptr e th res this m_offset w;
       Some (case r of Inl x \<Rightarrow> Inl x | Inr tmp \<Rightarrow> Inr (tmp, move m_offset), w)
     })"

definition post_increment where
  "post_increment e th sizeof_T = postfix (pre_increment sizeof_T) e th"

definition post_decrement where
  "post_decrement e th sizeof_T = postfix (pre_decrement sizeof_T) e th"

text \<open>The comparisons resolve both sides, the left one first.\<close>

definition compare_ptr ::
  "(u64 \<Rightarrow> u64 \<Rightarrow> 'r) \<Rightarrow> 'm env \<Rightarrow> nat \<Rightarrow> u64 \<times> u64 \<Rightarrow> u64 \<times> u64 \<Rightarrow> 'm world \<Rightarrow> ((exn + 'r) \<times> 'm world) option" where
  "compare_ptr f e th a b w =
     do {
       (r, w) \<leftarrow> get e th (fst a) (snd a) w;
       case r of
         Inl x \<Rightarrow> Some (Inl x, w)
       | Inr p \<Rightarrow>
           do {
             (r, w) \<leftarrow> get e th (fst b) (snd b) w;
             Some (case r of Inl x \<Rightarrow> Inl x | Inr q \<Rightarrow> Inr (f p q), w)
           }
     }"

definition eq_ptr where
  "eq_ptr = compare_ptr (=)"

definition neq_ptr where
  "neq_ptr = compare_ptr (\<noteq>)"

definition less_ptr where
  "less_ptr = compare_ptr (<)"

definition less_eq_ptr where
  "less_eq_ptr = compare_ptr (\<le>)"

text \<open>The pointers subtracted point into one array, so the division is exact.\<close>

definition diff_ptr where
  "diff_ptr sizeof_T = compare_ptr (\<lambda>p q. sint (p - q) div int (unat (sizeof_T :: u64)))"

definition subscript :: "'m env \<Rightarrow> nat \<Rightarrow> u64 \<Rightarrow> u64 \<Rightarrow> u64 \<Rightarrow> u64 \<Rightarrow> 'm world \<Rightarrow> ((exn + u64) \<times> 'm world) option" where
  "subscript e th sizeof_T this m_offset n w =
     do {
       (r, w) \<leftarrow> get e th this m_offset w;
       Some (case r of Inl x \<Rightarrow> Inl x | Inr p \<Rightarrow> Inr (p + n * sizeof_T), w)
     }"

section \<open>Encoding\<close>

text \<open>Between two bytes of one shared-memory manager the offset is their distance in the file.\<close>

lemma set_shm:
  assumes g: "good e th w" and m: "managers w M = Some m" "\<not> anon m"
    and s: "views w M so this" and t: "views w M t p"
  shows "\<exists>w'. set_ptr e th this p w = Some (Inr (t - so), w') \<and> cached e th w w'"
proof -
  have inv: "world_inv e w" using g by (simp add: good_def)
  obtain i d where i: "i \<in> set (segments m)" "descs (proc w) (seg i) = Some d"
    "in_range (base_vaddr d) (size_of d) this" and so: "so = file_offset d + (this - base_vaddr d)"
    using viewsE [OF s m(1)] .
  obtain j td where j: "j \<in> set (segments m)" "descs (proc w) (seg j) = Some td"
    "in_range (base_vaddr td) (size_of td) p" and t': "t = file_offset td + (p - base_vaddr td)"
    using viewsE [OF t m(1)] .
  obtain p1 where p1: "find_seg (trie_cfg e) (plat e) th this (proc w) = Some (seg i, p1)" "cached e th w (w\<lparr>proc := p1\<rparr>)"
    using find_managed [OF g m(1) i] by blast
  have "managers (w\<lparr>proc := p1\<rparr>) M = Some m" "descs (proc (w\<lparr>proc := p1\<rparr>)) (seg j) = Some td"
    using m j p1(2) by (simp_all add: cached_def)
  from find_managed [OF cached_good [OF p1(2)] this(1) j(1) this(2) j(3)]
  obtain p2 where p2: "find_seg (trie_cfg e) (plat e) th p p1 = Some (seg j, p2)" "cached e th (w\<lparr>proc := p1\<rparr>) (w\<lparr>proc := p2\<rparr>)"
    by auto
  have c: "cached e th w (w\<lparr>proc := p2\<rparr>)" using cached_trans [OF p1(2) p2(2)] .
  have ds: "descs p2 (seg i) = Some d" "descs p2 (seg j) = Some td" using c i j by (simp_all add: cached_def)
  have k: "manager d = M" "manager td = M" "\<not> is_anon d" "seg i \<noteq> nullptr" "seg j \<noteq> nullptr"
    using world_seg_desc [OF inv m(1) i(1)] world_seg_desc [OF inv m(1) j(1)] i j m(2) by auto
  show ?thesis
    using p1(1) p2(1) ds k c managed_seg_of(2) [OF inv m(1) i] managed_seg_of(3) [OF inv m(1) j] so t'
    by (simp add: set_ptr_def Let_def)
qed

text \<open>From unmanaged or anonymous memory any address is encoded.\<close>

definition local_ptr :: "'m env \<Rightarrow> 'm world \<Rightarrow> u64 \<Rightarrow> bool" where
  "local_ptr e w this \<longleftrightarrow>
     seg_of e w (ptr_to_vaddr (plat e) this) = Some nullptr \<or>
     (\<exists>v d. seg_of e w (ptr_to_vaddr (plat e) this) = Some v \<and> v \<noteq> nullptr \<and> descs (proc w) v = Some d \<and> is_anon d)"

text \<open>The address that offsets stored at \<open>this\<close> count from.\<close>

definition local_origin :: "'m env \<Rightarrow> 'm world \<Rightarrow> u64 \<Rightarrow> u64" where
  "local_origin e w this =
     (case seg_of e w (ptr_to_vaddr (plat e) this) of
        Some v \<Rightarrow> (case descs (proc w) v of
                    Some d \<Rightarrow> if v = nullptr then ptr_to_vaddr (plat e) this else base_vaddr d
                  | None \<Rightarrow> ptr_to_vaddr (plat e) this)
      | None \<Rightarrow> ptr_to_vaddr (plat e) this)"

lemma set_local:
  assumes g: "good e th w" and l: "local_ptr e w this" and p: "p \<noteq> nullptr"
  shows "\<exists>w'. set_ptr e th this p w = Some (Inr (p - local_origin e w this), w') \<and> cached e th w w'"
proof -
  let ?self = "ptr_to_vaddr (plat e) this"
  obtain v p1 where v: "find_seg (trie_cfg e) (plat e) th ?self (proc w) = Some (v, p1)" "cached e th w (w\<lparr>proc := p1\<rparr>)"
    "seg_of e w ?self = Some v"
    using find_cached [OF g] by blast
  obtain u p2 where u: "find_seg (trie_cfg e) (plat e) th p p1 = Some (u, p2)" "cached e th (w\<lparr>proc := p1\<rparr>) (w\<lparr>proc := p2\<rparr>)"
    using find_cached [OF cached_good [OF v(2)], of p] by auto
  have c: "cached e th w (w\<lparr>proc := p2\<rparr>)" using cached_trans [OF v(2) u(2)] .
  then have "descs p2 = descs (proc w)" by (simp add: cached_def)
  then show ?thesis using v u l p c
    by (auto simp: set_ptr_def Let_def local_ptr_def local_origin_def split: option.splits)
qed

lemma get_local:
  assumes g: "good e th w" and l: "local_ptr e w this" and m: "m \<noteq> kNull"
  shows "\<exists>w'. get e th this m w = Some (Inr (local_origin e w this + m), w') \<and> cached e th w w'"
proof -
  let ?self = "ptr_to_vaddr (plat e) this"
  obtain v p1 where v: "find_seg (trie_cfg e) (plat e) th ?self (proc w) = Some (v, p1)" "cached e th w (w\<lparr>proc := p1\<rparr>)"
    "seg_of e w ?self = Some v"
    using find_cached [OF g] by blast
  then have "descs p1 = descs (proc w)" by (simp add: cached_def)
  then show ?thesis using v l m
    by (auto simp: get_def Let_def local_ptr_def local_origin_def split: option.splits)
qed

section \<open>Resolving\<close>

lemma cached_grown: "cached e th w w' \<Longrightarrow> managers w M = Some m \<Longrightarrow> grown e M w w'"
  by (auto simp: cached_def grown_def registered_def intro!: exI [of _ m] exI [of _ "[]"])

lemma resolve_mapped:
  assumes inv: "world_inv e w" and m: "managers w M = Some m" and c: "contiguous 0 (seg_layout w m)"
    and v: "views w M off p" and d: "manager d = M" "find_by_file_offset_fn d"
  shows "\<exists>v td. resolve_target e th d off w = Some (Inr v, w) \<and> v \<noteq> nullptr \<and>
    descs (proc w) v = Some td \<and> p = base_vaddr td + (off - file_offset td)"
proof -
  obtain v td where i: "descs (proc w) v = Some td" "find_segment_by_file_offset M off w = Some v"
    "v \<noteq> nullptr" "p = base_vaddr td + (off - file_offset td)"
    using find_viewed [OF inv c m v] by metis
  then show ?thesis using d by (simp add: resolve_target_def call_find_by_file_offset_def)
qed

lemma views_below:
  assumes "world_inv e w" "managers w M = Some m" "contiguous 0 (seg_layout w m)"
    and "unat off < total_size (seg_layout w m)"
  shows "\<exists>p. views w M off p"
proof -
  obtain k where k: "k < length (seg_layout w m)" "in_chunk (seg_layout w m ! k) off"
    using contiguous_covers [OF assms(3), of off] assms(4) by (auto simp: total_size_def)
  then have "k < length (segments m)" "in_chunk (chunk_at w (segments m ! k)) off" by (simp_all add: seg_layout_def)
  then show ?thesis using views_exist [OF assms(1,3,2)] by blast
qed

lemma chunk_end:
  assumes "contiguous n cs" "c \<in> set cs"
  shows "unat (fst c) + unat (snd c) \<le> n + total_size cs"
  using assms by (induction n cs rule: contiguous.induct) (auto simp: total_size_def)

lemma find_beyond:
  assumes inv: "world_inv e w" and m: "managers w M = Some m" and c: "contiguous 0 (seg_layout w m)"
    and big: "total_size (seg_layout w m) \<le> unat off"
  shows "find_segment_by_file_offset M off w = Some nullptr"
proof -
  have "\<not> in_chunk (chunk_at w i) off" if i: "i \<in> set (segments m)" for i
  proof -
    have "chunk_at w i \<in> set (seg_layout w m)" using i by (simp add: seg_layout_def)
    then show ?thesis using in_chunk_iff [OF c, of "chunk_at w i" off] chunk_end [OF c, of "chunk_at w i"] big by simp
  qed
  then have none: "List.find (\<lambda>i. in_chunk (chunk_at w i) off) (segments m) = None" by (auto simp: find_None_iff)
  have "\<forall>i \<in> set (segments m). descs (proc w) (seg i) \<noteq> None" using world_seg_desc [OF inv m] by blast
  then show ?thesis using find_by_offset_spec [OF m _ c] none by simp
qed

text \<open>A byte that is not mapped yet is discovered through the table, or is not in the table.\<close>

lemma resolve_unmapped:
  assumes env: "env_ok e" and inv: "world_inv e w" and l: "layout_ok e w M" and m: "managers w M = Some m"
    and big: "total_size (seg_layout w m) \<le> unat off"
    and d: "manager d = M" "find_by_file_offset_fn d" "discover_growth_fn d"
  shows "\<exists>r w'. resolve_target e th d off w = Some (r, w') \<and> world_inv e w' \<and> layout_ok e w' M \<and> grown e M w w' \<and>
    tables w' = tables w \<and> smgrs w' = smgrs w \<and>
    (if unat off < total_size (table_layout (tables w (object_of e m)))
     then r = Inl Terminate \<or> (\<exists>v td p. r = Inr v \<and> v \<noteq> nullptr \<and> views w' M off p \<and>
       descs (proc w') v = Some td \<and> p = base_vaddr td + (off - file_offset td))
     else r = Inr nullptr \<or> r = Inl Terminate)"
proof -
  have f: "find_segment_by_file_offset M off w = Some nullptr"
    using find_beyond [OF inv m layout_contiguous [OF l m] big] .
  obtain r w' m' where ld: "lazy_discover_growth e th M off w = Some (r, w')" "world_inv e w'" "grown e M w w'"
      "tables w' = tables w" "smgrs w' = smgrs w" "layout_ok e w' M" "managers w' M = Some m'"
    and res: "case r of
       Inl x \<Rightarrow> x \<in> {Runtime_error ''segmented_segment_manager: failed to map SHM chunk'', Terminate}
     | Inr b \<Rightarrow> (b \<longleftrightarrow> unat off < total_size (table_layout (tables w (object_of e m)))) \<and>
         (b \<longrightarrow> unat off < total_size (seg_layout w' m'))"
    using lazy_discover_spec [OF env inv l m, of th off] by blast
  show ?thesis
  proof (cases "\<exists>x. r = Inl x")
    case True
    then have "resolve_target e th d off w = Some (Inl Terminate, w')"
      using f ld(1) d by (auto simp: resolve_target_def call_find_by_file_offset_def)
    then show ?thesis using ld by simp
  next
    case False
    then obtain b where r: "r = Inr b" by (cases r) auto
    show ?thesis
    proof (cases b)
      case False
      then have "resolve_target e th d off w = Some (Inr nullptr, w')"
        using f ld(1) d r by (simp add: resolve_target_def call_find_by_file_offset_def)
      then show ?thesis using ld res r False by simp
    next
      case True
      have c': "contiguous 0 (seg_layout w' m')" using layout_contiguous [OF ld(6,7)] .
      obtain p where p: "views w' M off p" using views_below [OF ld(2,7) c'] res r True by auto
      obtain v td where i: "descs (proc w') v = Some td" "find_segment_by_file_offset M off w' = Some v"
        "v \<noteq> nullptr" "p = base_vaddr td + (off - file_offset td)"
        using find_viewed [OF ld(2) c' ld(7) p] by metis
      have "resolve_target e th d off w = Some (Inr v, w')"
        using f ld(1) d r True i by (simp add: resolve_target_def call_find_by_file_offset_def)
      then show ?thesis using ld res r True p i by auto
    qed
  qed
qed

lemma get_shm_unfold:
  assumes g: "good e th w" and m: "managers w M = Some m" "\<not> anon m" and s: "views w M so this" and nn: "n \<noteq> kNull"
  shows "\<exists>w1 d. cached e th w w1 \<and> manager d = M \<and> find_by_file_offset_fn d \<and> discover_growth_fn d \<and>
    get e th this n w =
      do { (r, w) \<leftarrow> resolve_target e th d (so + n) w1; target_addr (so + n) r w }"
proof -
  have inv: "world_inv e w" using g by (simp add: good_def)
  obtain i d where i: "i \<in> set (segments m)" "descs (proc w) (seg i) = Some d"
    "in_range (base_vaddr d) (size_of d) this" and so: "so = file_offset d + (this - base_vaddr d)"
    using viewsE [OF s m(1)] .
  obtain p1 where p1: "find_seg (trie_cfg e) (plat e) th this (proc w) = Some (seg i, p1)" "cached e th w (w\<lparr>proc := p1\<rparr>)"
    using find_managed [OF g m(1) i] by blast
  have k: "manager d = M" "\<not> is_anon d" "seg i \<noteq> nullptr" "find_by_file_offset_fn d" "discover_growth_fn d"
    using world_seg_desc [OF inv m(1) i(1)] i m(2) by auto
  have "descs p1 (seg i) = Some d" using p1(2) i by (simp add: cached_def)
  then have "get e th this n w =
      do { (r, w) \<leftarrow> resolve_target e th d (so + n) (w\<lparr>proc := p1\<rparr>); target_addr (so + n) r w }"
    using p1(1) k nn managed_seg_of(2) [OF inv m(1) i] so by (simp add: get_def Let_def)
  then show ?thesis using p1(2) k by blast
qed

text \<open>Resolution in shared memory adds the offset to the file position of the pointer.\<close>

lemma get_shm_mapped:
  assumes g: "good e th w" and m: "managers w M = Some m" "\<not> anon m" and c: "contiguous 0 (seg_layout w m)"
    and s: "views w M so this" and nn: "n \<noteq> kNull" and v: "views w M (so + n) p"
  shows "\<exists>w'. get e th this n w = Some (Inr p, w') \<and> cached e th w w'"
proof -
  obtain w1 d where w1: "cached e th w w1" "manager d = M" "find_by_file_offset_fn d"
    and eq: "get e th this n w =
      do { (r, w) \<leftarrow> resolve_target e th d (so + n) w1; target_addr (so + n) r w }"
    using get_shm_unfold [OF g m s nn] by blast
  have "world_inv e w1" "managers w1 M = Some m" "contiguous 0 (seg_layout w1 m)" "views w1 M (so + n) p"
    using w1(1) m c v cached_seg_layout [OF w1(1)] cached_views [OF w1(1)] by (simp_all add: cached_def good_def)
  from resolve_mapped [OF this w1(2,3), of th] obtain v td where "resolve_target e th d (so + n) w1 = Some (Inr v, w1)" "v \<noteq> nullptr"
    "descs (proc w1) v = Some td" "p = base_vaddr td + (so + n - file_offset td)" by metis
  then have "get e th this n w = Some (Inr p, w1)" using eq by (simp add: target_addr_def)
  then show ?thesis using w1(1) by blast
qed

lemma get_shm_spec:
  assumes env: "env_ok e" and g: "good e th w" and m: "managers w M = Some m" and l: "layout_ok e w M"
    and s: "views w M so this" and nn: "n \<noteq> kNull"
  shows "\<exists>r w'. get e th this n w = Some (r, w') \<and> world_inv e w' \<and> layout_ok e w' M \<and> grown e M w w' \<and>
    tables w' = tables w \<and> smgrs w' = smgrs w \<and>
    (if unat (so + n) < total_size (table_layout (tables w (object_of e m)))
     then r = Inl Terminate \<or> (\<exists>p. r = Inr p \<and> views w' M (so + n) p)
     else r = Inr nullptr \<or> r = Inl Terminate)"
proof -
  have na: "\<not> anon m" and pre: "\<exists>rest. table_layout (tables w (object_of e m)) = seg_layout w m @ rest"
    using l m by (auto simp: layout_ok_def)
  have c: "contiguous 0 (seg_layout w m)" using layout_contiguous [OF l m] .
  have inv: "world_inv e w" using g by (simp add: good_def)
  show ?thesis
  proof (cases "unat (so + n) < total_size (seg_layout w m)")
    case True
    then obtain p where p: "views w M (so + n) p" using views_below [OF inv m c] by blast
    obtain w' where w': "get e th this n w = Some (Inr p, w')" "cached e th w w'"
      using get_shm_mapped [OF g m na c s nn p] by blast
    have "unat (so + n) < total_size (table_layout (tables w (object_of e m)))" using True pre by auto
    then show ?thesis using w' p l cached_layout [OF w'(2)] cached_views [OF w'(2)] cached_grown [OF w'(2) m]
      by (simp add: cached_def good_def)
  next
    case False
    obtain w1 d where w1: "cached e th w w1" "manager d = M" "find_by_file_offset_fn d" "discover_growth_fn d"
      and eq: "get e th this n w =
        do { (r, w) \<leftarrow> resolve_target e th d (so + n) w1; target_addr (so + n) r w }"
      using get_shm_unfold [OF g m na s nn] by blast
    have k: "world_inv e w1" "managers w1 M = Some m" "tables w1 = tables w" "smgrs w1 = smgrs w" "layout_ok e w1 M"
      "total_size (seg_layout w1 m) \<le> unat (so + n)"
      using w1(1) m l False cached_layout [OF w1(1)] cached_seg_layout [OF w1(1)] by (simp_all add: cached_def good_def)
    obtain r w' where r: "resolve_target e th d (so + n) w1 = Some (r, w')" "world_inv e w'" "layout_ok e w' M"
        "grown e M w1 w'" "tables w' = tables w" "smgrs w' = smgrs w"
      and res: "if unat (so + n) < total_size (table_layout (tables w (object_of e m)))
       then r = Inl Terminate \<or> (\<exists>v td p. r = Inr v \<and> v \<noteq> nullptr \<and> views w' M (so + n) p \<and>
         descs (proc w') v = Some td \<and> p = base_vaddr td + (so + n - file_offset td))
       else r = Inr nullptr \<or> r = Inl Terminate"
      using resolve_unmapped [OF env k(1,5,2,6) w1(2-4), of th] k(3,4) by auto
    have gr: "grown e M w w'" using grown_trans [OF cached_grown [OF w1(1) m] r(4)] .
    then show ?thesis using r res eq by (auto simp: target_addr_def split: if_splits)
  qed
qed

section \<open>Properties\<close>

text \<open>
  When a pointer at \<open>this\<close> can hold \<open>p\<close>: it is outside shared memory, or both are bytes of one
  shared-memory manager.
\<close>

definition encodable :: "'m env \<Rightarrow> 'm world \<Rightarrow> u64 \<Rightarrow> u64 \<Rightarrow> bool" where
  "encodable e w this p \<longleftrightarrow>
     local_ptr e w this \<or> (\<exists>M so t. layout_ok e w M \<and> views w M so this \<and> views w M t p)"

lemma layout_manager: "layout_ok e w M \<Longrightarrow> \<exists>m. managers w M = Some m \<and> \<not> anon m"
  by (auto simp: layout_ok_def)

lemma set_get:
  assumes g: "good e th w" and p: "p \<noteq> nullptr" and en: "encodable e w this p"
  shows "\<exists>m w1. set_ptr e th this p w = Some (Inr m, w1) \<and> cached e th w w1 \<and>
    (m \<noteq> kNull \<longrightarrow> (\<exists>w2. get e th this m w1 = Some (Inr p, w2) \<and> cached e th w w2))"
  using en unfolding encodable_def
proof (elim disjE exE conjE)
  assume l: "local_ptr e w this"
  obtain w1 where w1: "set_ptr e th this p w = Some (Inr (p - local_origin e w this), w1)" "cached e th w w1"
    using set_local [OF g l p] by blast
  have same: "descs (proc w1) = descs (proc w)" "seg_of e w1 = seg_of e w"
    using w1(2) cached_seg_of [OF w1(2)] by (simp_all add: cached_def)
  have l1: "local_ptr e w1 this" using l unfolding local_ptr_def same .
  have l2: "local_origin e w1 this = local_origin e w this" unfolding local_origin_def same ..
  show ?thesis
    using w1 get_local [OF cached_good [OF w1(2)] l1, of "p - local_origin e w this"] l2 cached_trans [OF w1(2)]
    by (intro exI [of _ "p - local_origin e w this"] exI [of _ w1]) auto
next
  fix M so t
  assume l: "layout_ok e w M" and v: "views w M so this" "views w M t p"
  obtain m where m: "managers w M = Some m" "\<not> anon m" using layout_manager [OF l] by blast
  obtain w1 where w1: "set_ptr e th this p w = Some (Inr (t - so), w1)" "cached e th w w1"
    using set_shm [OF g m v] by blast
  have c1: "contiguous 0 (seg_layout w1 m)" using layout_contiguous [OF l m(1)] cached_seg_layout [OF w1(2)] by simp
  have m1: "managers w1 M = Some m" using m(1) w1(2) by (simp add: cached_def)
  have v1: "views w1 M so this" "views w1 M (so + (t - so)) p" using v cached_views [OF w1(2)] by simp_all
  show ?thesis
    using w1 get_shm_mapped [OF cached_good [OF w1(2)] m1 m(2) c1 v1(1) _ v1(2)] cached_trans [OF w1(2)]
    by (intro exI [of _ "t - so"] exI [of _ w1]) auto
qed

text \<open>
  The one address a pointer object cannot hold although it is in reach: the one whose encoding is the
  null sentinel, 1. For a pointer in unmanaged memory that is the byte after its first byte, for one in
  an anonymous segment the second byte of the segment, and in shared memory the next byte of the file.
\<close>

definition hits_sentinel :: "'m env \<Rightarrow> 'm world \<Rightarrow> u64 \<Rightarrow> u64 \<Rightarrow> bool" where
  "hits_sentinel e w this p \<longleftrightarrow>
     local_ptr e w this \<and> p = local_origin e w this + 1 \<or>
     (\<exists>M so. layout_ok e w M \<and> views w M so this \<and> views w M (so + 1) p)"

definition storable :: "'m env \<Rightarrow> 'm world \<Rightarrow> u64 \<Rightarrow> u64 \<Rightarrow> bool" where
  "storable e w this p \<longleftrightarrow> p = nullptr \<or> encodable e w this p \<and> \<not> hits_sentinel e w this p"

lemma set_not_null:
  assumes g: "good e th w" and p: "p \<noteq> nullptr" and st: "storable e w this p"
    and s: "set_ptr e th this p w = Some (Inr m, w1)"
  shows "m \<noteq> kNull"
proof -
  have en: "encodable e w this p" and nh: "\<not> hits_sentinel e w this p" using st p by (simp_all add: storable_def)
  from en show ?thesis
    unfolding encodable_def
  proof (elim disjE exE conjE)
    assume l: "local_ptr e w this"
    then have "m = p - local_origin e w this" using set_local [OF g l p] s by auto
    then show ?thesis using nh l by (auto simp: hits_sentinel_def kNull_def diff_eq_eq add.commute)
  next
    fix M so t
    assume l: "layout_ok e w M" and v: "views w M so this" "views w M t p"
    obtain mm where mm: "managers w M = Some mm" "\<not> anon mm" using layout_manager [OF l] by blast
    have "m = t - so" using set_shm [OF g mm v] s by auto
    moreover have "t \<noteq> so + 1" using nh l v by (auto simp: hits_sentinel_def)
    ultimately show ?thesis by (simp add: kNull_def diff_eq_eq add.commute)
  qed
qed

lemma store_load:
  assumes g: "good e th w" and st: "storable e w this p"
  shows "\<exists>m w1 w2. set_ptr e th this p w = Some (Inr m, w1) \<and> (m = kNull \<longleftrightarrow> p = nullptr) \<and> cached e th w w1 \<and>
    get e th this m w1 = Some (Inr p, w2) \<and> cached e th w w2"
proof (cases "p = nullptr")
  case True
  then show ?thesis using g by (simp add: set_ptr_def get_def cached_def)
next
  case False
  then have "encodable e w this p" using st by (simp add: storable_def)
  from set_get [OF g False this] obtain m w1 where m: "set_ptr e th this p w = Some (Inr m, w1)" "cached e th w w1"
    "m \<noteq> kNull \<longrightarrow> (\<exists>w2. get e th this m w1 = Some (Inr p, w2) \<and> cached e th w w2)" by blast
  then show ?thesis using set_not_null [OF g False st m(1)] False by blast
qed

text \<open>
  C4: Storing a pointer and reading it back gives the same address, wherever the pointer object
  lives: in unmanaged memory, in an anonymous segment or in shared memory, also when the target
  is in another segment of the same manager. What is stored is the null sentinel for the null
  pointer and for nothing else, and only thread-local caches change. The address must be in reach
  of the pointer, and must not be the one address that the encoding maps to the sentinel.
\<close>

theorem set_then_get:
  assumes "good e th w" "storable e w this p"
  shows "\<exists>m w1 w2. set_ptr e th this p w = Some (Inr m, w1) \<and> (m = kNull \<longleftrightarrow> p = nullptr) \<and> cached e th w w1 \<and>
    get e th this m w1 = Some (Inr p, w2) \<and> cached e th w w2"
  by (rule store_load [OF assms])

lemma demo_good_good: "demo_good th w \<Longrightarrow> good demo_env th w" "demo_good th w \<Longrightarrow> layout_ok demo_env w demo_manager"
  by (simp_all add: demo_good_def good_def up_to_date_def)

lemma demo_view_pair:
  assumes "demo_good th w"
  shows "\<exists>this p. views w demo_manager 0x4000 this \<and> views w demo_manager 0x8000 p \<and> p \<noteq> nullptr"
proof -
  obtain this p where v: "views w demo_manager 0x4000 this" "views w demo_manager 0x8000 p"
    using demo_views [OF assms, of "0x4000"] demo_views [OF assms, of "0x8000"] by auto
  obtain m where m: "managers w demo_manager = Some m" using assms by (auto simp: demo_good_def)
  have "world_inv demo_env w" using assms by (simp add: demo_good_def)
  then have "p \<noteq> nullptr" using views_user(1) [OF _ m v(2)] by blast
  then show ?thesis using v by blast
qed

lemma demo_storable:
  assumes g: "good demo_env 0 w" and l: "layout_ok demo_env w demo_manager"
    and v: "views w demo_manager 0x4000 this" "views w demo_manager 0x8000 p"
  shows "storable demo_env w this p" "set_ptr demo_env 0 this p w \<noteq> None \<and> p \<noteq> nullptr"
proof -
  obtain mm where mm: "managers w demo_manager = Some mm" "\<not> anon mm" using layout_manager [OF l] by blast
  have pn: "p \<noteq> nullptr" using views_user(1) [of demo_env, OF _ mm(1) v(2)] g by (simp add: good_def)
  obtain w1 where s: "set_ptr demo_env 0 this p w = Some (Inr (0x8000 - 0x4000), w1)" using set_shm [OF g mm v] by blast
  have "\<not> hits_sentinel demo_env w this p"
  proof
    assume "hits_sentinel demo_env w this p"
    then have "set_ptr demo_env 0 this p w = Some (Inr kNull, w2) \<Longrightarrow> False" for w2 using s by (simp add: kNull_def)
    moreover have "\<exists>w2. set_ptr demo_env 0 this p w = Some (Inr kNull, w2)"
      using \<open>hits_sentinel demo_env w this p\<close> unfolding hits_sentinel_def
    proof (elim disjE exE conjE)
      assume l: "local_ptr demo_env w this" and "p = local_origin demo_env w this + 1"
      then have "p - local_origin demo_env w this = kNull" by (simp add: kNull_def)
      then show ?thesis using set_local [OF g l pn] by auto
    next
      fix M so
      assume M: "layout_ok demo_env w M" "views w M so this" "views w M (so + 1) p"
      obtain m where "managers w M = Some m" "\<not> anon m" using layout_manager [OF M(1)] by blast
      from set_shm [OF g this M(2,3)] show ?thesis by (auto simp: kNull_def)
    qed
    ultimately show False by blast
  qed
  then show "storable demo_env w this p" using v l unfolding storable_def encodable_def by blast
  show "set_ptr demo_env 0 this p w \<noteq> None \<and> p \<noteq> nullptr" using s pn by simp
qed

theorem set_then_get_witness:
  "\<exists>w this p m w1 w2. good demo_env 0 w \<and> p \<noteq> nullptr \<and> storable demo_env w this p \<and>
     set_ptr demo_env 0 this p w = Some (Inr m, w1) \<and> m = 0x4000 \<and> get demo_env 0 this m w1 = Some (Inr p, w2)"
proof -
  obtain w where w: "demo_good 0 w" using demo_creator [of "[]" 0 Map.empty "\<lambda>_. zero_table"] by (auto simp: live_maps_def)
  obtain this p where v: "views w demo_manager 0x4000 this" "views w demo_manager 0x8000 p" "p \<noteq> nullptr"
    using demo_view_pair [OF w] by blast
  note st = demo_storable(1) [OF demo_good_good [OF w] v(1,2)]
  obtain m w1 w2 where m: "set_ptr demo_env 0 this p w = Some (Inr m, w1)" "get demo_env 0 this m w1 = Some (Inr p, w2)"
    using set_then_get [OF demo_good_good(1) [OF w] st] by blast
  obtain mm where mm: "managers w demo_manager = Some mm" "\<not> anon mm" using w by (auto simp: demo_good_def)
  have "m = 0x4000" using set_shm [OF demo_good_good(1) [OF w] mm v(1,2)] m(1) by auto
  then show ?thesis using m st v(3) demo_good_good(1) [OF w] by blast
qed

text \<open>
  C3: A pointer in shared memory means the same in every process. One process stores, in the
  pointer at byte \<open>so\<close> of the object, the address it has for byte \<open>t\<close>; any other process that has
  mapped the object, at whatever addresses, reads the pointer and gets its own address of byte
  \<open>t\<close>, even if \<open>t\<close> lies in a segment it has not mapped yet, as long as the table lists it: the
  segment is then mapped on the way, and only a failure of that mapping ends the process.
\<close>

theorem pointer_means_same_everywhere:
  assumes "good e1 th1 w1" "layout_ok e1 w1 M1" "views w1 M1 so this1" "views w1 M1 t p1" "t - so \<noteq> kNull"
    and "env_ok e2" "good e2 th2 w2" "layout_ok e2 w2 M2" "managers w2 M2 = Some m2" "views w2 M2 so this2"
    and "unat t < total_size (table_layout (tables w2 (object_of e2 m2)))"
  shows "\<exists>off w1' r w2'. set_ptr e1 th1 this1 p1 w1 = Some (Inr off, w1') \<and> get e2 th2 this2 off w2 = Some (r, w2') \<and>
    world_inv e2 w2' \<and> layout_ok e2 w2' M2 \<and> grown e2 M2 w2 w2' \<and>
    (r = Inl Terminate \<or> (\<exists>p2. r = Inr p2 \<and> views w2' M2 t p2)) \<and> (\<forall>p2. views w2 M2 t p2 \<longrightarrow> r = Inr p2)"
proof -
  obtain m1 where m1: "managers w1 M1 = Some m1" "\<not> anon m1" using layout_manager [OF assms(2)] by blast
  obtain w1' where s: "set_ptr e1 th1 this1 p1 w1 = Some (Inr (t - so), w1')"
    using set_shm [OF assms(1) m1 assms(3,4)] by blast
  have so: "so + (t - so) = t" by simp
  obtain r w2' where g: "get e2 th2 this2 (t - so) w2 = Some (r, w2')" "world_inv e2 w2'" "layout_ok e2 w2' M2"
      "grown e2 M2 w2 w2'" "r = Inl Terminate \<or> (\<exists>p2. r = Inr p2 \<and> views w2' M2 t p2)"
    using get_shm_spec [OF assms(6,7,9,8,10,5)] assms(11) unfolding so by auto
  have na: "\<not> anon m2" using assms(8,9) by (auto simp: layout_ok_def)
  have "r = Inr p2" if p2: "views w2 M2 t p2" for p2
    using get_shm_mapped [OF assms(7,9) na layout_contiguous [OF assms(8,9)] assms(10,5)] p2 g(1) unfolding so by auto
  then show ?thesis using s g by blast
qed

theorem pointer_means_same_everywhere_witness:
  "\<exists>w1 w2 this1 this2 p1 p2 off w1' w2'.
     views w1 demo_manager 0x4000 this1 \<and> views w1 demo_manager 0x8000 p1 \<and> views w2 demo_manager 0x4000 this2 \<and>
     set_ptr demo_env 0 this1 p1 w1 = Some (Inr off, w1') \<and> get demo_env 1 this2 off w2 = Some (Inr p2, w2') \<and>
     views w2' demo_manager 0x8000 p2"
proof -
  obtain w1 where w1: "demo_good 0 w1" using demo_creator [of "[]" 0 Map.empty "\<lambda>_. zero_table"] by (auto simp: live_maps_def)
  obtain w2 where w2: "demo_good 1 w2"
    using demo_opener [of "[Ev_close 3, Ev_close 4]", OF _ _ w1, of 1] by (auto simp: live_maps_def map_event_def)
  obtain this1 p1 where v1: "views w1 demo_manager 0x4000 this1" "views w1 demo_manager 0x8000 p1"
    using demo_view_pair [OF w1] by blast
  obtain this2 p2 where v2: "views w2 demo_manager 0x4000 this2" "views w2 demo_manager 0x8000 p2"
    using demo_view_pair [OF w2] by blast
  obtain m2 where m2: "managers w2 demo_manager = Some m2" "table_layout (tables w2 (object_of demo_env m2)) = [(0, 0x100000)]"
    using w2 by (auto simp: demo_good_def)
  have lt: "unat (0x8000 :: u64) < total_size (table_layout (tables w2 (object_of demo_env m2)))"
    using m2(2) by (simp add: total_size_def)
  have nk: "(0x8000 :: u64) - 0x4000 \<noteq> kNull" by (simp add: kNull_def)
  obtain off w1' r w2' where x: "set_ptr demo_env 0 this1 p1 w1 = Some (Inr off, w1')"
    "get demo_env 1 this2 off w2 = Some (r, w2')" "grown demo_env demo_manager w2 w2'"
    "\<forall>p2. views w2 demo_manager 0x8000 p2 \<longrightarrow> r = Inr p2"
    using pointer_means_same_everywhere [OF demo_good_good [OF w1] v1 nk demo_env_ok demo_good_good [OF w2] m2(1) v2(1) lt]
    by blast
  have "r = Inr p2" using x(4) v2(2) by blast
  then show ?thesis using x(1,2) v1 v2(1) views_grown [OF x(3) v2(2)] by blast
qed

text \<open>
  C24: A pointer in shared memory cannot be made to point outside its manager: storing the address
  of unmanaged memory, or of a segment of another manager, throws the documented exception, no new
  offset is computed, and nothing but caches has changed.
\<close>

theorem set_rejects_foreign_targets:
  assumes g: "good e th w" and m: "managers w M = Some m" "\<not> anon m" and s: "views w M so this" and p: "p \<noteq> nullptr"
    and t: "seg_of e w p = Some v" "v = nullptr \<or> (\<exists>td. descs (proc w) v = Some td \<and> manager td \<noteq> M)"
  shows "\<exists>w'. set_ptr e th this p w =
    Some (Inl (Runtime_error (if v = nullptr
      then ''segmented_offset_ptr in managed SHM cannot point to unmanaged memory''
      else ''segmented_offset_ptr cannot point across different segmented_segment_managers'')), w') \<and> cached e th w w'"
proof -
  have inv: "world_inv e w" using g by (simp add: good_def)
  obtain i d where i: "i \<in> set (segments m)" "descs (proc w) (seg i) = Some d"
    "in_range (base_vaddr d) (size_of d) this"
    using viewsE [OF s m(1)] .
  obtain p1 where p1: "find_seg (trie_cfg e) (plat e) th this (proc w) = Some (seg i, p1)" "cached e th w (w\<lparr>proc := p1\<rparr>)"
    using find_managed [OF g m(1) i] by blast
  obtain u p2 where u: "find_seg (trie_cfg e) (plat e) th p p1 = Some (u, p2)" "cached e th (w\<lparr>proc := p1\<rparr>) (w\<lparr>proc := p2\<rparr>)"
    "seg_of e (w\<lparr>proc := p1\<rparr>) p = Some u"
    using find_cached [OF cached_good [OF p1(2)], of p] by auto
  have uv: "u = v" using u(3) t(1) cached_seg_of [OF p1(2)] by simp
  have c: "cached e th w (w\<lparr>proc := p2\<rparr>)" using cached_trans [OF p1(2) u(2)] .
  have ds: "descs p2 = descs (proc w)" using c by (simp add: cached_def)
  have k: "manager d = M" "\<not> is_anon d" "seg i \<noteq> nullptr"
    using world_seg_desc [OF inv m(1) i(1)] i m(2) by auto
  show ?thesis
    using p1(1) u(1) uv ds k c p t(2) i(2) managed_seg_of(2) [OF inv m(1) i] by (auto simp: set_ptr_def Let_def)
qed

lemma high_page_unmapped:
  assumes inv: "world_inv demo_env w"
  shows "seg_of demo_env w 0x800000000000 = Some nullptr"
proof -
  let ?q = "drop_bit 12 (0x800000000000 :: u64)"
  have "trie_ready default_params (trie (proc w))" using inv by (simp add: world_inv_def reg_inv_def)
  then obtain v where v: "lookup_page default_params (trie (proc w)) ?q = Some v" using trie.lookup_total by blast
  have "v = nullptr"
  proof (rule ccontr)
    assume "v \<noteq> nullptr"
    then obtain d where r: "registered default_params linux_x86 (proc w) v d" using world_own [OF inv] v by auto
    then have f: "fits linux_x86 (base_vaddr d) (size_of d)" and sp: "seg_page default_params linux_x86 d ?q"
      using world_desc [OF inv, of v d] v by (simp_all add: registered_def desc_ok_def)
    obtain x where x: "x \<in> {page_begin linux_x86 (base_vaddr d)..<page_end linux_x86 (base_vaddr d) (size_of d)}"
      "same_page default_params x ?q"
      using sp unfolding seg_page_fits [OF f] by blast
    have "unat x < (unat (base_vaddr d) + unat (size_of d) + (2 ^ 12 - 1)) div 2 ^ 12"
      using x(1) range_ok_unat(3) [OF fits_range_ok [OF f]] by (simp add: unat_word_less)
    also have "\<dots> \<le> 2 ^ 47 div 2 ^ 12" using f unfolding fits_def by (intro div_le_mono) simp
    finally have s: "unat x < 2 ^ 35" by simp
    have "x = ?q" using same_page_covered [of x default_params ?q] x(2) s by simp
    then show False using s by simp
  qed
  then show ?thesis using v by (simp add: seg_of_def)
qed

theorem set_rejects_foreign_targets_witness:
  "\<exists>w this m w'. good demo_env 0 w \<and> managers w demo_manager = Some m \<and> views w demo_manager 0x4000 this \<and>
     seg_of demo_env w 0x800000000000 = Some nullptr \<and>
     set_ptr demo_env 0 this 0x800000000000 w =
       Some (Inl (Runtime_error ''segmented_offset_ptr in managed SHM cannot point to unmanaged memory''), w')"
proof -
  obtain w where w: "demo_good 0 w" using demo_creator [of "[]" 0 Map.empty "\<lambda>_. zero_table"] by (auto simp: live_maps_def)
  obtain this where v: "views w demo_manager 0x4000 this" using demo_view_pair [OF w] by blast
  obtain m where m: "managers w demo_manager = Some m" "\<not> anon m" using w by (auto simp: demo_good_def)
  have s: "seg_of demo_env w 0x800000000000 = Some nullptr" using high_page_unmapped w by (simp add: demo_good_def)
  show ?thesis
    using set_rejects_foreign_targets [OF demo_good_good(1) [OF w] m v _ s] m v s demo_good_good(1) [OF w] by auto
qed

text \<open>
  C22: Copying a pointer keeps its target. The copy is re-encoded for the place it lives at, so a
  pointer copied from the stack into shared memory, or between segments, resolves to the same
  address; a null pointer, or one that cannot be resolved, is copied as null, and nothing else is.
  The target must be in reach of the copy and must not be the address that the copy's encoding maps
  to the null sentinel.
\<close>

theorem copy_keeps_target:
  assumes src: "get e th other off w = Some (Inr p, w1)" and g: "good e th w1" and st: "storable e w1 this p"
  shows "\<exists>m w2 w3. copy_ptr e th this other off w = Some (Inr m, w2) \<and> (m = kNull \<longleftrightarrow> p = nullptr) \<and>
    get e th this m w2 = Some (Inr p, w3)"
proof -
  obtain m w2 w3 where "set_ptr e th this p w1 = Some (Inr m, w2)" "m = kNull \<longleftrightarrow> p = nullptr"
    "get e th this m w2 = Some (Inr p, w3)"
    using store_load [OF g st] by blast
  then show ?thesis using src by (auto simp: copy_ptr_def copy_cast_def)
qed

lemma demo_good_inv: "demo_good th w \<Longrightarrow> world_inv demo_env w"
  by (simp add: demo_good_def)

lemma demo_stack:
  assumes "world_inv demo_env w"
  shows "local_ptr demo_env w 0x800000000000" "local_origin demo_env w 0x800000000000 = 0x800000000000"
proof -
  have s: "ptr_to_vaddr linux_x86 0x800000000000 = 0x800000000000"
    by (simp add: ptr_to_vaddr_def strip_pac_def linux_x86_def)
  have "seg_of demo_env w 0x800000000000 = Some nullptr" using high_page_unmapped [OF assms] .
  then show "local_ptr demo_env w 0x800000000000" "local_origin demo_env w 0x800000000000 = 0x800000000000"
    using s by (simp_all add: local_ptr_def local_origin_def split: option.splits)
qed

theorem copy_keeps_target_witness:
  "\<exists>w this off p w1 m w2 w3. get demo_env 0 0x800000000000 off w = Some (Inr p, w1) \<and> p \<noteq> nullptr \<and>
     storable demo_env w1 this p \<and> copy_ptr demo_env 0 this 0x800000000000 off w = Some (Inr m, w2) \<and>
     get demo_env 0 this m w2 = Some (Inr p, w3)"
proof -
  obtain w where w: "demo_good 0 w" using demo_creator [of "[]" 0 Map.empty "\<lambda>_. zero_table"] by (auto simp: live_maps_def)
  obtain this p where v: "views w demo_manager 0x4000 this" "views w demo_manager 0x8000 p" "p \<noteq> nullptr"
    using demo_view_pair [OF w] by blast
  let ?off = "p - 0x800000000000"
  obtain mm where mm: "managers w demo_manager = Some mm" "\<not> anon mm" using w by (auto simp: demo_good_def)
  have "unat p < 2 ^ 47" using views_user(2) [of demo_env, OF _ mm(1) v(2)] w by (simp add: demo_good_def)
  then have "p \<noteq> 0x800000000000 + 1" by auto
  then have nk: "?off \<noteq> kNull" by (simp add: kNull_def diff_eq_eq)
  obtain w1 where g: "get demo_env 0 0x800000000000 ?off w = Some (Inr p, w1)" "cached demo_env 0 w w1"
    using get_local [OF demo_good_good(1) [OF w] demo_stack(1) [OF demo_good_inv [OF w]] nk] demo_stack(2) [OF demo_good_inv [OF w]] by auto
  have st: "storable demo_env w1 this p"
    using demo_storable(1) [OF cached_good [OF g(2)]] v demo_good_good(2) [OF w] cached_layout [OF g(2)] cached_views [OF g(2)]
    by simp
  from copy_keeps_target [OF g(1) cached_good [OF g(2)] this] show ?thesis using g(1) v(3) st by blast
qed

lemma get_null [simp]: "get e th this kNull w = Some (Inr nullptr, w)"
  by (simp add: get_def)

text \<open>
  C23: In-place arithmetic moves the pointer by whole elements without a lookup: if the pointer
  resolves to \<open>p\<close>, then after \<^verbatim>\<open>+= n\<close> it resolves to \<open>p + n * sizeof(T)\<close>, for a pointer outside
  shared memory always, and for one in shared memory as long as it stays inside one segment.
\<close>

theorem arithmetic_moves_by_elements:
  assumes g: "good e th w" and m: "m \<noteq> kNull" "plus_assign sizeof_T m n \<noteq> kNull"
    and p: "get e th this m w = Some (Inr p, w1)"
    and seg: "local_ptr e w this \<or>
      (\<exists>M mm so i d. layout_ok e w M \<and> managers w M = Some mm \<and> views w M so this \<and> i \<in> set (segments mm) \<and>
        descs (proc w) (seg i) = Some d \<and> in_range (base_vaddr d) (size_of d) p \<and>
        so + m = file_offset d + (p - base_vaddr d) \<and> in_range (base_vaddr d) (size_of d) (p + n * sizeof_T))"
  shows "\<exists>w2. get e th this (plus_assign sizeof_T m n) w = Some (Inr (p + n * sizeof_T), w2)"
  using seg
proof (elim disjE exE conjE)
  assume l: "local_ptr e w this"
  have "p = local_origin e w this + m" using get_local [OF g l m(1)] p by auto
  then show ?thesis
    using get_local [OF g l m(2)] by (auto simp: plus_assign_def inc_offset_def add.assoc)
next
  fix M mm so i d
  assume l: "layout_ok e w M" and mm: "managers w M = Some mm" and v: "views w M so this"
    and i: "i \<in> set (segments mm)" "descs (proc w) (seg i) = Some d"
    and off: "so + m = file_offset d + (p - base_vaddr d)" and r: "in_range (base_vaddr d) (size_of d) (p + n * sizeof_T)"
  have na: "\<not> anon mm" using l mm by (auto simp: layout_ok_def)
  have "so + plus_assign sizeof_T m n = file_offset d + (p + n * sizeof_T - base_vaddr d)"
    using off by (simp add: plus_assign_def inc_offset_def algebra_simps)
  then have "views w M (so + plus_assign sizeof_T m n) (p + n * sizeof_T)"
    using mm i r unfolding views_def by (intro exI [of _ mm] conjI bexI [of _ i] exI [of _ d]) simp_all
  from get_shm_mapped [OF g mm na layout_contiguous [OF l mm] v m(2) this] show ?thesis by blast
qed

theorem arithmetic_moves_by_elements_witness:
  "\<exists>w w1 w2. good demo_env 0 w \<and> get demo_env 0 0x800000000000 0x1000 w = Some (Inr 0x800000001000, w1) \<and>
     plus_assign 8 0x1000 3 = 0x1018 \<and>
     get demo_env 0 0x800000000000 (plus_assign 8 0x1000 3) w = Some (Inr (0x800000001000 + 3 * 8), w2)"
proof -
  obtain w where w: "demo_good 0 w" using demo_creator [of "[]" 0 Map.empty "\<lambda>_. zero_table"] by (auto simp: live_maps_def)
  have k: "(0x1000 :: u64) \<noteq> kNull" "plus_assign 8 0x1000 3 = 0x1018" "plus_assign 8 0x1000 3 \<noteq> kNull"
    by (simp_all add: kNull_def plus_assign_def inc_offset_def)
  obtain w1 where g: "get demo_env 0 0x800000000000 0x1000 w = Some (Inr 0x800000001000, w1)"
    using get_local [OF demo_good_good(1) [OF w] demo_stack(1) [OF demo_good_inv [OF w]] k(1)] demo_stack(2) [OF demo_good_inv [OF w]] by auto
  show ?thesis
    using arithmetic_moves_by_elements [OF demo_good_good(1) [OF w] k(1,3) g disjI1 [OF demo_stack(1) [OF demo_good_inv [OF w]]]]
      g k(2) demo_good_good(1) [OF w] by blast
qed

text \<open>
  C25: The null sentinel is not outside the encoding: in shared memory the address one byte after a
  pointer object is encoded as offset 1, so the stored pointer reads back as null. A release
  build does not notice, and so pointers to characters can be lost.
\<close>

theorem next_byte_reads_back_as_null:
  assumes "good e th w" "layout_ok e w M" "views w M so this" "views w M (so + 1) p"
  shows "p \<noteq> nullptr \<and> (\<exists>w1. set_ptr e th this p w = Some (Inr kNull, w1) \<and>
    get e th this kNull w1 = Some (Inr nullptr, w1))"
proof -
  obtain m where m: "managers w M = Some m" "\<not> anon m" using layout_manager [OF assms(2)] by blast
  have "p \<noteq> nullptr" using views_user(1) [of e, OF _ m(1) assms(4)] assms(1) by (simp add: good_def)
  moreover obtain w1 where "set_ptr e th this p w = Some (Inr kNull, w1)"
    using set_shm [OF assms(1) m assms(3,4)] by (auto simp: kNull_def)
  ultimately show ?thesis by auto
qed

theorem next_byte_reads_back_as_null_witness:
  "\<exists>w this p w1. good demo_env 0 w \<and> views w demo_manager 0x4000 this \<and> views w demo_manager (0x4000 + 1) p \<and>
     p \<noteq> nullptr \<and> set_ptr demo_env 0 this p w = Some (Inr kNull, w1) \<and> get demo_env 0 this kNull w1 = Some (Inr nullptr, w1)"
proof -
  obtain w where w: "demo_good 0 w" using demo_creator [of "[]" 0 Map.empty "\<lambda>_. zero_table"] by (auto simp: live_maps_def)
  obtain this p where v: "views w demo_manager 0x4000 this" "views w demo_manager (0x4000 + 1) p"
    using demo_views [OF w, of "0x4000"] demo_views [OF w, of "0x4000 + 1"] by auto
  show ?thesis using next_byte_reads_back_as_null [OF demo_good_good [OF w] v] v demo_good_good(1) [OF w] by blast
qed

end
