(* ===== verification/Managed_Memory.thy ===== *)
theory Managed_Memory
  imports Manager_Heap Manager_Props Offset_Ptr
begin

text \<open>
  The two classes that users see: the allocator of \<^verbatim>\<open>segmented_allocator.hpp\<close>, whose pointers are
  segmented offset pointers, and the facade \<^verbatim>\<open>segmented_managed_memory.hpp\<close>. An allocator and a
  managed memory are each the address of a manager. The \<^verbatim>\<open>operator new\<close> behind
  \<^verbatim>\<open>make_unique<seg_manager>\<close> is the argument \<open>nm\<close>, which answers null when it fails.
\<close>

section \<open>The allocator\<close>

type_synonym segmented_allocator = u64

definition new_allocator :: "u64 \<Rightarrow> segmented_allocator" where
  "new_allocator mgr = mgr"

definition rebind_allocator :: "segmented_allocator \<Rightarrow> segmented_allocator" where
  "rebind_allocator other = other"

definition alloc_allocate ::
  "'m env \<Rightarrow> nat \<Rightarrow> segmented_allocator \<Rightarrow> u64 \<Rightarrow> u64 \<Rightarrow> u64 \<Rightarrow> 'm world \<Rightarrow> ((exn + u64) \<times> 'm world) option" where
  "alloc_allocate e th mgr sizeof_T self n w =
     do {
       (r, w) \<leftarrow> allocate e th mgr (n * sizeof_T) w;
       case r of Inl x \<Rightarrow> Some (Inl x, w) | Inr raw \<Rightarrow> from_raw e th self raw w
     }"

definition alloc_deallocate ::
  "'m env \<Rightarrow> nat \<Rightarrow> segmented_allocator \<Rightarrow> u64 \<Rightarrow> u64 \<Rightarrow> u64 \<Rightarrow> 'm world \<Rightarrow> ((exn + unit) \<times> 'm world) option" where
  "alloc_deallocate e th mgr p m_offset n w =
     do {
       (r, w) \<leftarrow> get e th p m_offset w;
       case r of
         Inl x \<Rightarrow> Some (Inl Terminate, w)
       | Inr raw \<Rightarrow> do { w \<leftarrow> deallocate e th mgr raw w; Some (Inr (), w) }
     }"

definition max_size :: "u64 \<Rightarrow> u64" where
  "max_size sizeof_T = - 1 div sizeof_T"

definition alloc_eq :: "segmented_allocator \<Rightarrow> segmented_allocator \<Rightarrow> bool" where
  "alloc_eq a b \<longleftrightarrow> a = b"

definition alloc_neq :: "segmented_allocator \<Rightarrow> segmented_allocator \<Rightarrow> bool" where
  "alloc_neq a b \<longleftrightarrow> a \<noteq> b"

section \<open>The managed memory\<close>

type_synonym managed_memory = u64

definition make_manager ::
  "('m world \<Rightarrow> u64) \<Rightarrow> (u64 \<Rightarrow> 'm world \<Rightarrow> ((exn + unit) \<times> 'm world) option) \<Rightarrow> 'm world \<Rightarrow>
   ((exn + managed_memory) \<times> 'm world) option" where
  "make_manager nm ctor w =
     (let a = nm w
      in if a = nullptr then Some (Inl Bad_alloc, w)
         else do { (r, w) \<leftarrow> ctor a w; Some (case r of Inl x \<Rightarrow> Inl x | Inr _ \<Rightarrow> Inr a, w) })"

definition managed_anon ::
  "'m env \<Rightarrow> ('m world \<Rightarrow> u64) \<Rightarrow> nat \<Rightarrow> u64 \<Rightarrow> 'm world \<Rightarrow> ((exn + managed_memory) \<times> 'm world) option" where
  "managed_anon e nm th initial_size w = make_manager nm (\<lambda>a. new_manager_anon e th a initial_size) w"

definition managed_create_only ::
  "'m env \<Rightarrow> ('m world \<Rightarrow> u64) \<Rightarrow> nat \<Rightarrow> string \<Rightarrow> u64 \<Rightarrow> 'm world \<Rightarrow> ((exn + managed_memory) \<times> 'm world) option" where
  "managed_create_only e nm th name initial_size w =
     make_manager nm (\<lambda>a. new_manager_shm e th a name initial_size True) w"

definition managed_open_only ::
  "'m env \<Rightarrow> ('m world \<Rightarrow> u64) \<Rightarrow> nat \<Rightarrow> string \<Rightarrow> 'm world \<Rightarrow> ((exn + managed_memory) \<times> 'm world) option" where
  "managed_open_only e nm th name w = make_manager nm (\<lambda>a. new_manager_shm e th a name 0 False) w"

definition managed_open_or_create ::
  "'m env \<Rightarrow> ('m world \<Rightarrow> u64) \<Rightarrow> nat \<Rightarrow> string \<Rightarrow> u64 \<Rightarrow> 'm world \<Rightarrow> ((exn + managed_memory) \<times> 'm world) option" where
  "managed_open_or_create e nm th name initial_size w =
     do {
       (r, w) \<leftarrow> make_manager nm (\<lambda>a. new_manager_shm e th a name 0 False) w;
       case r of
         Inr a \<Rightarrow> Some (Inr a, w)
       | Inl x \<Rightarrow>
           if x = Terminate then Some (Inl Terminate, w)
           else make_manager nm (\<lambda>a. new_manager_shm e th a name initial_size True) w
     }"

definition managed_destroy :: "'m env \<Rightarrow> nat \<Rightarrow> managed_memory \<Rightarrow> 'm world \<Rightarrow> 'm world option" where
  "managed_destroy e th mgr w = (if mgr = nullptr then Some w else destroy_manager e th mgr w)"

definition managed_construct ::
  "'m env \<Rightarrow> nat \<Rightarrow> managed_memory \<Rightarrow> u64 \<Rightarrow> string \<Rightarrow> 'm world \<Rightarrow> ((exn + u64) \<times> 'm world) option" where
  "managed_construct e th mgr sizeof_T name w = construct e th mgr sizeof_T name w"

definition managed_find :: "'m env \<Rightarrow> managed_memory \<Rightarrow> string \<Rightarrow> 'm world \<Rightarrow> (u64 \<times> u64) option" where
  "managed_find e mgr name w = find_object e mgr name w"

definition find_or_construct ::
  "'m env \<Rightarrow> nat \<Rightarrow> managed_memory \<Rightarrow> u64 \<Rightarrow> string \<Rightarrow> 'm world \<Rightarrow> ((exn + u64) \<times> 'm world) option" where
  "find_or_construct e th mgr sizeof_T name w =
     do {
       (p, n) \<leftarrow> find_object e mgr name w;
       if p \<noteq> nullptr then Some (Inr p, w) else construct e th mgr sizeof_T name w
     }"

definition managed_destroy_object :: "'m env \<Rightarrow> managed_memory \<Rightarrow> string \<Rightarrow> 'm world \<Rightarrow> (bool \<times> 'm world) option" where
  "managed_destroy_object e mgr name w = destroy_object e mgr name w"

definition managed_allocate :: "'m env \<Rightarrow> nat \<Rightarrow> managed_memory \<Rightarrow> u64 \<Rightarrow> 'm world \<Rightarrow> ((exn + u64) \<times> 'm world) option" where
  "managed_allocate e th mgr bytes w = allocate e th mgr bytes w"

definition managed_deallocate :: "'m env \<Rightarrow> nat \<Rightarrow> managed_memory \<Rightarrow> u64 \<Rightarrow> 'm world \<Rightarrow> 'm world option" where
  "managed_deallocate e th mgr p w = deallocate e th mgr p w"

definition managed_grow :: "'m env \<Rightarrow> nat \<Rightarrow> managed_memory \<Rightarrow> u64 \<Rightarrow> 'm world \<Rightarrow> ((exn + unit) \<times> 'm world) option" where
  "managed_grow e th mgr additional_bytes w = grow e th mgr additional_bytes w"

definition managed_free_memory :: "'m env \<Rightarrow> managed_memory \<Rightarrow> 'm world \<Rightarrow> u64 option" where
  "managed_free_memory e mgr w = get_free_memory e mgr w"

definition managed_size :: "managed_memory \<Rightarrow> 'm world \<Rightarrow> u64 option" where
  "managed_size mgr w = get_size mgr w"

definition managed_segment_count :: "managed_memory \<Rightarrow> 'm world \<Rightarrow> nat option" where
  "managed_segment_count mgr w = segment_count mgr w"

definition get_allocator :: "managed_memory \<Rightarrow> segmented_allocator" where
  "get_allocator mgr = new_allocator mgr"
section \<open>Properties of the allocator\<close>

lemma cached_heap:
  "cached e th w w' \<Longrightarrow> live_blocks e v w' this = live_blocks e v w this \<and> heap_ok e v w' this = heap_ok e v w this"
  using heap_cong [of w' w e] by (simp add: cached_def)

lemma max_size_bound: "n \<le> max_size s \<longleftrightarrow> unat n * unat s < 2 ^ 64 \<or> s = 0 \<and> n = 0" if "s \<noteq> 0 \<or> n = 0"
proof (cases "s = 0")
  case False
  have m: "unat (- 1 :: u64) = 2 ^ 64 - 1" by (simp add: unsigned_minus_1_eq_mask mask_eq_exp_minus_1)
  have "n \<le> max_size s \<longleftrightarrow> unat n \<le> (2 ^ 64 - 1) div unat s" by (simp add: max_size_def word_le_nat_alt unat_div m)
  also have "\<dots> \<longleftrightarrow> unat n * unat s \<le> 2 ^ 64 - 1" using False by (simp add: less_eq_div_iff_mult_less_eq unat_gt_0)
  finally show ?thesis using False by auto
qed (use that in \<open>auto simp: max_size_def\<close>)

text \<open>
  C18: An allocation of at most \<^verbatim>\<open>max_size\<close> elements gets room for all of them: the pointer that is
  returned is not null and resolves to a fresh block of \<open>n * sizeof(T)\<close> bytes without wrap-around,
  and passing the pointer to \<^verbatim>\<open>deallocate\<close> gives exactly that block back. The block must be in reach
  of the place where the pointer is returned, and must not begin at the address that the pointer's
  encoding maps to the null sentinel.
\<close>

theorem allocator_roundtrip:
  assumes "env_ok e" "boost_laws (boost e) v" "world_inv e w" "no_stale (proc w) th" "heap_ok e v w mgr"
    and "n \<le> max_size sizeof_T" "sizeof_T \<noteq> 0"
    and "allocate e th mgr (n * sizeof_T) w = Some (Inr raw, w1)" "storable e w1 self raw"
  shows "unat (n * sizeof_T) = unat n * unat sizeof_T \<and>
    (\<exists>m w2 w3 w4. alloc_allocate e th mgr sizeof_T self n w = Some (Inr m, w2) \<and> m \<noteq> kNull \<and>
       live_blocks e v w2 mgr = insert (raw, n * sizeof_T) (live_blocks e v w mgr) \<and>
       (raw, n * sizeof_T) \<notin> live_blocks e v w mgr \<and>
       get e th self m w2 = Some (Inr raw, w3) \<and>
       alloc_deallocate e th mgr self m n w2 = Some (Inr (), w4) \<and> live_blocks e v w4 mgr = live_blocks e v w mgr)"
proof -
  have w1: "world_inv e w1" "no_stale (proc w1) th" "heap_ok e v w1 mgr" "taken e v mgr (raw, n * sizeof_T) w w1"
    using allocate_spec [OF assms(1-3,5), of th "n * sizeof_T"] assms(4,8) by auto
  have lb: "live_blocks e v w1 mgr = insert (raw, n * sizeof_T) (live_blocks e v w mgr)"
      "\<forall>y \<in> live_blocks e v w mgr. fst y \<noteq> raw" and nn: "raw \<noteq> nullptr"
    using w1(4) by (auto simp: taken_def apart_blocks_def)
  have g1: "good e th w1" using w1 by (simp add: good_def)
  obtain m w2 w3 where s: "set_ptr e th self raw w1 = Some (Inr m, w2)" "m = kNull \<longleftrightarrow> raw = nullptr" "cached e th w1 w2"
    "get e th self m w2 = Some (Inr raw, w3)" "cached e th w1 w3"
    using store_load [OF g1 assms(9)] by blast
  have run: "alloc_allocate e th mgr sizeof_T self n w = Some (Inr m, w2)"
    using assms(8) s(1) by (simp add: alloc_allocate_def from_raw_def)
  have inv3: "world_inv e w3" "no_stale (proc w3) th" using cached_good [OF s(5)] by (simp_all add: good_def)
  have lb3: "live_blocks e v w3 mgr = live_blocks e v w1 mgr" "heap_ok e v w3 mgr"
    using cached_heap [OF s(5)] w1(3) by simp_all
  then have "(raw, n * sizeof_T) \<in> live_blocks e v w3 mgr" using lb(1) by simp
  from deallocate_spec [OF assms(2) inv3 lb3(2) this]
  obtain w4 where w4: "deallocate e th mgr raw w3 = Some w4" "live_blocks e v w4 mgr = {y \<in> live_blocks e v w3 mgr. fst y \<noteq> raw}"
    by auto
  have "alloc_deallocate e th mgr self m n w2 = Some (Inr (), w4)" using s(4) w4(1) by (simp add: alloc_deallocate_def)
  moreover have "live_blocks e v w4 mgr = live_blocks e v w mgr"
    unfolding w4(2) lb3(1) lb(1) using lb(2) by auto
  moreover have "unat (n * sizeof_T) = unat n * unat sizeof_T"
    using max_size_bound [of sizeof_T n] assms(6,7) by (simp add: unat_word_ariths)
  moreover have "live_blocks e v w2 mgr = insert (raw, n * sizeof_T) (live_blocks e v w mgr)"
    using cached_heap [OF s(3)] lb(1) by simp
  moreover have "(raw, n * sizeof_T) \<notin> live_blocks e v w mgr" using lb(2) by auto
  ultimately show ?thesis using run s(2,4) nn by blast
qed

text \<open>
  C19: Beyond \<^verbatim>\<open>max_size\<close> the allocator does not throw: the product wraps around, so the caller gets
  a live block that is too short for the elements it asked for.
\<close>

theorem allocator_overflow_short_block:
  assumes "env_ok e" "boost_laws (boost e) v" "world_inv e w" "heap_ok e v w mgr"
    and "max_size sizeof_T < n" "sizeof_T \<noteq> 0" "allocate e th mgr (n * sizeof_T) w = Some (Inr raw, w1)"
  shows "alloc_allocate e th mgr sizeof_T self n w = from_raw e th self raw w1 \<and>
    (raw, n * sizeof_T) \<in> live_blocks e v w1 mgr \<and> unat (n * sizeof_T) < unat n * unat sizeof_T"
proof -
  have "taken e v mgr (raw, n * sizeof_T) w w1" using allocate_spec [OF assms(1-4), of th "n * sizeof_T"] assms(7) by auto
  moreover have "\<not> unat n * unat sizeof_T < 2 ^ 64" using max_size_bound [of sizeof_T n] assms(5,6) by auto
  then have "18446744073709551616 \<le> unat n * unat sizeof_T" by simp
  then have "unat (n * sizeof_T) < unat n * unat sizeof_T" by (rule order_less_le_trans [OF unat_lt_2p64])
  ultimately show ?thesis using assms(7) by (simp add: alloc_allocate_def taken_def)
qed

theorem allocator_roundtrip_witness:
  "\<exists>w m w2 w4. alloc_allocate demo_env 0 demo_manager 8 0x800000000000 4 w = Some (Inr m, w2) \<and>
     live_blocks demo_env bump_view w2 demo_manager = {(demo_base + 10432, 32)} \<and>
     alloc_deallocate demo_env 0 demo_manager 0x800000000000 m 4 w2 = Some (Inr (), w4) \<and>
     live_blocks demo_env bump_view w4 demo_manager = {}"
proof -
  obtain w where w: "demo_world w" using demo_creator_world by blast
  note d = demo_worldD [OF w] demo_heap [OF w]
  have laws: "boost_laws (boost demo_env) bump_view" using bump_laws by simp
  have ns: "no_stale (proc w) 0" using w by (simp add: demo_world_def)
  obtain w1 where a: "allocate demo_env 0 demo_manager (4 * 8) w = Some (Inr (demo_base + 10432), w1)"
    using demo_allocate [OF w, of 32 0] by auto
  then have w1: "good demo_env 0 w1"
    using allocate_spec [OF demo_env_ok laws d(1,5), of 0 32] ns by (auto simp: good_def)
  have k: "(4 :: u64) \<le> max_size 8" by (simp add: max_size_def unat_div word_le_nat_alt)
  have l: "local_ptr demo_env w1 0x800000000000" "local_origin demo_env w1 0x800000000000 = 0x800000000000"
    using demo_stack w1 by (auto simp: good_def)
  have nh: "demo_base + 10432 \<noteq> 0x800000000000 + 1" by (simp add: demo_base_def)
  have "\<not> (\<exists>M so. layout_ok demo_env w1 M \<and> views w1 M so 0x800000000000 \<and> views w1 M (so + 1) (demo_base + 10432))"
  proof
    assume "\<exists>M so. layout_ok demo_env w1 M \<and> views w1 M so 0x800000000000 \<and> views w1 M (so + 1) (demo_base + 10432)"
    then obtain M so where M: "layout_ok demo_env w1 M" "views w1 M so 0x800000000000" by blast
    then obtain mm where "managers w1 M = Some mm" "\<not> anon mm" using layout_manager by blast
    then have "unat (0x800000000000 :: u64) < 2 ^ 47"
      using views_user(2) [of demo_env w1 M mm, OF _ _ M(2)] w1 by (simp add: good_def)
    then show False by simp
  qed
  then have st: "storable demo_env w1 0x800000000000 (demo_base + 10432)"
    using l nh unfolding storable_def encodable_def hits_sentinel_def by auto
  have "(8 :: u64) \<noteq> 0" by simp
  from allocator_roundtrip [OF demo_env_ok laws d(1) ns d(5) k this a st] show ?thesis using d(6) by auto
qed

lemma eight_small: "(8 :: u64) \<le> 0x100"
  by simp

theorem allocator_overflow_short_block_witness:
  "\<exists>w w1. max_size 8 < (0x2000000000000001 :: u64) \<and>
     alloc_allocate demo_env 0 demo_manager 8 0x800000000000 0x2000000000000001 w = from_raw demo_env 0 0x800000000000 (demo_base + 10432) w1 \<and>
     (demo_base + 10432, 8) \<in> live_blocks demo_env bump_view w1 demo_manager"
proof -
  obtain w where w: "demo_world w" using demo_creator_world by blast
  note d = demo_worldD [OF w] demo_heap [OF w]
  have laws: "boost_laws (boost demo_env) bump_view" using bump_laws by simp
  obtain w1 where a: "allocate demo_env 0 demo_manager (0x2000000000000001 * 8) w = Some (Inr (demo_base + 10432), w1)"
  proof -
    have "(0x2000000000000001 * 8 :: u64) = 8" by simp
    then show ?thesis using that demo_allocate [OF w, of 8 0] by (metis order_refl eight_small)
  qed
  have k: "max_size 8 < (0x2000000000000001 :: u64)" by (simp add: max_size_def unat_div word_less_nat_alt)
  have "(8 :: u64) \<noteq> 0" by simp
  from allocator_overflow_short_block [OF demo_env_ok laws d(1,5) k this a, of "0x800000000000"]
  have "alloc_allocate demo_env 0 demo_manager 8 0x800000000000 0x2000000000000001 w = from_raw demo_env 0 0x800000000000 (demo_base + 10432) w1"
    "(demo_base + 10432, 0x2000000000000001 * 8) \<in> live_blocks demo_env bump_view w1 demo_manager" by blast+
  moreover have "(0x2000000000000001 * 8 :: u64) = 8" by simp
  ultimately show ?thesis using k by metis
qed
section \<open>Opening\<close>

lemma probe_then_throw:
  assumes env: "env_ok e" and inv: "world_inv e w" and m: "managers w this = Some m" "object_of e m = path" "shm_root_name m = name"
    and bad: "magic (tables w path) \<noteq> kSegmentTableMagic"
    and d: "open_shm_chunk (kernel e) (plat e) name kMinSegmentSize 0 (hist w) = (Some d, h)"
    and a: "new_sub_segment e (proc w) = a" "a \<noteq> nullptr"
  shows "\<exists>w'. open_all_segments e th this w = Some (Inl (Runtime_error ''Invalid segment table magic''), w') \<and>
    seg_of e w' (base_vaddr d) = Some a \<and> descs (proc w') a = None \<and> managers w' = managers w"
proof -
  let ?w1 = "w\<lparr>hist := h, proc := (proc w)\<lparr>descs := (descs (proc w))(a \<mapsto> d)\<rparr>\<rparr>"
  have mu: "make_unique e (open_shm_chunk (kernel e) (plat e) name kMinSegmentSize 0 (hist w)) w = (Inr a, ?w1)"
    using d a by (simp add: make_unique_def)
  have f: "(Some d, h) \<in> factories (kernel e) (plat e) name kMinSegmentSize 0 (hist w)"
    using d by (simp add: factories_def)
  have dd: "size_of d = kMinSegmentSize" "\<not> is_anon d" "file_offset d = 0"
    using d by (auto simp: open_shm_chunk_def default_sub_segment_def Let_def split: prod.splits if_splits)
  let ?adopt = "\<lambda>d. adopt_desc this (d\<lparr>is_primary := True\<rparr>)"
  obtain p where p: "register_segment (trie_cfg e) (plat e) th a (proc ?w1) = Some p"
    and pm: "primary_mapped e th this a kMinSegmentSize (upd_desc a ?adopt (?w1\<lparr>proc := p\<rparr>))"
    and sr: "same_rest w (upd_desc a ?adopt (?w1\<lparr>proc := p\<rparr>))"
    and b: "base_vaddr (the (descs (proc (upd_desc a ?adopt (?w1\<lparr>proc := p\<rparr>))) a)) = base_vaddr d"
    using probe_spec [OF env inv f a(1) [symmetric] a(2) dd refl, of th this] by blast
  define w2 where "w2 = upd_desc a ?adopt (?w1\<lparr>proc := p\<rparr>)"
  note pm2 = pm [folded w2_def] and sr2 = sr [folded w2_def] and b2 = b [folded w2_def]
  obtain d2 where d2: "registered (trie_cfg e) (plat e) (proc w2) a d2" "world_inv e w2" "base_vaddr d2 = base_vaddr d"
    using pm2 b2 by (auto simp: primary_mapped_def registered_def)
  have da: "descs (proc w2) a = Some d2" using d2(1) by (simp add: registered_def)
  have fit: "fits (plat e) (base_vaddr d2) (size_of d2)" using world_desc [OF d2(2) da] by (simp add: desc_ok_def)
  have "in_range (base_vaddr d2) (size_of d2) (base_vaddr d)"
    using fit d2(3) fits_no_wrap [OF fit] in_rangeI_unat [of "base_vaddr d2" "size_of d2" "base_vaddr d"]
    by (auto simp: fits_def unat_gt_0)
  then have own: "seg_of e w2 (base_vaddr d) = Some a"
    using registered_page [OF d2(1)] fits_base_addr [OF fit] by (simp add: seg_of_def)
  let ?w3 = "w2\<lparr>hist := destroy_sub_segment (kernel e) (plat e) d2 (hist w2), proc := (proc w2)\<lparr>descs := (descs (proc w2))(a := None)\<rparr>\<rparr>"
  have w2n: "upd_desc a ?adopt (w\<lparr>hist := h, proc := p\<rparr>) = w2" by (simp add: w2_def)
  have "tables w2 path = tables w path" using sr2 by (simp add: same_rest_def)
  then have "open_all_segments e th this w = Some (Inl (Runtime_error ''Invalid segment table magic''), ?w3)"
    using mu m a p bad da w2n by (simp add: open_all_segments_def Let_def delete_desc_def)
  then show ?thesis using own sr2 by (intro exI [of _ ?w3]) (simp add: seg_of_def same_rest_def)
qed

text \<open>
  C20: An open that finds a foreign table leaves the registry dangling: the exception destroys the
  descriptor of the probe mapping but its pages stay registered, so the next lookup of that
  address range follows a pointer to a freed descriptor and the invariant of the process is lost.
\<close>

theorem failed_open_leaves_dangling_entry:
  assumes "env_ok e" "world_inv e w" "managers w this = None"
    and "magic (tables w (get_platform_shm_path (plat e) name)) \<noteq> kSegmentTableMagic"
    and "open_shm_chunk (kernel e) (plat e) name kMinSegmentSize 0 (hist w) = (Some d, h)" "new_sub_segment e (proc w) \<noteq> nullptr"
  shows "\<exists>w'. new_manager_shm e th this name initial False w = Some (Inl (Runtime_error ''Invalid segment table magic''), w') \<and>
    seg_of e w' (base_vaddr d) = Some (new_sub_segment e (proc w)) \<and> descs (proc w') (new_sub_segment e (proc w)) = None \<and>
    \<not> world_inv e w'"
proof -
  let ?m = "\<lparr>anon = False, shm_root_name = name, segments = []\<rparr>" and ?a = "new_sub_segment e (proc w)"
  let ?w0 = "w\<lparr>managers := (managers w)(this \<mapsto> ?m)\<rparr>"
  have inv0: "world_inv e ?w0" using world_inv_fresh_manager [OF assms(2)] by simp
  obtain w1 where w1: "open_all_segments e th this ?w0 = Some (Inl (Runtime_error ''Invalid segment table magic''), w1)"
    "seg_of e w1 (base_vaddr d) = Some ?a" "descs (proc w1) ?a = None" "managers w1 = managers ?w0"
    using probe_then_throw [OF assms(1) inv0, of this ?m "get_platform_shm_path (plat e) name" name d h ?a th] assms(4-6)
    by (auto simp: object_of_def)
  let ?w' = "w1\<lparr>managers := (managers w1)(this := None)\<rparr>"
  have run: "new_manager_shm e th this name initial False w = Some (Inl (Runtime_error ''Invalid segment table magic''), ?w')"
    using w1(1,4) by (simp add: new_manager_shm_def finish_constructor_def)
  have "\<not> world_inv e ?w'"
  proof
    assume "world_inv e ?w'"
    from world_own [OF this, of _ ?a] show False using w1(2,3) assms(6) by (auto simp: seg_of_def registered_def)
  qed
  then show ?thesis using run w1(2,3) by (intro exI [of _ ?w']) (simp add: seg_of_def)
qed

theorem failed_open_leaves_dangling_entry_witness:
  "\<exists>w'. new_manager_shm demo_env 0 demo_manager ''/m'' 0 False (demo_init [] Map.empty (\<lambda>_. zero_table)) =
       Some (Inl (Runtime_error ''Invalid segment table magic''), w') \<and>
     descs (proc w') 0x5000 = None \<and> \<not> world_inv demo_env w'"
proof -
  let ?w = "demo_init [] Map.empty (\<lambda>_. zero_table) :: bump world"
  have "\<exists>d h. open_shm_chunk (kernel demo_env) (plat demo_env) ''/m'' kMinSegmentSize 0 (hist ?w) = (Some d, h)"
    using careful_map_first(2) [of "[]" "''/m''" 0] by (auto simp: open_shm_chunk_def kMinSegmentSize_def live_maps_def Let_def)
  then obtain d h where d: "open_shm_chunk (kernel demo_env) (plat demo_env) ''/m'' kMinSegmentSize 0 (hist ?w) = (Some d, h)" by blast
  have nm: "managers ?w demo_manager = None" and mg: "magic (tables ?w (get_platform_shm_path (plat demo_env) ''/m'')) \<noteq> kSegmentTableMagic"
    and na: "new_sub_segment demo_env (proc ?w) \<noteq> nullptr"
    by (simp_all add: zero_table_def kSegmentTableMagic_def careful_new_first)
  show ?thesis
    using failed_open_leaves_dangling_entry [OF demo_env_ok demo_init_inv nm mg d na, of 0 0] by (auto simp: careful_new_first)
qed
text \<open>The two attempts of \<^verbatim>\<open>open_or_create\<close>, one at a time.\<close>

lemma managed_open_throws:
  assumes "env_ok e" "world_inv e w" "managed_open_only e nm th name w = Some (Inl x, w1)"
    and "x \<noteq> Terminate" "\<not> leaves_entries x"
  shows "world_inv e w1"
proof (cases "nm w = nullptr")
  case True
  then show ?thesis using assms(2,3) by (simp add: managed_open_only_def make_manager_def)
next
  case False
  then obtain r where r: "new_manager_shm e th (nm w) name 0 False w = Some (r, w1)" "(case r of Inl y \<Rightarrow> Inl y | Inr u \<Rightarrow> Inr (nm w)) = Inl x"
    using assms(3) by (auto simp: managed_open_only_def make_manager_def Let_def split: bind_splits)
  then have "r = Inl x" by (cases r) simp_all
  then show ?thesis using open_manager_throws [OF assms(1,2) _ assms(4,5)] r(1) by blast
qed

lemma managed_create_spec:
  assumes env: "env_ok e" and inv: "world_inv e w" and nm: "\<forall>w. nm w \<noteq> nullptr \<longrightarrow> managers w (nm w) = None"
  shows "\<exists>r w'. managed_create_only e nm th name initial_size w = Some (r, w') \<and>
    (case r of
       Inl y \<Rightarrow> y \<in> {Bad_alloc, Terminate, Runtime_error ''segmented_segment_manager: failed to map SHM chunk''}
     | Inr a \<Rightarrow> world_inv e w' \<and> up_to_date e w' a \<and> usable e w' a \<and>
         fresh_shm e w' a name (max initial_size kMinSegmentSize) \<and>
         object_ready e w' (get_platform_shm_path (plat e) name) \<and>
         table_layout (tables w' (get_platform_shm_path (plat e) name)) = [(0, max initial_size kMinSegmentSize)])"
proof (cases "nm w = nullptr")
  case True
  then show ?thesis by (simp add: managed_create_only_def make_manager_def)
next
  case False
  then have "managers w (nm w) = None" using nm by blast
  from new_manager_shm_spec [OF env inv this, where th = th and name = name and initial = initial_size]
  obtain r w' where c: "new_manager_shm e th (nm w) name initial_size True w = Some (r, w')"
    and err: "\<And>x. r = Inl x \<Longrightarrow> x \<in> {Runtime_error ''segmented_segment_manager: failed to map SHM chunk'', Terminate}"
    and ok: "r = Inr () \<Longrightarrow> world_inv e w' \<and> up_to_date e w' (nm w) \<and> usable e w' (nm w) \<and>
      fresh_shm e w' (nm w) name (max initial_size kMinSegmentSize)"
    by (fastforce split: sum.splits)
  show ?thesis
  proof (cases r)
    case (Inl x)
    then show ?thesis using False c err [OF Inl]
      by (intro exI [of _ "Inl x"] exI [of _ w']) (auto simp: managed_create_only_def make_manager_def)
  next
    case (Inr y)
    then have i: "world_inv e w'" "up_to_date e w' (nm w)" "usable e w' (nm w)"
      "fresh_shm e w' (nm w) name (max initial_size kMinSegmentSize)" using ok by simp_all
    have "object_ready e w' (get_platform_shm_path (plat e) name)" using created_ready [OF i] by simp
    then show ?thesis using False c i Inr
      by (intro exI [of _ "Inr (nm w)"] exI [of _ w']) (simp add: managed_create_only_def make_manager_def fresh_shm_def)
  qed
qed

text \<open>
  C21: \<^verbatim>\<open>open_or_create\<close> first opens. When that returns, its result is the result;
  when it throws, the constructor starts the creating constructor on the state that the attempt left
  behind. Unless the attempt threw for a table with a foreign magic or for a further chunk that could
  not be mapped (\<open>leaves_entries\<close>: then descriptors were deleted that are still registered), the
  creation ends, and on success the memory is a fresh manager of at least the requested size, ready
  for other processes. Nothing is kept of an object that was already there and only failed to open:
  its table now lists the new chunk only.
\<close>

theorem open_or_create_creates:
  assumes "env_ok e" "world_inv e w" "\<forall>w. nm w \<noteq> nullptr \<longrightarrow> managers w (nm w) = None"
    and "managed_open_only e nm th name w = Some (ro, w1)"
  shows "case ro of
       Inr a \<Rightarrow> managed_open_or_create e nm th name initial_size w = Some (Inr a, w1)
     | Inl x \<Rightarrow>
         if x = Terminate then managed_open_or_create e nm th name initial_size w = Some (Inl Terminate, w1)
         else managed_open_or_create e nm th name initial_size w = managed_create_only e nm th name initial_size w1 \<and>
           (\<not> leaves_entries x \<longrightarrow>
             (\<exists>r w'. managed_open_or_create e nm th name initial_size w = Some (r, w') \<and>
               (case r of
                  Inl y \<Rightarrow> y \<in> {Bad_alloc, Terminate, Runtime_error ''segmented_segment_manager: failed to map SHM chunk''}
                | Inr a \<Rightarrow> world_inv e w' \<and> up_to_date e w' a \<and> usable e w' a \<and>
                    fresh_shm e w' a name (max initial_size kMinSegmentSize) \<and>
                    object_ready e w' (get_platform_shm_path (plat e) name) \<and>
                    table_layout (tables w' (get_platform_shm_path (plat e) name)) = [(0, max initial_size kMinSegmentSize)])))"
proof (cases ro)
  case (Inr a)
  then show ?thesis using assms(4) by (simp add: managed_open_or_create_def managed_open_only_def)
next
  case (Inl x)
  show ?thesis
  proof (cases "x = Terminate")
    case True
    then show ?thesis using Inl assms(4) by (simp add: managed_open_or_create_def managed_open_only_def)
  next
    case False
    then have run: "managed_open_or_create e nm th name initial_size w = managed_create_only e nm th name initial_size w1"
      using Inl assms(4) by (simp add: managed_open_or_create_def managed_open_only_def managed_create_only_def)
    have "world_inv e w1" if "\<not> leaves_entries x"
      by (rule managed_open_throws [OF assms(1,2) _ False that]) (use Inl assms(4) in simp)
    then show ?thesis using run Inl False managed_create_spec [OF assms(1) _ assms(3), of w1 th name initial_size] by simp
  qed
qed

text \<open>A kernel on which an object must be created before it can be opened.\<close>

definition blank_os :: os where
  "blank_os = careful_os\<lparr>sys_open := \<lambda>h path fl md. if O_CREAT \<in> set fl then int (length h) else - 1\<rparr>"

lemma blank_env_ok: "env_ok (demo_env\<lparr>kernel := blank_os\<rparr>)"
proof -
  have "mmap_ok blank_os linux_x86" using careful_mmap_ok by (simp add: mmap_ok_def blank_os_def)
  then show ?thesis using demo_env_ok by (simp add: env_ok_def)
qed

lemma blank_create:
  assumes "length h < 4000" "live_maps h = []"
  shows "\<exists>p h'. p \<noteq> nullptr \<and> Platform.shm_create blank_os linux_x86 name 0x100000 h = (p, h')"
proof -
  have "Platform.shm_create blank_os linux_x86 name 0x100000 h = Platform.shm_create careful_os linux_x86 name 0x100000 h"
    by (simp add: Platform.shm_create_def syscall_defs blank_os_def careful_open Let_def)
  then show ?thesis using careful_map_first(1) [OF assms] by simp
qed

lemma blank_open_fails:
  "\<exists>w1. managed_open_only (demo_env\<lparr>kernel := blank_os\<rparr>) (\<lambda>w. if managers w 0x9000 = None then 0x9000 else 0) 0 ''/m''
       (demo_init [] Map.empty (\<lambda>_. zero_table)) = Some (Inl (Runtime_error ''Cannot open primary segment''), w1) \<and>
     w1 = demo_init (hist w1) Map.empty (\<lambda>_. zero_table) \<and> length (hist w1) < 4000 \<and> live_maps (hist w1) = []"
proof -
  let ?e = "demo_env\<lparr>kernel := blank_os\<rparr>" and ?w = "demo_init [] Map.empty (\<lambda>_. zero_table) :: bump world"
  have o: "\<exists>ev. open_shm_chunk (kernel ?e) (plat ?e) ''/m'' kMinSegmentSize 0 [] = (None, [ev]) \<and> live_maps [ev] = []"
    by (simp add: open_shm_chunk_def shm_map_chunk_def platform_shm_open_def syscall_defs blank_os_def Let_def live_maps_def map_event_def)
  then obtain ev where ev: "open_shm_chunk blank_os linux_x86 ''/m'' kMinSegmentSize 0 [] = (None, [ev])" "live_maps [ev] = []" by auto
  show ?thesis
    by (intro exI [of _ "?w\<lparr>hist := [ev]\<rparr>"])
      (simp add: managed_open_only_def make_manager_def new_manager_shm_def open_all_segments_def finish_constructor_def make_unique_def ev)
qed

lemma blank_created:
  assumes "length h < 4000" "live_maps h = []"
  shows "\<exists>w'. managed_create_only (demo_env\<lparr>kernel := blank_os\<rparr>) (\<lambda>w. if managers w 0x9000 = None then 0x9000 else 0) 0 ''/m'' 0
     (demo_init h s t) = Some (Inr 0x9000, w')"
proof -
  let ?e = "demo_env\<lparr>kernel := blank_os\<rparr>" and ?w = "demo_init h s t"
  have inv: "world_inv ?e ?w" using demo_init_inv [of h s t] by (simp add: world_inv_def desc_ok_def seg_ok_def)
  have nm: "managers ?w 0x9000 = None" by simp
  obtain r w' where run: "new_manager_shm ?e 0 0x9000 ''/m'' 0 True ?w = Some (r, w')"
    using new_manager_shm_spec [OF blank_env_ok inv nm, where initial = 0 and th = 0 and name = "''/m''"] by blast
  obtain p h' where p: "p \<noteq> nullptr" "Platform.shm_create blank_os linux_x86 ''/m'' 0x100000 h = (p, h')"
    using blank_create [OF assms] by blast
  have "r = Inr ()" using created_when_mapped [OF run _ _ refl] p by (simp add: careful_new_first)
  then show ?thesis using run by (simp add: managed_create_only_def make_manager_def)
qed

theorem open_or_create_creates_witness:
  "\<exists>w1 w'. managed_open_only (demo_env\<lparr>kernel := blank_os\<rparr>) (\<lambda>w. if managers w 0x9000 = None then 0x9000 else 0) 0 ''/m''
       (demo_init [] Map.empty (\<lambda>_. zero_table)) = Some (Inl (Runtime_error ''Cannot open primary segment''), w1) \<and>
     managed_open_or_create (demo_env\<lparr>kernel := blank_os\<rparr>) (\<lambda>w. if managers w 0x9000 = None then 0x9000 else 0) 0 ''/m'' 0
       (demo_init [] Map.empty (\<lambda>_. zero_table)) = Some (Inr 0x9000, w') \<and>
     world_inv (demo_env\<lparr>kernel := blank_os\<rparr>) w' \<and> object_ready (demo_env\<lparr>kernel := blank_os\<rparr>) w' demo_path \<and>
     table_layout (tables w' demo_path) = [(0, 0x100000)]"
proof -
  let ?e = "demo_env\<lparr>kernel := blank_os\<rparr>" and ?nm = "\<lambda>w :: bump world. if managers w 0x9000 = None then 0x9000 else (0 :: u64)"
  let ?w = "demo_init [] Map.empty (\<lambda>_. zero_table) :: bump world"
  have inv: "world_inv ?e ?w" using demo_init_inv [of "[]" Map.empty "\<lambda>_. zero_table"] by (simp add: world_inv_def desc_ok_def seg_ok_def)
  have nm: "\<forall>w. ?nm w \<noteq> nullptr \<longrightarrow> managers w (?nm w) = None" by simp
  obtain w1 where op: "managed_open_only ?e ?nm 0 ''/m'' ?w = Some (Inl (Runtime_error ''Cannot open primary segment''), w1)"
    and w1: "w1 = demo_init (hist w1) Map.empty (\<lambda>_. zero_table)" "length (hist w1) < 4000" "live_maps (hist w1) = []"
    using blank_open_fails by blast
  obtain w' where mk: "managed_create_only ?e ?nm 0 ''/m'' 0 w1 = Some (Inr 0x9000, w')"
    using blank_created [OF w1(2,3)] w1(1) by metis
  note c = open_or_create_creates [OF blank_env_ok inv nm op, of 0]
  have "\<not> leaves_entries (Runtime_error ''Cannot open primary segment'')" by (simp add: leaves_entries_def)
  then show ?thesis using c mk op by (auto simp: demo_path_def kMinSegmentSize_def)
qed

end
