(* ===== verification/Named_Objects.thy ===== *)
theory Named_Objects
  imports Manager_Heap
begin

text \<open>
  The named objects of a manager. Each Boost manager keeps a table of names of its own; the
  multi-segment manager searches the segments in order. The theorems say when that behaves like
  one table for the whole manager, and when it does not.
\<close>

section \<open>What is relied on\<close>

definition keeps_heap :: "'m heap_view \<Rightarrow> 'm \<Rightarrow> 'm \<Rightarrow> bool" where
  "keeps_heap v s s' \<longleftrightarrow> hv_ok v s' \<and> hv_span v s' = hv_span v s \<and> hv_blocks v s' = hv_blocks v s"

definition boost_find_ok :: "'m boost_smgr \<Rightarrow> 'm heap_view \<Rightarrow> bool" where
  "boost_find_ok b v \<longleftrightarrow>
     (\<forall>n name. sm_find b name (sm_new b n) = None) \<and>
     (\<forall>s name off k. hv_ok v s \<longrightarrow> sm_find b name s = Some (off, k) \<longrightarrow> unat off < hv_span v s)"

definition boost_construct_ok :: "'m boost_smgr \<Rightarrow> 'm heap_view \<Rightarrow> bool" where
  "boost_construct_ok b v \<longleftrightarrow>
     (\<forall>s sz name r s'. hv_ok v s \<longrightarrow> sm_construct b sz name s = (r, s') \<longrightarrow> keeps_heap v s s' \<and>
        (case r of
           C_ok off \<Rightarrow> sm_find b name s = None \<and> (\<forall>n. sm_find b n s' = (if n = name then Some (off, 1) else sm_find b n s))
         | _ \<Rightarrow> \<forall>n. sm_find b n s' = sm_find b n s))"

definition boost_destroy_ok :: "'m boost_smgr \<Rightarrow> 'm heap_view \<Rightarrow> bool" where
  "boost_destroy_ok b v \<longleftrightarrow>
     (\<forall>s name ok s'. hv_ok v s \<longrightarrow> sm_destroy b name s = (ok, s') \<longrightarrow> keeps_heap v s s' \<and>
        (ok \<longleftrightarrow> sm_find b name s \<noteq> None) \<and> (\<forall>n. sm_find b n s' = (if n = name then None else sm_find b n s)))"

definition boost_names :: "'m boost_smgr \<Rightarrow> 'm heap_view \<Rightarrow> bool" where
  "boost_names b v \<longleftrightarrow> boost_find_ok b v \<and> boost_construct_ok b v \<and> boost_destroy_ok b v"

text \<open>
  The overload of Boost's \<^verbatim>\<open>construct\<close> that the code calls reports a used name by an exception of its
  own and never returns null.
\<close>

definition boost_throws :: "'m boost_smgr \<Rightarrow> 'm heap_view \<Rightarrow> bool" where
  "boost_throws b v \<longleftrightarrow>
     (\<forall>s sz name. hv_ok v s \<longrightarrow> fst (sm_construct b sz name s) \<noteq> C_null \<and>
        (sm_find b name s \<noteq> None \<longrightarrow> fst (sm_construct b sz name s) = C_throw Already_exists))"

section \<open>Names by segment\<close>

text \<open>The objects a segment holds, by name, as addresses and counts.\<close>

definition held :: "'m env \<Rightarrow> 'm world \<Rightarrow> seg_manager \<Rightarrow> seg_info \<Rightarrow> string \<rightharpoonup> u64 \<times> u64" where
  "held e w m i name =
     (case smgr_at e w m i of
        None \<Rightarrow> None
      | Some (_, s) \<Rightarrow> map_option (\<lambda>(off, k). (smgr i + off, k)) (sm_find (boost e) name s))"

lemma held_at: "smgr_at e w m i = Some (l, s) \<Longrightarrow>
   held e w m i name = map_option (\<lambda>(off, k). (smgr i + off, k)) (sm_find (boost e) name s)"
  by (simp add: held_def)

lemma held_not_null:
  assumes inv: "world_inv e w" and h: "heap_ok e v w this" and bf: "boost_find_ok (boost e) v"
    and m: "managers w this = Some m" "i \<in> set (segments m)" and x: "held e w m i name = Some (p, k)"
  shows "p \<noteq> nullptr"
proof -
  obtain d s where d: "descs (proc w) (seg i) = Some d" "smgr_at e w m i = Some (place_of e m d (smgr i), s)" "hv_ok v s"
      "in_range (base_vaddr d) (size_of d) (smgr i)" "unat (smgr i) + hv_span v s \<le> unat (base_vaddr d) + unat (size_of d)"
    using heap_okD [OF h m] by blast
  obtain off where off: "sm_find (boost e) name s = Some (off, k)" "p = smgr i + off" using x d(2) by (auto simp: held_at)
  have o': "unat off < hv_span v s" using bf d(3) off(1) unfolding boost_find_ok_def by blast
  have f: "unat (base_vaddr d) + unat (size_of d) < 2 ^ 47"
    using world_seg_desc [OF inv m] d(1) fits_no_wrap by auto
  have "unat p = unat (smgr i) + unat off" using off(2) o' d(5) f by (simp add: unat_word_ariths)
  then have "in_range (base_vaddr d) (size_of d) p" using o' d(4,5) f in_rangeI_unat by simp
  then show ?thesis using managed_seg_of(3) [OF inv m d(1)] by blast
qed

text \<open>\<^verbatim>\<open>find\<close> returns what the first segment that knows the name holds.\<close>

fun first_held :: "(seg_info \<Rightarrow> string \<rightharpoonup> u64 \<times> u64) \<Rightarrow> seg_info list \<Rightarrow> string \<Rightarrow> u64 \<times> u64" where
  "first_held f [] name = (nullptr, 0)"
| "first_held f (i # is) name = (case f i name of Some x \<Rightarrow> x | None \<Rightarrow> first_held f is name)"

lemma first_held_cong: "(\<And>i. i \<in> set is \<Longrightarrow> f i name = g i name) \<Longrightarrow> first_held f is name = first_held g is name"
  by (induction "is") (auto split: option.splits)

lemma first_held_none: "\<forall>i \<in> set is. f i name = None \<Longrightarrow> first_held f is name = (nullptr, 0)"
  by (induction "is") simp_all

lemma first_held_append:
  "first_held f (is @ js) name = (if \<forall>i \<in> set is. f i name = None then first_held f js name else first_held f is name)"
  by (induction "is") (auto split: option.splits)

lemma first_held_null: "(\<And>i x. i \<in> set is \<Longrightarrow> f i name = Some x \<Longrightarrow> fst x \<noteq> nullptr) \<Longrightarrow>
   fst (first_held f is name) = nullptr \<longleftrightarrow> (\<forall>i \<in> set is. f i name = None)"
proof (induction "is")
  case (Cons i "is")
  then show ?case using Cons.prems [of i] by (cases "f i name") auto
qed simp

lemma first_held_Some: "\<exists>i \<in> set is. f i name \<noteq> None \<Longrightarrow> \<exists>i \<in> set is. f i name = Some (first_held f is name)"
  by (induction "is") (auto split: option.splits)

lemma first_held_only:
  assumes "i \<in> set is" "f i name = Some x" "\<And>j. j \<in> set is \<Longrightarrow> j \<noteq> i \<Longrightarrow> f j name = None"
  shows "first_held f is name = x"
proof -
  have "\<exists>j \<in> set is. f j name = Some (first_held f is name)" using first_held_Some [of "is" f name] assms(1,2) by blast
  then show ?thesis using assms(2,3) by force
qed

lemma find_in_first:
  assumes inv: "world_inv e w" and h: "heap_ok e v w this" and bf: "boost_find_ok (boost e) v"
    and m: "managers w this = Some m"
  shows "set is \<subseteq> set (segments m) \<Longrightarrow> find_in e name m w is = Some (first_held (held e w m) is name)"
proof (induction "is")
  case (Cons i "is")
  then have i: "i \<in> set (segments m)" by simp
  obtain l s where l: "smgr_at e w m i = Some (l, s)" using heap_okD [OF h m i] by blast
  show ?case
    using Cons held_not_null [OF inv h bf m i, of name] l by (auto simp: held_at split: option.splits)
qed simp

lemma find_object_first:
  assumes "world_inv e w" "heap_ok e v w this" "boost_find_ok (boost e) v" "managers w this = Some m"
  shows "find_object e this name w = Some (first_held (held e w m) (segments m) name)"
  using find_in_first [OF assms subset_refl] assms(4) by (simp add: find_object_def)

section \<open>Construction\<close>

lemma held_update:
  assumes inv: "world_inv e w" and h: "heap_ok e v w this" and m: "managers w this = Some m" "i \<in> set (segments m)" "j \<in> set (segments m)"
    and l: "smgr_at e w m i = Some (l, s)"
  shows "held e (w\<lparr>smgrs := (smgrs w)(l \<mapsto> s')\<rparr>) m j =
    (if j = i then (\<lambda>n. map_option (\<lambda>(off, k). (smgr i + off, k)) (sm_find (boost e) n s')) else held e w m j)"
  using smgr_at_update [OF inv h m l, of s'] by (intro ext) (simp add: held_def)

text \<open>One segment: either it takes the object, which it did not have, or its names stay.\<close>

lemma construct_one:
  assumes names: "boost_names (boost e) v" and inv: "world_inv e w" and h: "heap_ok e v w this"
    and m: "managers w this = Some m" "i \<in> set (segments m)" and l: "smgr_at e w m i = Some (l, s)"
    and c: "sm_construct (boost e) sz name s = (r, s')" and w': "w' = w\<lparr>smgrs := (smgrs w)(l \<mapsto> s')\<rparr>"
  shows "world_inv e w' \<and> heap_ok e v w' this \<and> only_heaps w w' \<and> live_blocks e v w' this = live_blocks e v w this \<and>
    (case r of
       C_ok off \<Rightarrow> smgr i + off \<noteq> nullptr \<and> held e w m i name = None \<and>
         (\<forall>j \<in> set (segments m). held e w' m j = (if j = i then (held e w m i)(name \<mapsto> (smgr i + off, 1)) else held e w m j))
     | _ \<Rightarrow> \<forall>j \<in> set (segments m). held e w' m j = held e w m j)"
proof -
  have ok: "hv_ok v s" using heap_okD [OF h m] l by auto
  have k: "keeps_heap v s s'"
    and f: "case r of
        C_ok off \<Rightarrow> sm_find (boost e) name s = None \<and>
          (\<forall>n. sm_find (boost e) n s' = (if n = name then Some (off, 1) else sm_find (boost e) n s))
      | _ \<Rightarrow> \<forall>n. sm_find (boost e) n s' = sm_find (boost e) n s"
    using names ok c unfolding boost_names_def boost_construct_ok_def by blast+
  have s': "hv_ok v s'" "hv_span v s' = hv_span v s" "hv_blocks v s' = hv_blocks v s" using k by (simp_all add: keeps_heap_def)
  note u = heap_update [OF inv h m l s'(1,2) w']
  have live: "live_blocks e v w' this = live_blocks e v w this" using u(8,9) s'(3) by simp
  have oh: "only_heaps w w'" by (simp add: w' smgr_update_only)
  note hu = held_update [OF inv h m(1,2) _ l, of _ s', folded w']
  have old: "held e w m i = (\<lambda>n. map_option (\<lambda>(off, k). (smgr i + off, k)) (sm_find (boost e) n s))"
    using l by (intro ext) (simp add: held_at)
  have stay: "\<forall>j \<in> set (segments m). held e w' m j = held e w m j" if "\<forall>n. sm_find (boost e) n s' = sm_find (boost e) n s"
    using hu that old by simp
  show ?thesis
  proof (cases r)
    case (C_ok off)
    have new: "\<forall>j \<in> set (segments m). held e w' m j = (if j = i then (held e w m i)(name \<mapsto> (smgr i + off, 1)) else held e w m j)"
      using hu f C_ok old by (auto intro!: ext)
    have mm: "managers w' this = Some m" using u(3) m by simp
    have bf: "boost_find_ok (boost e) v" using names by (simp add: boost_names_def)
    have "smgr i + off \<noteq> nullptr" using held_not_null [OF u(1,2) bf mm m(2), of name] new m(2) by simp
    then show ?thesis using u(1,2) oh live new f C_ok old by simp
  qed (use u(1,2) oh live stay f in simp_all)
qed

lemma construct_in_spec:
  assumes names: "boost_names (boost e) v"
    and "world_inv e w" "heap_ok e v w this" "managers w this = Some m" "set is \<subseteq> set (segments m)"
  shows "\<exists>r w'. construct_in e sz name m is w = Some (r, w') \<and> world_inv e w' \<and> heap_ok e v w' this \<and> only_heaps w w' \<and>
    live_blocks e v w' this = live_blocks e v w this \<and>
    (case r of Inl x \<Rightarrow> \<forall>j \<in> set (segments m). held e w' m j = held e w m j
     | Inr p \<Rightarrow> if p = nullptr then \<forall>j \<in> set (segments m). held e w' m j = held e w m j
     else \<exists>i \<in> set (segments m). held e w m i name = None \<and>
       (\<forall>j \<in> set (segments m). held e w' m j = (if j = i then (held e w m i)(name \<mapsto> (p, 1)) else held e w m j)))"
  using assms(2-)
proof (induction "is" arbitrary: w)
  case (Cons i "is")
  have i: "i \<in> set (segments m)" "set is \<subseteq> set (segments m)" using Cons.prems(4) by auto
  obtain l s where l: "smgr_at e w m i = Some (l, s)" using heap_okD [OF Cons.prems(2,3) i(1)] by blast
  obtain r s' where c: "sm_construct (boost e) sz name s = (r, s')" by fastforce
  let ?w1 = "w\<lparr>smgrs := (smgrs w)(l \<mapsto> s')\<rparr>"
  note one = construct_one [OF names Cons.prems(1-3) i(1) l c refl]
  consider (thrown) x where "r = C_throw x" | (ok) off where "r = C_ok off" | (cont) "r = C_null \<or> r = C_bad_alloc"
    by (cases r) auto
  then show ?case
  proof cases
    case (thrown x)
    then have run: "construct_in e sz name m (i # is) w = Some (Inl x, ?w1)" using l c by simp
    show ?thesis by (intro exI [of _ "Inl x"] exI [of _ ?w1] conjI run) (use one thrown in auto)
  next
    case r: (ok off)
    have run: "construct_in e sz name m (i # is) w = Some (Inr (smgr i + off), ?w1)" using l c r one by simp
    show ?thesis by (intro exI [of _ "Inr (smgr i + off)"] exI [of _ ?w1] conjI run) (use one r i(1) in auto)
  next
    case cont
    have h1: "\<forall>j \<in> set (segments m). held e ?w1 m j = held e w m j"
      and w1: "world_inv e ?w1" "heap_ok e v ?w1 this" "only_heaps w ?w1" "live_blocks e v ?w1 this = live_blocks e v w this"
      using one cont by auto
    have "managers ?w1 this = Some m" using Cons.prems(3) by simp
    then obtain q w' where w': "construct_in e sz name m is ?w1 = Some (q, w')" "world_inv e w'" "heap_ok e v w' this"
      "only_heaps ?w1 w'" "live_blocks e v w' this = live_blocks e v ?w1 this"
      "case q of Inl x \<Rightarrow> \<forall>j \<in> set (segments m). held e w' m j = held e ?w1 m j
       | Inr p \<Rightarrow> if p = nullptr then \<forall>j \<in> set (segments m). held e w' m j = held e ?w1 m j
       else \<exists>i \<in> set (segments m). held e ?w1 m i name = None \<and>
         (\<forall>j \<in> set (segments m). held e w' m j = (if j = i then (held e ?w1 m i)(name \<mapsto> (p, 1)) else held e ?w1 m j))"
      using Cons.IH [OF w1(1,2) _ i(2)] by blast
    have run: "construct_in e sz name m (i # is) w = Some (q, w')" using l c cont w'(1) by auto
    have held: "case q of Inl x \<Rightarrow> \<forall>j \<in> set (segments m). held e w' m j = held e w m j
       | Inr p \<Rightarrow> if p = nullptr then \<forall>j \<in> set (segments m). held e w' m j = held e w m j
       else \<exists>i \<in> set (segments m). held e w m i name = None \<and>
         (\<forall>j \<in> set (segments m). held e w' m j = (if j = i then (held e w m i)(name \<mapsto> (p, 1)) else held e w m j))"
    proof (cases "\<exists>p. q = Inr p \<and> p \<noteq> nullptr")
      case True
      then obtain p k where p: "q = Inr p" "p \<noteq> nullptr" and k: "k \<in> set (segments m)" "held e ?w1 m k name = None"
        "\<forall>j \<in> set (segments m). held e w' m j = (if j = k then (held e ?w1 m k)(name \<mapsto> (p, 1)) else held e ?w1 m j)"
        using w'(6) by auto
      have eq: "held e ?w1 m j = held e w m j" if "j \<in> set (segments m)" for j using h1 that by blast
      have "held e w' m j = (if j = k then (held e w m k)(name \<mapsto> (p, 1)) else held e w m j)" if "j \<in> set (segments m)" for j
        using k(3) that eq [OF that] eq [OF k(1)] by simp
      moreover have "held e w m k name = None" using k(2) eq [OF k(1)] by simp
      ultimately show ?thesis using p k(1) by auto
    qed (use w'(6) h1 in \<open>auto split: sum.splits if_splits\<close>)
    show ?thesis
      by (intro exI [of _ q] exI [of _ w'] conjI run w'(2,3) held)
        (use w'(4,5) w1(3,4) only_heaps_trans in simp_all)
  qed
qed simp

text \<open>The names before an operation, for the segments after it: a segment that was added had none.\<close>

definition held_before :: "'m env \<Rightarrow> 'm world \<Rightarrow> seg_manager \<Rightarrow> seg_info \<Rightarrow> string \<rightharpoonup> u64 \<times> u64" where
  "held_before e w m j = (if j \<in> set (segments m) then held e w m j else Map.empty)"

definition constructed ::
  "'m env \<Rightarrow> u64 \<Rightarrow> seg_manager \<Rightarrow> string \<Rightarrow> u64 \<Rightarrow> 'm world \<Rightarrow> 'm world \<Rightarrow> bool" where
  "constructed e this m name p w w' \<longleftrightarrow>
     (\<exists>new i. managers w' this = Some (m\<lparr>segments := segments m @ new\<rparr>) \<and> set new \<inter> set (segments m) = {} \<and>
        i \<in> set (segments m @ new) \<and> held_before e w m i name = None \<and>
        (\<forall>j \<in> set (segments m @ new). held e w' m j =
          (if j = i then (held_before e w m i)(name \<mapsto> (p, 1)) else held_before e w m j)))"

lemma held_segments [simp]: "held e w (m\<lparr>segments := x\<rparr>) = held e w m"
  by (intro ext) (simp add: held_def)

lemma held_only_heaps: "held e (w\<lparr>prefetch := c\<rparr>) = held e w"
  using heap_cong(1) [of "w\<lparr>prefetch := c\<rparr>" w e] by (intro ext) (simp add: held_def)

lemma extends_held:
  assumes bf: "boost_find_ok (boost e) v" and x: "extends e this w w'" and m: "managers w this = Some m"
  shows "\<exists>new. managers w' this = Some (m\<lparr>segments := segments m @ new\<rparr>) \<and> set new \<inter> set (segments m) = {} \<and>
    (\<forall>j \<in> set (segments m @ new). held e w' m j = held_before e w m j)"
proof -
  obtain new where new: "managers w' this = Some (m\<lparr>segments := segments m @ new\<rparr>)"
    "\<forall>j \<in> set (segments m). smgr_at e w' m j = smgr_at e w m j"
    "\<forall>i \<in> set new. i \<notin> set (segments m) \<and> (\<exists>l n. smgr_at e w' m i = Some (l, sm_new (boost e) n))"
    using x m by (auto simp: extends_def)
  have "held e w' m j = held_before e w m j" if j: "j \<in> set (segments m @ new)" for j
  proof (cases "j \<in> set (segments m)")
    case True
    then show ?thesis using new(2) by (intro ext) (simp add: held_before_def held_def)
  next
    case False
    then obtain l n where "smgr_at e w' m j = Some (l, sm_new (boost e) n)" using new(3) j by auto
    then show ?thesis using bf False by (intro ext) (simp add: held_before_def held_at boost_find_ok_def)
  qed
  then show ?thesis using new(1,3) by (intro exI [of _ new]) auto
qed

text \<open>The second attempt, in the last segment after the growth.\<close>

lemma construct_retry:
  assumes names: "boost_names (boost e) v" and m: "managers w this = Some m" and m1: "managers w1 this = Some m"
    and same: "\<forall>j \<in> set (segments m). held e w1 m j = held e w m j"
    and first: "construct_in e sz name m (segments m) w = Some (Inr nullptr, w1)"
    and g: "grow e th this (sz + 1024) w1 = Some (Inr (), w2)"
    and inv: "world_inv e w2" and h: "heap_ok e v w2 this"
    and live: "live_blocks e v w2 this = live_blocks e v w this" and x: "extends e this w1 w2"
  shows "\<exists>r w'. construct e th this sz name w = Some (r, w') \<and> world_inv e w' \<and>
    (\<forall>p. r = Inr p \<longrightarrow> p \<noteq> nullptr \<longrightarrow>
      heap_ok e v w' this \<and> live_blocks e v w' this = live_blocks e v w this \<and> constructed e this m name p w w')"
proof -
  have bf: "boost_find_ok (boost e) v" using names by (simp add: boost_names_def)
  obtain new where new: "managers w2 this = Some (m\<lparr>segments := segments m @ new\<rparr>)" "set new \<inter> set (segments m) = {}"
    "\<forall>j \<in> set (segments m @ new). held e w2 m j = held_before e w1 m j"
    using extends_held [OF bf x m1] by blast
  let ?m2 = "m\<lparr>segments := segments m @ new\<rparr>"
  have hb: "held_before e w1 m j = held_before e w m j" for j using same by (simp add: held_before_def)
  have "segments ?m2 \<noteq> []" using h new(1) by (auto simp: heap_ok_def)
  define i where "i = last (segments ?m2)"
  have i: "i \<in> set (segments ?m2)" using \<open>segments ?m2 \<noteq> []\<close> last_in_set i_def by metis
  obtain l s where l: "smgr_at e w2 ?m2 i = Some (l, s)" using heap_okD [OF h new(1) i] by blast
  obtain q s' where q: "sm_construct (boost e) sz name s = (q, s')" by fastforce
  let ?w3 = "w2\<lparr>smgrs := (smgrs w2)(l \<mapsto> s')\<rparr>"
  note one = construct_one [OF names inv h new(1) i l q refl]
  have run: "construct e th this sz name w =
      Some (case q of C_ok off \<Rightarrow> Inr (smgr i + off) | C_null \<Rightarrow> Inr nullptr | C_bad_alloc \<Rightarrow> Inl Bad_alloc
        | C_throw x \<Rightarrow> Inl x, ?w3)"
    using m first g new(1) l q by (cases q) (simp_all add: construct_def Let_def i_def)
  show ?thesis
  proof (cases "\<exists>off. q = C_ok off")
    case True
    then obtain off where off: "q = C_ok off" by blast
    have hc: "held e w2 m i name = None"
      "\<forall>j \<in> set (segments m @ new). held e ?w3 m j = (if j = i then (held e w2 m i)(name \<mapsto> (smgr i + off, 1)) else held e w2 m j)"
      using one off by simp_all
    have "constructed e this m name (smgr i + off) w ?w3"
      unfolding constructed_def using new i hc hb by (intro exI [of _ new] exI [of _ i]) auto
    then show ?thesis using run off one live by auto
  next
    case False
    then show ?thesis using run one by (cases q) auto
  qed
qed

lemma construct_spec:
  assumes env: "env_ok e" and bn: "boost_new_ok (boost e) v" and names: "boost_names (boost e) v"
    and inv: "world_inv e w" and h: "heap_ok e v w this" and m: "managers w this = Some m"
  shows "\<exists>r w'. construct e th this sz name w = Some (r, w') \<and> world_inv e w' \<and>
    (\<forall>p. r = Inr p \<longrightarrow> p \<noteq> nullptr \<longrightarrow>
      heap_ok e v w' this \<and> live_blocks e v w' this = live_blocks e v w this \<and> constructed e this m name p w w')"
proof -
  obtain c w1 where c: "construct_in e sz name m (segments m) w = Some (c, w1)" "world_inv e w1" "heap_ok e v w1 this" "only_heaps w w1"
    "live_blocks e v w1 this = live_blocks e v w this"
    and res: "case c of Inl x \<Rightarrow> \<forall>j \<in> set (segments m). held e w1 m j = held e w m j
     | Inr p \<Rightarrow> if p = nullptr then \<forall>j \<in> set (segments m). held e w1 m j = held e w m j
     else \<exists>i \<in> set (segments m). held e w m i name = None \<and>
       (\<forall>j \<in> set (segments m). held e w1 m j = (if j = i then (held e w m i)(name \<mapsto> (p, 1)) else held e w m j))"
    using construct_in_spec [OF names inv h m subset_refl] by blast
  have m1: "managers w1 this = Some m" using only_heapsD [OF c(4)] m by simp
  consider (thrown) x where "c = Inl x" | (ok) p where "c = Inr p" "p \<noteq> nullptr" | (full) "c = Inr nullptr"
    by (cases c) auto
  then show ?thesis
  proof cases
    case (thrown x)
    then show ?thesis using m c(1,2) by (auto simp: construct_def)
  next
    case (ok p)
    then have run: "construct e th this sz name w = Some (Inr p, w1)" using m c(1) by (simp add: construct_def)
    obtain i where "i \<in> set (segments m)" "held e w m i name = None"
       "\<forall>j \<in> set (segments m). held e w1 m j = (if j = i then (held e w m i)(name \<mapsto> (p, 1)) else held e w m j)"
      using res ok by auto
    then have "constructed e this m name p w w1"
      using m1 unfolding constructed_def by (intro exI [of _ "[]"] exI [of _ i]) (simp add: held_before_def)
    then show ?thesis using run c(2,3,5) by auto
  next
    case full
    then have same: "\<forall>j \<in> set (segments m). held e w1 m j = held e w m j" using res by simp
    obtain r w2 where g: "grow e th this (sz + 1024) w1 = Some (r, w2)" "world_inv e w2"
      "r \<noteq> Inl (Runtime_error ''Too many sub-segments'') \<longrightarrow>
        heap_ok e v w2 this \<and> live_blocks e v w2 this = live_blocks e v w1 this \<and> extends e this w1 w2"
      using grow_heap [OF env bn c(2,3)] by blast
    show ?thesis
    proof (cases r)
      case (Inl x)
      then have "construct e th this sz name w = Some (Inl x, w2)" using m c(1) full g(1) by (simp add: construct_def)
      then show ?thesis using g(2) by auto
    next
      case (Inr y)
      then show ?thesis
        using construct_retry [OF names m m1 same c(1) [unfolded full] _ g(2)] g c(5) by simp
    qed
  qed
qed

lemma construct_find:
  assumes "env_ok e" "boost_laws (boost e) v" "boost_names (boost e) v" "world_inv e w" "heap_ok e v w this"
    and "find_object e this name w = Some (nullptr, k)" "construct e th this sz name w = Some (Inr p, w')" "p \<noteq> nullptr"
  shows "find_object e this name w' = Some (p, 1) \<and> live_blocks e v w' this = live_blocks e v w this \<and>
    (\<forall>n. n \<noteq> name \<longrightarrow> find_object e this n w' = find_object e this n w)"
proof -
  have bn: "boost_new_ok (boost e) v" and bf: "boost_find_ok (boost e) v" using assms(2,3) by (simp_all add: boost_laws_def boost_names_def)
  obtain m where m: "managers w this = Some m" using assms(5) by (auto simp: heap_ok_def)
  have w': "world_inv e w'" "heap_ok e v w' this" "live_blocks e v w' this = live_blocks e v w this" "constructed e this m name p w w'"
    using construct_spec [OF assms(1) bn assms(3-5) m, of th sz name] assms(7,8) by auto
  obtain new i where new: "managers w' this = Some (m\<lparr>segments := segments m @ new\<rparr>)" "set new \<inter> set (segments m) = {}"
      "i \<in> set (segments m @ new)"
    and held: "\<forall>j \<in> set (segments m @ new). held e w' m j =
          (if j = i then (held_before e w m i)(name \<mapsto> (p, 1)) else held_before e w m j)"
    using w'(4) unfolding constructed_def by blast
  note f = find_object_first [OF assms(4,5) bf m] and f' = find_object_first [OF w'(1,2) bf new(1), simplified]
  have "fst (first_held (held e w m) (segments m) name) = nullptr" using f [of name] assms(6) by (metis fst_conv option.inject)
  then have absent: "\<forall>j \<in> set (segments m). held e w m j name = None"
    using first_held_null [of "segments m" "held e w m" name] held_not_null [OF assms(4,5) bf m] by fastforce
  have "first_held (held e w' m) (segments m @ new) name = (p, 1)"
    by (rule first_held_only [OF new(3)]) (use held new(3) absent in \<open>auto simp: held_before_def\<close>)
  moreover have "first_held (held e w' m) (segments m @ new) n = first_held (held e w m) (segments m) n" if n: "n \<noteq> name" for n
  proof -
    have "first_held (held e w' m) (segments m @ new) n = first_held (held_before e w m) (segments m @ new) n"
      by (rule first_held_cong) (use held n in \<open>auto split: if_splits\<close>)
    also have "\<dots> = first_held (held_before e w m) (segments m) n"
    proof -
      have "first_held (held_before e w m) new n = (nullptr, 0)"
        using new(2) by (intro first_held_none) (auto simp: held_before_def)
      moreover have "first_held (held_before e w m) (segments m) n = (nullptr, 0)"
        if "\<forall>j \<in> set (segments m). held_before e w m j n = None"
        using that by (rule first_held_none)
      ultimately show ?thesis by (simp add: first_held_append)
    qed
    also have "\<dots> = first_held (held e w m) (segments m) n" by (rule first_held_cong) (simp add: held_before_def)
    finally show ?thesis .
  qed
  ultimately show ?thesis using f f' w'(3) by simp
qed
section \<open>Properties\<close>

text \<open>
  C15: Construct then find: if no segment knows the name, an object that \<^verbatim>\<open>construct\<close> returns is
  the one that \<^verbatim>\<open>find\<close> returns afterwards, with count 1, also when the manager had to grow for it;
  every other name is found as before and no allocated block is touched.
\<close>

theorem construct_then_find:
  assumes "env_ok e" "boost_laws (boost e) v" "boost_names (boost e) v" "world_inv e w" "heap_ok e v w this"
    and "find_object e this name w = Some (nullptr, k)" "construct e th this sz name w = Some (Inr p, w')" "p \<noteq> nullptr"
  shows "find_object e this name w' = Some (p, 1) \<and> live_blocks e v w' this = live_blocks e v w this \<and>
    (\<forall>n. n \<noteq> name \<longrightarrow> find_object e this n w' = find_object e this n w)"
  by (rule construct_find [OF assms])

section \<open>Destruction\<close>

lemma destroy_in_spec:
  assumes names: "boost_names (boost e) v" and inv: "world_inv e w" and h: "heap_ok e v w this" and m: "managers w this = Some m"
  shows "set is \<subseteq> set (segments m) \<Longrightarrow> \<exists>b w'. destroy_in e name m is w = Some (b, w') \<and> world_inv e w' \<and> heap_ok e v w' this \<and>
    only_heaps w w' \<and> live_blocks e v w' this = live_blocks e v w this \<and> (b \<longleftrightarrow> (\<exists>i \<in> set is. held e w m i name \<noteq> None)) \<and>
    (if b then \<exists>i \<in> set (segments m). held e w m i name \<noteq> None \<and>
         (\<forall>j \<in> set (segments m). held e w' m j = (if j = i then (held e w m i)(name := None) else held e w m j))
     else \<forall>j \<in> set (segments m). held e w' m j = held e w m j)"
  using inv h m
proof (induction "is" arbitrary: w)
  case (Cons i "is")
  have i: "i \<in> set (segments m)" "set is \<subseteq> set (segments m)" using Cons.prems(1) by auto
  obtain l s where l: "smgr_at e w m i = Some (l, s)" "hv_ok v s" using heap_okD [OF Cons.prems(3,4) i(1)] by blast
  obtain ok s' where c: "sm_destroy (boost e) name s = (ok, s')" by fastforce
  let ?w1 = "w\<lparr>smgrs := (smgrs w)(l \<mapsto> s')\<rparr>"
  have k: "keeps_heap v s s'" "ok \<longleftrightarrow> sm_find (boost e) name s \<noteq> None"
    "\<forall>n. sm_find (boost e) n s' = (if n = name then None else sm_find (boost e) n s)"
    using names l(2) c unfolding boost_names_def boost_destroy_ok_def by blast+
  have s': "hv_ok v s'" "hv_span v s' = hv_span v s" "hv_blocks v s' = hv_blocks v s" using k(1) by (simp_all add: keeps_heap_def)
  note u = heap_update [OF Cons.prems(2-4) i(1) l(1) s'(1,2) refl]
  have live: "live_blocks e v ?w1 this = live_blocks e v w this" unfolding u(8,9) s'(3) by simp
  have old: "held e w m i = (\<lambda>n. map_option (\<lambda>(off, k). (smgr i + off, k)) (sm_find (boost e) n s))"
    using l(1) by (intro ext) (simp add: held_at)
  have hu: "held e ?w1 m j = (if j = i then (held e w m i)(name := None) else held e w m j)" if "j \<in> set (segments m)" for j
    using held_update [OF Cons.prems(2-4) i(1) that l(1), of s'] k(3) old by (auto intro!: ext)
  show ?case
  proof (cases ok)
    case True
    then have run: "destroy_in e name m (i # is) w = Some (True, ?w1)" using l(1) c by simp
    have "held e w m i name \<noteq> None" using k(2) True old by simp
    then show ?thesis
      by (intro exI [of _ True] exI [of _ ?w1] conjI run u(1,2)) (use hu live i(1) smgr_update_only in auto)
  next
    case False
    then have no: "held e w m i name = None" using k(2) False old by (cases "sm_find (boost e) name s") auto
    then have same: "\<forall>j \<in> set (segments m). held e ?w1 m j = held e w m j" using hu by (auto simp: fun_upd_idem)
    have "managers ?w1 this = Some m" using Cons.prems(4) by simp
    then obtain b w' where w': "destroy_in e name m is ?w1 = Some (b, w')" "world_inv e w'" "heap_ok e v w' this" "only_heaps ?w1 w'"
      "live_blocks e v w' this = live_blocks e v ?w1 this" "b \<longleftrightarrow> (\<exists>i \<in> set is. held e ?w1 m i name \<noteq> None)"
      "if b then \<exists>i \<in> set (segments m). held e ?w1 m i name \<noteq> None \<and>
           (\<forall>j \<in> set (segments m). held e w' m j = (if j = i then (held e ?w1 m i)(name := None) else held e ?w1 m j))
       else \<forall>j \<in> set (segments m). held e w' m j = held e ?w1 m j"
      using Cons.IH [OF i(2) u(1,2)] by blast
    have run: "destroy_in e name m (i # is) w = Some (b, w')" using l(1) c False w'(1) by simp
    show ?thesis
    proof (intro exI [of _ b] exI [of _ w'] conjI run w'(2,3))
      show "only_heaps w w'" using only_heaps_trans [OF smgr_update_only w'(4)] .
      show "live_blocks e v w' this = live_blocks e v w this" using w'(5) live by simp
      have "held e ?w1 m j = held e w m j" if "j \<in> set is" for j using same i(2) that by blast
      then show "b \<longleftrightarrow> (\<exists>i \<in> set (i # is). held e w m i name \<noteq> None)" using w'(6) no by simp
    qed (use w'(7) same in \<open>auto split: if_splits\<close>)
  qed
qed auto

text \<open>A manager whose segments agree on who holds a name.\<close>

definition unique_name :: "'m env \<Rightarrow> 'm world \<Rightarrow> u64 \<Rightarrow> string \<Rightarrow> bool" where
  "unique_name e w this name \<longleftrightarrow>
     (\<forall>m. managers w this = Some m \<longrightarrow>
       (\<forall>i \<in> set (segments m). \<forall>j \<in> set (segments m). held e w m i name \<noteq> None \<longrightarrow> held e w m j name \<noteq> None \<longrightarrow> i = j))"

lemma destroy_object_spec:
  assumes names: "boost_names (boost e) v" and inv: "world_inv e w" and h: "heap_ok e v w this" and u: "unique_name e w this name"
    and q: "find_object e this name w = Some (q, k)"
  shows "\<exists>w'. destroy_object e this name w = Some (q \<noteq> nullptr, w') \<and> world_inv e w' \<and> heap_ok e v w' this \<and>
    only_heaps w w' \<and> live_blocks e v w' this = live_blocks e v w this \<and>
    find_object e this name w' = Some (nullptr, 0) \<and>
    (\<forall>n. n \<noteq> name \<longrightarrow> find_object e this n w' = find_object e this n w \<and> (unique_name e w this n \<longrightarrow> unique_name e w' this n)) \<and>
    unique_name e w' this name"
proof -
  have bf: "boost_find_ok (boost e) v" using names by (simp add: boost_names_def)
  obtain m where m: "managers w this = Some m" using h by (auto simp: heap_ok_def)
  obtain b w' where w': "destroy_in e name m (segments m) w = Some (b, w')" "world_inv e w'" "heap_ok e v w' this" "only_heaps w w'"
      "live_blocks e v w' this = live_blocks e v w this" "b \<longleftrightarrow> (\<exists>i \<in> set (segments m). held e w m i name \<noteq> None)"
    and res: "if b then \<exists>i \<in> set (segments m). held e w m i name \<noteq> None \<and>
         (\<forall>j \<in> set (segments m). held e w' m j = (if j = i then (held e w m i)(name := None) else held e w m j))
       else \<forall>j \<in> set (segments m). held e w' m j = held e w m j"
    using destroy_in_spec [OF names inv h m subset_refl] by blast
  have m': "managers w' this = Some m" using only_heapsD [OF w'(4)] m by simp
  note f = find_object_first [OF inv h bf m] and f' = find_object_first [OF w'(2,3) bf m']
  have "fst (first_held (held e w m) (segments m) name) = q" using f [of name] q by (metis fst_conv option.inject)
  then have b: "b \<longleftrightarrow> q \<noteq> nullptr"
    using w'(6) first_held_null [of "segments m" "held e w m" name] held_not_null [OF inv h bf m] by fastforce
  have gone: "\<forall>j \<in> set (segments m). held e w' m j name = None"
  proof (cases b)
    case True
    then obtain i where i: "i \<in> set (segments m)" "held e w m i name \<noteq> None"
       "\<forall>j \<in> set (segments m). held e w' m j = (if j = i then (held e w m i)(name := None) else held e w m j)"
      using res by auto
    then have "held e w m j name = None" if "j \<in> set (segments m)" "j \<noteq> i" for j
      using u m that unfolding unique_name_def by blast
    then show ?thesis using i(3) by auto
  next
    case False
    then have "\<forall>j \<in> set (segments m). held e w m j name = None" using w'(6) by blast
    then show ?thesis using res False by simp
  qed
  have other: "\<forall>j \<in> set (segments m). held e w' m j n = held e w m j n" if "n \<noteq> name" for n
    using res that by (auto split: if_splits)
  have "find_object e this name w' = Some (nullptr, 0)" using f' first_held_none [of "segments m" "held e w' m" name] gone by simp
  moreover have "find_object e this n w' = find_object e this n w" if "n \<noteq> name" for n
    using f f' first_held_cong [of "segments m" "held e w' m" n "held e w m"] other [OF that] by simp
  moreover have "unique_name e w this n \<longrightarrow> unique_name e w' this n" if "n \<noteq> name" for n
    using other [OF that] m m' by (simp add: unique_name_def)
  moreover have "unique_name e w' this name" using gone m' by (simp add: unique_name_def)
  moreover have "destroy_object e this name w = Some (q \<noteq> nullptr, w')" using m w'(1) b by (simp add: destroy_object_def)
  ultimately show ?thesis using w'(2-5) by blast
qed

text \<open>
  \<^verbatim>\<open>destroy\<close> answers whether the name was known and removes it: afterwards \<^verbatim>\<open>find\<close> returns null,
  while every other name and every allocated block is as before. This needs the name to be held
  by one segment only.
\<close>

lemma destroy_removes_object:
  assumes "boost_names (boost e) v" "world_inv e w" "heap_ok e v w this" "unique_name e w this name"
    and "find_object e this name w = Some (q, k)"
  shows "\<exists>w'. destroy_object e this name w = Some (q \<noteq> nullptr, w') \<and> world_inv e w' \<and> heap_ok e v w' this \<and>
    find_object e this name w' = Some (nullptr, 0) \<and> live_blocks e v w' this = live_blocks e v w this \<and>
    (\<forall>n. n \<noteq> name \<longrightarrow> find_object e this n w' = find_object e this n w)"
  using destroy_object_spec [OF assms] by blast

text \<open>
  The loop for a name that one of its segments holds, when Boost throws for a used name: it does not
  run through, and it throws when the first segment holds the name.
\<close>

lemma construct_in_used:
  assumes names: "boost_names (boost e) v" and throws: "boost_throws (boost e) v"
    and "world_inv e w" "heap_ok e v w this" "managers w this = Some m" "set is \<subseteq> set (segments m)"
    and "\<exists>j \<in> set is. held e w m j name \<noteq> None" "construct_in e sz name m is w = Some (r, w')"
  shows "r \<noteq> Inr nullptr \<and> (held e w m (hd is) name \<noteq> None \<longrightarrow> r = Inl Already_exists)"
  using assms(3-)
proof (induction "is" arbitrary: w)
  case (Cons i "is")
  have i: "i \<in> set (segments m)" "set is \<subseteq> set (segments m)" using Cons.prems(4) by auto
  obtain l s where l: "smgr_at e w m i = Some (l, s)" "hv_ok v s" using heap_okD [OF Cons.prems(2,3) i(1)] by blast
  obtain q s' where c: "sm_construct (boost e) sz name s = (q, s')" by fastforce
  let ?w1 = "w\<lparr>smgrs := (smgrs w)(l \<mapsto> s')\<rparr>"
  note one = construct_one [OF names Cons.prems(1-3) i(1) l(1) c refl]
  have q: "q \<noteq> C_null" "sm_find (boost e) name s \<noteq> None \<longrightarrow> q = C_throw Already_exists"
    using throws l(2) c unfolding boost_throws_def by (metis fst_conv)+
  have hd: "held e w m i name \<noteq> None \<longrightarrow> q = C_throw Already_exists" using q(2) l(1) by (simp add: held_at)
  show ?case
  proof (cases "q = C_bad_alloc")
    case True
    have w1: "world_inv e ?w1" "heap_ok e v ?w1 this" "\<forall>j \<in> set (segments m). held e ?w1 m j = held e w m j"
      using one True by simp_all
    have "\<exists>j \<in> set is. held e w m j name \<noteq> None" using Cons.prems(5) hd True by auto
    then have "\<exists>j \<in> set is. held e ?w1 m j name \<noteq> None" using w1(3) i(2) by (metis subsetD)
    moreover have "construct_in e sz name m is ?w1 = Some (r, w')" using Cons.prems(6) l(1) c True by simp
    moreover have "managers ?w1 this = Some m" using Cons.prems(3) by simp
    ultimately have "r \<noteq> Inr nullptr" using Cons.IH [OF w1(1,2) _ i(2)] by blast
    then show ?thesis using hd True by simp
  next
    case False
    then consider off where "q = C_ok off" | x where "q = C_throw x" using q(1) by (cases q) auto
    then show ?thesis
    proof cases
      case (1 off)
      then show ?thesis using Cons.prems(6) l(1) c one hd by auto
    qed (use Cons.prems(6) l(1) c hd in auto)
  qed
qed simp

text \<open>
  C17: A name is not unique across segments, and \<^verbatim>\<open>construct\<close> never answers null for a used one. When
  \<^verbatim>\<open>find\<close> already knows the name, on a Boost whose \<^verbatim>\<open>construct\<close> throws for a name that its own
  segment holds and never returns null, there are two ends. It throws and every segment holds
  what it held; that is so, with the exception for a used name, when the first segment holds the
  name. Or it succeeds, in a segment before the one that holds the name: then two different
  segments hold an object of that name, the new one and the old one, which stays.
\<close>

theorem construct_duplicates_name:
  assumes "env_ok e" "boost_laws (boost e) v" "boost_names (boost e) v" "boost_throws (boost e) v" "world_inv e w" "heap_ok e v w this"
    and "find_object e this name w = Some (q, k)" "q \<noteq> nullptr" "construct e th this sz name w = Some (r, w')"
  shows "\<exists>m. managers w this = Some m \<and> managers w' this = Some m \<and>
    (case r of
       Inl x \<Rightarrow> \<forall>j \<in> set (segments m). held e w' m j = held e w m j
     | Inr p \<Rightarrow> p \<noteq> nullptr \<and> \<not> unique_name e w' this name \<and>
         (\<exists>i \<in> set (segments m). \<exists>j \<in> set (segments m). i \<noteq> j \<and>
            held e w' m i name = Some (p, 1) \<and> held e w' m j name = Some (q, k))) \<and>
    (held e w m (hd (segments m)) name \<noteq> None \<longrightarrow> r = Inl Already_exists)"
proof -
  have bf: "boost_find_ok (boost e) v" using assms(3) by (simp add: boost_names_def)
  obtain m where m: "managers w this = Some m" using assms(6) by (auto simp: heap_ok_def)
  have fh: "first_held (held e w m) (segments m) name = (q, k)" using find_object_first [OF assms(5,6) bf m, of name] assms(7) by simp
  then have "first_held (held e w m) (segments m) name \<noteq> (nullptr, 0)" using assms(8) by simp
  then have ex: "\<exists>j \<in> set (segments m). held e w m j name \<noteq> None" using first_held_none by blast
  from first_held_Some [where f = "held e w m", OF this] obtain j where j: "j \<in> set (segments m)" "held e w m j name = Some (q, k)"
    unfolding fh by blast
  obtain c w1 where c: "construct_in e sz name m (segments m) w = Some (c, w1)" "only_heaps w w1"
    and res: "case c of Inl x \<Rightarrow> \<forall>j \<in> set (segments m). held e w1 m j = held e w m j
     | Inr p \<Rightarrow> if p = nullptr then \<forall>j \<in> set (segments m). held e w1 m j = held e w m j
     else \<exists>i \<in> set (segments m). held e w m i name = None \<and>
       (\<forall>j \<in> set (segments m). held e w1 m j = (if j = i then (held e w m i)(name \<mapsto> (p, 1)) else held e w m j))"
    using construct_in_spec [OF assms(3,5,6) m subset_refl] by blast
  have used: "c \<noteq> Inr nullptr" "held e w m (hd (segments m)) name \<noteq> None \<longrightarrow> c = Inl Already_exists"
    using construct_in_used [OF assms(3-6) m subset_refl ex c(1)] by blast+
  then have run: "r = c" "w' = w1" using assms(9) m c(1) by (cases c; simp add: construct_def)+
  have m1: "managers w1 this = Some m" using only_heapsD [OF c(2)] m by simp
  show ?thesis
  proof (cases c)
    case (Inr p)
    then have "p \<noteq> nullptr" using used(1) by simp
    then obtain i where i: "i \<in> set (segments m)" "held e w m i name = None"
       "\<forall>j \<in> set (segments m). held e w1 m j = (if j = i then (held e w m i)(name \<mapsto> (p, 1)) else held e w m j)"
      using res Inr by auto
    have ne: "i \<noteq> j" using i(2) j(2) by auto
    then have h: "held e w1 m i name = Some (p, 1)" "held e w1 m j name = Some (q, k)" using i(1,3) j by simp_all
    then have "\<not> unique_name e w1 this name" using m1 i(1) j(1) ne unfolding unique_name_def by blast
    then show ?thesis using m m1 run Inr \<open>p \<noteq> nullptr\<close> h ne i(1) j(1) used(2) by auto
  qed (use m m1 run res used(2) in auto)
qed

section \<open>One name table for the manager\<close>

text \<open>
  A table of names as an interface: putting an absent name adds it, deleting a name removes it.
  As long as no name is held twice, the manager offers it.
\<close>

locale name_table =
  fixes ok :: "'s \<Rightarrow> bool"
    and look :: "'s \<Rightarrow> string \<rightharpoonup> 'v"
    and put_name :: "string \<Rightarrow> 's \<Rightarrow> ('v \<times> 's) option"
    and del_name :: "string \<Rightarrow> 's \<Rightarrow> (bool \<times> 's) option"
  assumes put_absent: "ok s \<Longrightarrow> look s n = None \<Longrightarrow> put_name n s = Some (x, s') \<Longrightarrow> ok s' \<and> look s' = (look s)(n \<mapsto> x)"
    and del_total: "ok s \<Longrightarrow> \<exists>s'. del_name n s = Some (look s n \<noteq> None, s') \<and> ok s' \<and> look s' = (look s)(n := None)"
begin

lemma put_del:
  assumes "ok s" "look s n = None" "put_name n s = Some (x, s1)"
  shows "\<exists>s2. del_name n s1 = Some (True, s2) \<and> ok s2 \<and> look s2 = look s"
proof -
  have "ok s1" "look s1 = (look s)(n \<mapsto> x)" using put_absent [OF assms] by blast+
  then show ?thesis using del_total [of s1 n] assms(2) by (auto simp: fun_upd_idem)
qed

lemma put_commute:
  assumes "ok s" "look s n = None" "look s k = None" "n \<noteq> k" "put_name n s = Some (x, s1)" "put_name k s1 = Some (y, s2)"
  shows "ok s2 \<and> look s2 = (look s)(k \<mapsto> y, n \<mapsto> x)"
proof -
  have s1: "ok s1" "look s1 = (look s)(n \<mapsto> x)" using put_absent [OF assms(1,2,5)] by blast+
  then have "look s1 k = None" using assms(3,4) by simp
  then show ?thesis using put_absent [OF s1(1) _ assms(6)] s1(2) assms(4) by (simp add: fun_upd_twist)
qed

end

definition manager_look :: "'m env \<Rightarrow> u64 \<Rightarrow> 'm world \<Rightarrow> string \<rightharpoonup> u64 \<times> u64" where
  "manager_look e this w name =
     (case find_object e this name w of Some (p, k) \<Rightarrow> if p = nullptr then None else Some (p, k) | None \<Rightarrow> None)"

definition manager_put :: "'m env \<Rightarrow> nat \<Rightarrow> u64 \<Rightarrow> u64 \<Rightarrow> string \<Rightarrow> 'm world \<Rightarrow> ((u64 \<times> u64) \<times> 'm world) option" where
  "manager_put e th this sz name w =
     (case construct e th this sz name w of
        Some (Inr p, w') \<Rightarrow> if p = nullptr then None else Some ((p, 1), w')
      | _ \<Rightarrow> None)"

definition named_manager :: "'m env \<Rightarrow> 'm heap_view \<Rightarrow> u64 \<Rightarrow> 'm world \<Rightarrow> bool" where
  "named_manager e v this w \<longleftrightarrow>
     env_ok e \<and> boost_laws (boost e) v \<and> boost_names (boost e) v \<and> world_inv e w \<and> heap_ok e v w this \<and>
     (\<forall>n. unique_name e w this n)"

lemma manager_put_Some: "manager_put e th this sz name w = Some (x, w') \<longleftrightarrow>
   (\<exists>p. x = (p, 1) \<and> p \<noteq> nullptr \<and> construct e th this sz name w = Some (Inr p, w'))"
  by (auto simp: manager_put_def split: option.splits sum.splits prod.splits if_splits)

lemma manager_look_first:
  assumes "world_inv e w" "heap_ok e v w this" "boost_find_ok (boost e) v" "managers w this = Some m"
  shows "manager_look e this w name = (if \<forall>j \<in> set (segments m). held e w m j name = None then None
    else Some (first_held (held e w m) (segments m) name))"
proof -
  have f: "find_object e this name w = Some (first_held (held e w m) (segments m) name)" using find_object_first [OF assms] .
  have n: "fst (first_held (held e w m) (segments m) name) = nullptr \<longleftrightarrow> (\<forall>j \<in> set (segments m). held e w m j name = None)"
    using first_held_null [of "segments m" "held e w m" name] held_not_null [OF assms] by fastforce
  show ?thesis
  proof (cases "\<forall>j \<in> set (segments m). held e w m j name = None")
    case True
    then show ?thesis using first_held_none [of "segments m" "held e w m" name] by (simp add: manager_look_def f)
  next
    case False
    obtain q k where q: "first_held (held e w m) (segments m) name = (q, k)" by fastforce
    have "q \<noteq> nullptr" using n False q by simp
    then have "manager_look e this w name = Some (q, k)" by (simp add: manager_look_def f q)
    then show ?thesis using False q by (simp only: if_False)
  qed
qed

lemma construct_unique:
  assumes w: "world_inv e w" "heap_ok e v w this" "boost_find_ok (boost e) v" "managers w this = Some m"
    and u: "\<forall>n. unique_name e w this n" and a: "manager_look e this w name = None" and c: "constructed e this m name p w w'"
  shows "unique_name e w' this n"
proof -
  obtain new i where new: "managers w' this = Some (m\<lparr>segments := segments m @ new\<rparr>)"
    and held: "\<forall>j \<in> set (segments m @ new). held e w' m j =
          (if j = i then (held_before e w m i)(name \<mapsto> (p, 1)) else held_before e w m j)"
    using c unfolding constructed_def by blast
  have "\<forall>j \<in> set (segments m). held e w m j name = None" using a manager_look_first [OF w, of name] by (simp split: if_splits)
  then have none: "held_before e w m j name = None" for j by (simp add: held_before_def)
  have one: "j = k" if "held_before e w m j n \<noteq> None" "held_before e w m k n \<noteq> None" for j k
  proof -
    have mem: "j \<in> set (segments m)" "k \<in> set (segments m)" using that by (simp_all add: held_before_def split: if_splits)
    then have "held e w m j n \<noteq> None" "held e w m k n \<noteq> None" using that by (simp_all add: held_before_def)
    then show ?thesis using u w(4) mem unfolding unique_name_def by blast
  qed
  have was: "j = i" if "j \<in> set (segments m @ new)" "held e w' m j name \<noteq> None" for j
  proof (rule ccontr)
    assume "j \<noteq> i"
    then show False using held that none by simp
  qed
  have stay: "held e w' m j n = held_before e w m j n" if "j \<in> set (segments m @ new)" "n \<noteq> name" for j
    using held that by simp
  show ?thesis
    unfolding unique_name_def
  proof (intro allI impI ballI)
    fix m' j k
    assume "managers w' this = Some m'" and jk: "j \<in> set (segments m')" "k \<in> set (segments m')"
      "held e w' m' j n \<noteq> None" "held e w' m' k n \<noteq> None"
    then have m': "m' = m\<lparr>segments := segments m @ new\<rparr>" using new by simp
    have mem: "j \<in> set (segments m @ new)" "k \<in> set (segments m @ new)" using jk(1,2) by (simp_all add: m')
    have some: "held e w' m j n \<noteq> None" "held e w' m k n \<noteq> None" using jk(3,4) unfolding m' held_segments by blast+
    show "j = k"
    proof (cases "n = name")
      case True
      then show ?thesis using was [OF mem(1)] was [OF mem(2)] some by blast
    next
      case False
      then show ?thesis using one [of j k] some stay [OF mem(1) False] stay [OF mem(2) False] by simp
    qed
  qed
qed

interpretation named: name_table "named_manager e v this" "manager_look e this" "manager_put e th this sz" "destroy_object e this"
  for e v th this sz
proof
  fix w n x w'
  assume ok: "named_manager e v this w" and a: "manager_look e this w n = None" and p: "manager_put e th this sz n w = Some (x, w')"
  then have env: "env_ok e" and laws: "boost_laws (boost e) v" and names: "boost_names (boost e) v"
    and inv: "world_inv e w" and h: "heap_ok e v w this" and u: "\<forall>n. unique_name e w this n"
    by (simp_all add: named_manager_def)
  have bn: "boost_new_ok (boost e) v" and bf: "boost_find_ok (boost e) v" using laws names by (simp_all add: boost_laws_def boost_names_def)
  obtain m where m: "managers w this = Some m" using h by (auto simp: heap_ok_def)
  obtain q where q: "x = (q, 1)" "q \<noteq> nullptr" "construct e th this sz n w = Some (Inr q, w')" using p by (auto simp: manager_put_Some)
  have w': "world_inv e w'" "heap_ok e v w' this" "constructed e this m n q w w'"
    using construct_spec [OF env bn names inv h m, of th sz n] q by auto
  have "named_manager e v this w'"
    using env laws names w' construct_unique [OF inv h bf m u a w'(3)] by (simp add: named_manager_def)
  moreover have "manager_look e this w' k = ((manager_look e this w)(n \<mapsto> x)) k" for k
    using construct_find [OF env laws names inv h _ q(3,2)] a q(1,2) find_object_first [OF inv h bf m]
    by (cases "k = n") (auto simp: manager_look_def split: if_splits prod.splits)
  ultimately show "named_manager e v this w' \<and> manager_look e this w' = (manager_look e this w)(n \<mapsto> x)" by auto
next
  fix w n
  assume ok: "named_manager e v this w"
  then have names: "boost_names (boost e) v" and inv: "world_inv e w" and h: "heap_ok e v w this" and u: "\<forall>n. unique_name e w this n"
    by (simp_all add: named_manager_def)
  have bf: "boost_find_ok (boost e) v" using names by (simp add: boost_names_def)
  obtain m where m: "managers w this = Some m" using h by (auto simp: heap_ok_def)
  obtain q k where q: "find_object e this n w = Some (q, k)" using find_object_first [OF inv h bf m] by (metis surj_pair)
  obtain w' where w': "destroy_object e this n w = Some (q \<noteq> nullptr, w')" "world_inv e w'" "heap_ok e v w' this"
      "find_object e this n w' = Some (nullptr, 0)"
      "\<forall>k. k \<noteq> n \<longrightarrow> find_object e this k w' = find_object e this k w \<and> (unique_name e w this k \<longrightarrow> unique_name e w' this k)"
      "unique_name e w' this n"
    using destroy_object_spec [OF names inv h _ q] u by blast
  have "named_manager e v this w'" using ok w' u by (auto simp: named_manager_def)
  moreover have "manager_look e this w' k = ((manager_look e this w)(n := None)) k" for k
    using w'(4,5) by (simp add: manager_look_def)
  moreover have "(q \<noteq> nullptr) = (manager_look e this w n \<noteq> None)" using q by (simp add: manager_look_def)
  ultimately show "\<exists>w'. destroy_object e this n w = Some (manager_look e this w n \<noteq> None, w') \<and> named_manager e v this w' \<and>
      manager_look e this w' = (manager_look e this w)(n := None)"
    using w'(1) by auto
qed

text \<open>
  C16: Destroying an object that was just constructed restores the table of names, whether or not
  the manager had to grow for it.
\<close>

theorem construct_destroy_roundtrip:
  assumes "named_manager e v this w" "manager_look e this w name = None"
    and "construct e th this sz name w = Some (Inr p, w1)" "p \<noteq> nullptr"
  shows "manager_look e this w1 name = Some (p, 1) \<and>
    (\<exists>w2. destroy_object e this name w1 = Some (True, w2) \<and> manager_look e this w2 = manager_look e this w)"
proof -
  have "manager_put e th this sz name w = Some ((p, 1), w1)" using assms(3,4) by (simp add: manager_put_Some)
  from named.put_del [OF assms(1,2) this] named.put_absent [OF assms(1,2) this] show ?thesis by auto
qed
section \<open>Concrete names\<close>

lemma map_of_remove: "map_of (filter (\<lambda>x. fst x \<noteq> name) ns) n = (if n = name then None else map_of ns n)"
  by (induction ns) auto

lemma bump_names: "boost_names bump_boost bump_view"
proof -
  have "boost_find_ok bump_boost bump_view"
    unfolding boost_find_ok_def
    by (auto simp: bump_boost_def bump_view_def word_less_nat_alt dest!: map_of_SomeD)
  moreover have "boost_construct_ok bump_boost bump_view"
    unfolding boost_construct_ok_def
  proof (intro allI impI)
    fix s sz name r s'
    assume ok: "hv_ok bump_view s" and c: "sm_construct bump_boost sz name s = (r, s')"
    obtain n k ns bs where s: "s = (n, k, ns, bs)" by (metis prod_cases4)
    consider (dup) "name \<in> fst ` set ns" | (fits) "name \<notin> fst ` set ns" "k < n \<and> sz \<le> n - k" | (full) "name \<notin> fst ` set ns" "\<not> (k < n \<and> sz \<le> n - k)"
      by blast
    then show "keeps_heap bump_view s s' \<and> (case r of
        C_ok off \<Rightarrow> sm_find bump_boost name s = None \<and> (\<forall>n. sm_find bump_boost n s' = (if n = name then Some (off, 1) else sm_find bump_boost n s))
      | _ \<Rightarrow> \<forall>n. sm_find bump_boost n s' = sm_find bump_boost n s)"
    proof cases
      case fits
      obtain s1 where a: "sm_allocate bump_boost sz s = (Some k, s1)" "s1 = (n, k + max sz 1, ns, (k, sz) # bs)"
        using fits s by (simp add: bump_boost_def)
      have "hv_ok bump_view s1" using bump_laws ok a(1) unfolding boost_laws_def boost_allocate_ok_def by blast
      then have "hv_ok bump_view s'" using c s fits a(2) by (auto simp: bump_boost_def bump_view_def)
      then show ?thesis using c s fits
        by (auto simp: bump_boost_def keeps_heap_def bump_view_def map_of_eq_None_iff)
    qed (use ok c s in \<open>auto simp: bump_boost_def keeps_heap_def\<close>)
  qed
  moreover have "boost_destroy_ok bump_boost bump_view"
    unfolding boost_destroy_ok_def
  proof (intro allI impI)
    fix s name ok s'
    assume h: "hv_ok bump_view s" and d: "sm_destroy bump_boost name s = (ok, s')"
    obtain n k ns bs where s: "s = (n, k, ns, bs)" by (metis prod_cases4)
    show "keeps_heap bump_view s s' \<and> (ok \<longleftrightarrow> sm_find bump_boost name s \<noteq> None) \<and>
       (\<forall>n. sm_find bump_boost n s' = (if n = name then None else sm_find bump_boost n s))"
      using h d s map_of_eq_None_iff [of ns name]
      by (auto simp: bump_boost_def keeps_heap_def bump_view_def map_of_remove)
  qed
  ultimately show ?thesis by (simp add: boost_names_def)
qed

lemma bump_throws: "boost_throws bump_boost bump_view"
  unfolding boost_throws_def
proof (intro allI impI)
  fix s :: bump and sz name
  obtain n k ns bs where s: "s = (n, k, ns, bs)" by (metis prod_cases4)
  show "fst (sm_construct bump_boost sz name s) \<noteq> C_null \<and>
      (sm_find bump_boost name s \<noteq> None \<longrightarrow> fst (sm_construct bump_boost sz name s) = C_throw Already_exists)"
    using map_of_eq_None_iff [of ns name] by (auto simp: s bump_boost_def)
qed

definition demo_named :: "bump world \<Rightarrow> bump world" where
  "demo_named w = w\<lparr>smgrs := (smgrs w)(Shared demo_path 10368 \<mapsto> (1038208, 128, [(''x'', 64, 1)], []))\<rparr>"

lemma demo_world_segment:
  assumes "demo_world w"
  obtains d where "descs (proc w) 0x5000 = Some d" "base_vaddr d = demo_base" "size_of d = 0x100000" "file_offset d = 0"
    "\<not> is_anon d" "smgrs w (Shared demo_path 10368) = Some (1038208, 64, [], [])"
  using assms by (auto simp: demo_world_def)

lemma demo_names:
  assumes w: "demo_world w"
  shows "find_object demo_env demo_manager n w = Some (nullptr, 0)"
    "construct demo_env 0 demo_manager 64 ''x'' w = Some (Inr (demo_base + 10432), demo_named w)"
    "named_manager demo_env bump_view demo_manager w"
proof -
  obtain d where d: "descs (proc w) 0x5000 = Some d" "base_vaddr d = demo_base" "size_of d = 0x100000" "file_offset d = 0"
    "\<not> is_anon d" "smgrs w (Shared demo_path 10368) = Some (1038208, 64, [], [])"
    using demo_world_segment [OF w] .
  have m: "managers w demo_manager = Some demo_creator_manager" using demo_worldD(4) [OF w] .
  have seg: "segments demo_creator_manager = [\<lparr>seg = 0x5000, smgr = demo_base + 10368\<rparr>]" "\<not> anon demo_creator_manager"
    "object_of demo_env demo_creator_manager = demo_path"
    by (simp_all add: demo_creator_manager_def object_of_def demo_path_def)
  show "find_object demo_env demo_manager n w = Some (nullptr, 0)"
    using m seg d by (simp add: find_object_def smgr_at_def place_of_def bump_boost_def)
  show "construct demo_env 0 demo_manager 64 ''x'' w = Some (Inr (demo_base + 10432), demo_named w)"
    using m seg d by (simp add: construct_def smgr_at_def place_of_def bump_boost_def demo_named_def demo_base_def)
  have "unique_name demo_env w demo_manager n" for n
    using m seg(1) by (simp add: unique_name_def)
  then show "named_manager demo_env bump_view demo_manager w"
    using demo_env_ok bump_laws bump_names demo_worldD(1) [OF w] demo_heap(1) [OF w] by (simp add: named_manager_def)
qed

theorem construct_then_find_witness:
  "\<exists>w w'. find_object demo_env demo_manager ''x'' w = Some (nullptr, 0) \<and>
     construct demo_env 0 demo_manager 64 ''x'' w = Some (Inr (demo_base + 10432), w') \<and>
     find_object demo_env demo_manager ''x'' w' = Some (demo_base + 10432, 1)"
proof -
  obtain w where w: "demo_world w" using demo_creator_world by blast
  note n = demo_names [OF w]
  have "boost_laws (boost demo_env) bump_view" "boost_names (boost demo_env) bump_view" using bump_laws bump_names by simp_all
  from construct_then_find [OF demo_env_ok this demo_worldD(1) [OF w] demo_heap(1) [OF w] n(1,2)]
  show ?thesis using n(1,2) by (auto simp: demo_base_def)
qed

theorem construct_destroy_roundtrip_witness:
  "\<exists>w w1 w2. construct demo_env 0 demo_manager 64 ''x'' w = Some (Inr (demo_base + 10432), w1) \<and>
     destroy_object demo_env demo_manager ''x'' w1 = Some (True, w2) \<and>
     manager_look demo_env demo_manager w2 = manager_look demo_env demo_manager w"
proof -
  obtain w where w: "demo_world w" using demo_creator_world by blast
  note n = demo_names [OF w]
  have look: "manager_look demo_env demo_manager w ''x'' = None" using n(1) by (simp add: manager_look_def)
  have "demo_base + 10432 \<noteq> nullptr" by (simp add: demo_base_def)
  from construct_destroy_roundtrip [OF n(3) look n(2) this] show ?thesis using n(2) by blast
qed

lemma destroy_removes_object_witness:
  "\<exists>w w'. find_object demo_env demo_manager ''x'' w = Some (demo_base + 10432, 1) \<and>
     destroy_object demo_env demo_manager ''x'' w = Some (True, w') \<and>
     find_object demo_env demo_manager ''x'' w' = Some (nullptr, 0)"
proof -
  obtain w where w: "demo_world w" using demo_creator_world by blast
  note n = demo_names [OF w]
  have laws: "boost_laws (boost demo_env) bump_view" "boost_names (boost demo_env) bump_view" using bump_laws bump_names by simp_all
  have b: "demo_base + 10432 \<noteq> nullptr" by (simp add: demo_base_def)
  have f: "find_object demo_env demo_manager ''x'' (demo_named w) = Some (demo_base + 10432, 1)"
    using construct_find [OF demo_env_ok laws demo_worldD(1) [OF w] demo_heap(1) [OF w] n(1,2) b] by blast
  have "manager_put demo_env 0 demo_manager 64 ''x'' w = Some ((demo_base + 10432, 1), demo_named w)"
    using n(2) b by (simp add: manager_put_Some)
  moreover have "manager_look demo_env demo_manager w ''x'' = None" using n(1) by (simp add: manager_look_def)
  ultimately have "named_manager demo_env bump_view demo_manager (demo_named w)" using named.put_absent [OF n(3)] by blast
  then have h: "world_inv demo_env (demo_named w)" "heap_ok demo_env bump_view (demo_named w) demo_manager"
    "unique_name demo_env (demo_named w) demo_manager ''x''" by (simp_all add: named_manager_def)
  from destroy_removes_object [OF laws(2) h f] show ?thesis using f b by auto
qed
lemma demo_second_segment:
  assumes w0: "demo_world w0"
  shows "\<exists>w m i j n. world_inv demo_env w \<and> heap_ok demo_env bump_view w demo_manager \<and>
    managers w demo_manager = Some m \<and> segments m = [i, j] \<and> smgr i = demo_base + 10368 \<and>
    (\<exists>l. smgr_at demo_env w m i = Some (l, (1038208, 128, [(''x'', 64, 1)], []))) \<and>
    (\<exists>l. smgr_at demo_env w m j = Some (l, (n, 64, [], []))) \<and> 0x200000 \<le> n"
proof -
  let ?w = "demo_named w0"
  have laws: "boost_laws (boost demo_env) bump_view" and bn: "boost_new_ok (boost demo_env) bump_view"
    using bump_laws by (simp_all add: boost_laws_def)
  note n = demo_names [OF w0]
  have b: "demo_base + 10432 \<noteq> nullptr" by (simp add: demo_base_def)
  have "manager_put demo_env 0 demo_manager 64 ''x'' w0 = Some ((demo_base + 10432, 1), ?w)"
    using n(2) b by (simp add: manager_put_Some)
  moreover have "manager_look demo_env demo_manager w0 ''x'' = None" using n(1) by (simp add: manager_look_def)
  ultimately have "named_manager demo_env bump_view demo_manager ?w" using named.put_absent [OF n(3)] by blast
  then have inv: "world_inv demo_env ?w" and h: "heap_ok demo_env bump_view ?w demo_manager" by (simp_all add: named_manager_def)
  let ?m = demo_creator_manager
  have m: "managers ?w demo_manager = Some ?m" using demo_worldD(4) [OF w0] by (simp add: demo_named_def)
  have seg: "segments ?m = [\<lparr>seg = 0x5000, smgr = demo_base + 10368\<rparr>]" "\<not> anon ?m" "object_of demo_env ?m = demo_path"
    by (simp_all add: demo_creator_manager_def object_of_def demo_path_def)
  obtain d where d: "descs (proc ?w) 0x5000 = Some d" "base_vaddr d = demo_base" "size_of d = 0x100000" "file_offset d = 0" "\<not> is_anon d"
    using demo_world_segment [OF w0] by (auto simp: demo_named_def)
  have first: "smgr_at demo_env ?w ?m (hd (segments ?m)) = Some (Shared demo_path 10368, (1038208, 128, [(''x'', 64, 1)], []))"
    using seg d by (simp add: smgr_at_def place_of_def demo_named_def)
  have free: "get_free_memory demo_env demo_manager ?w = Some 1038080"
    using m seg(1) first by (simp add: get_free_memory_def bump_boost_def)
  have lo: "layout_ok demo_env ?w demo_manager" using h m seg(2) by (auto simp: heap_ok_def)
  obtain w' where g: "grow demo_env 0 demo_manager 0x200000 ?w = Some (Inr (), w')"
    using demo_growth [OF w0 _ _ _ lo, where t = "tables w0" and sm = "smgrs ?w" and k = 128 and ns = "[(''x'', 64, 1)]" and bs = "[]"]
    by (auto simp: demo_named_def)
  have om: "one_more demo_env demo_manager 0x200000 ?m ?w w'" and inv': "world_inv demo_env w'"
    using grow_shm_spec [OF demo_env_ok inv lo heap_usable [OF h] m, of 0 "0x200000"] g free by auto
  obtain i d' where i: "managers w' demo_manager = Some (?m\<lparr>segments := segments ?m @ [i]\<rparr>)"
    "descs (proc w') = (descs (proc ?w))(seg i \<mapsto> d')" "0x200000 \<le> size_of d'"
    "smgrs w' = (smgrs ?w)(place_of demo_env ?m d' (smgr i) \<mapsto> sm_new (boost demo_env) (size_of d'))"
    using om unfolding one_more_def by blast
  have h': "heap_ok demo_env bump_view w' demo_manager" and x: "extends demo_env demo_manager ?w w'"
    using grow_heap [OF demo_env_ok bn inv h, of 0 "0x200000"] g by auto
  have "smgr_at demo_env w' ?m (hd (segments ?m)) = smgr_at demo_env ?w ?m (hd (segments ?m))"
    using x m seg(1) by (auto simp: extends_def)
  moreover have "smgr_at demo_env w' ?m i = Some (place_of demo_env ?m d' (smgr i), (size_of d', 64, [], []))"
    using i(2,4) by (simp add: smgr_at_def bump_boost_def)
  ultimately show ?thesis using inv' h' i(1,3) first seg(1)
    by (intro exI [of _ w'] exI [of _ "?m\<lparr>segments := segments ?m @ [i]\<rparr>"] exI [of _ "hd (segments ?m)"] exI [of _ i] exI [of _ "size_of d'"]) auto
qed

text \<open>
  The object in the first segment is destroyed and made again in the second, as it is when the first
  was full at the time; the first has room again.
\<close>

theorem construct_duplicates_name_witness:
  "\<exists>w w' p q. find_object demo_env demo_manager ''x'' w = Some (q, 1) \<and> q \<noteq> nullptr \<and>
     construct demo_env 0 demo_manager 64 ''x'' w = Some (Inr p, w') \<and> \<not> unique_name demo_env w' demo_manager ''x''"
proof -
  obtain w0 where "demo_world w0" using demo_creator_world by blast
  then obtain w m i j n l1 l2 where w: "world_inv demo_env w" "heap_ok demo_env bump_view w demo_manager"
    and m: "managers w demo_manager = Some m" "segments m = [i, j]" "smgr i = demo_base + 10368"
    and i: "smgr_at demo_env w m i = Some (l1, (1038208, 128, [(''x'', 64, 1)], []))"
    and j: "smgr_at demo_env w m j = Some (l2, (n, 64, [], []))" and n: "0x200000 \<le> n"
    using demo_second_segment by blast
  have laws: "boost_laws (boost demo_env) bump_view" "boost_names (boost demo_env) bump_view" "boost_throws (boost demo_env) bump_view"
    using bump_laws bump_names bump_throws by simp_all
  have mem: "i \<in> set (segments m)" "j \<in> set (segments m)" using m(2) by simp_all
  have ne: "i \<noteq> j" using i j by auto
  have "(64 :: u64) < n \<and> 64 \<le> n - 64"
    using n by (simp add: word_less_nat_alt word_le_nat_alt unat_sub)
  then have c: "sm_construct (boost demo_env) 64 ''x'' (n, 64, [], []) = (C_ok 64, (n, 128, [(''x'', 64, 1)], []))"
    by (simp add: bump_boost_def)
  let ?w1 = "w\<lparr>smgrs := (smgrs w)(l2 \<mapsto> (n, 128, [(''x'', 64, 1)], []))\<rparr>"
  note one = construct_one [OF laws(2) w m(1) mem(2) j c refl]
  have w1: "world_inv demo_env ?w1" "heap_ok demo_env bump_view ?w1 demo_manager" "smgr j + 64 \<noteq> nullptr" using one by simp_all
  have m1: "managers ?w1 demo_manager = Some m" using m(1) by simp
  have i1: "smgr_at demo_env ?w1 m i = Some (l1, (1038208, 128, [(''x'', 64, 1)], []))"
    using smgr_at_update [OF w m(1) mem(2) mem(1) j] ne i by simp
  have j1: "smgr_at demo_env ?w1 m j = Some (l2, (n, 128, [(''x'', 64, 1)], []))"
    using smgr_at_update [OF w m(1) mem(2) mem(2) j] by simp
  let ?s = "(1038208, 128, [], []) :: bump"
  let ?w2 = "?w1\<lparr>smgrs := (smgrs ?w1)(l1 \<mapsto> ?s)\<rparr>"
  have "hv_ok bump_view (1038208, 128, [(''x'', 64, 1)], [])" using heap_okD [OF w1(2) m1 mem(1)] i1 by auto
  then have s: "hv_ok bump_view ?s" "hv_span bump_view ?s = hv_span bump_view (1038208, 128, [(''x'', 64, 1)], [])"
    by (simp_all add: bump_view_def)
  note w2 = heap_update [OF w1(1,2) m1 mem(1) i1 s refl]
  have m2: "managers ?w2 demo_manager = Some m" using m1 by simp
  have i2: "smgr_at demo_env ?w2 m i = Some (l1, ?s)" using smgr_at_update [OF w1(1,2) m1 mem(1) mem(1) i1] by simp
  have j2: "smgr_at demo_env ?w2 m j = Some (l2, (n, 128, [(''x'', 64, 1)], []))"
    using smgr_at_update [OF w1(1,2) m1 mem(1) mem(2) i1] ne j1 by simp
  have f: "find_object demo_env demo_manager ''x'' ?w2 = Some (smgr j + 64, 1)"
    using m2 m(2) i2 j2 w1(3) by (simp add: find_object_def bump_boost_def)
  have b: "demo_base + 10496 \<noteq> nullptr" by (simp add: demo_base_def)
  have run: "construct demo_env 0 demo_manager 64 ''x'' ?w2 =
      Some (Inr (smgr i + 128), ?w2\<lparr>smgrs := (smgrs ?w2)(l1 \<mapsto> (1038208, 192, [(''x'', 128, 1)], []))\<rparr>)"
    using m2 m(2,3) i2 b by (simp add: construct_def bump_boost_def demo_base_def)
  from construct_duplicates_name [OF demo_env_ok laws w2(1,2) f w1(3) run] show ?thesis using f w1(3) run by auto
qed

end
