(* ===== verification/World_Reach.thy ===== *)
theory World_Reach
  imports Offset_Ptr
begin

text \<open>
  The process as a whole: any number of managers, any number of threads, every operation of the
  library in any order, and everything that other processes and other code may do to the shared
  objects in between. The invariant of the world holds in every state that can be reached.
\<close>

section \<open>Operations that leave the registry alone\<close>

definition quiet :: "'m world \<Rightarrow> 'm world \<Rightarrow> bool" where
  "quiet w w' \<longleftrightarrow> (\<exists>t s q. w' = w\<lparr>tables := t, smgrs := s, prefetch := q\<rparr>)"

lemma quietI: "quiet w (w\<lparr>tables := t, smgrs := s, prefetch := q\<rparr>)"
  unfolding quiet_def by blast

lemma quiet_refl [simp]: "quiet w w"
  using quietI [where w = w and t = "tables w" and s = "smgrs w" and q = "prefetch w"] by simp

lemma quiet_trans: "quiet w w1 \<Longrightarrow> quiet w1 w2 \<Longrightarrow> quiet w w2"
  unfolding quiet_def by fastforce

lemma quiet_parts [simp]:
  "quiet w (w\<lparr>tables := t\<rparr>)" "quiet w (w\<lparr>smgrs := s\<rparr>)" "quiet w (w\<lparr>prefetch := q\<rparr>)"
  using quietI [where w = w and t = t and s = "smgrs w" and q = "prefetch w"]
    quietI [where w = w and t = "tables w" and s = s and q = "prefetch w"]
    quietI [where w = w and t = "tables w" and s = "smgrs w" and q = q]
  by simp_all

lemma quietD: "quiet w w' \<Longrightarrow> managers w' = managers w \<and> proc w' = proc w \<and> (world_inv e w' \<longleftrightarrow> world_inv e w)"
  by (auto simp: quiet_def)

lemma update_table_quiet: "update_segment_table e this w = Some (r, w') \<Longrightarrow> quiet w w'"
  by (auto simp: update_segment_table_def Let_def split: bind_splits list.splits if_splits)

lemma init_table_quiet: "init_segment_table e this w = Some w' \<Longrightarrow> quiet w w'"
  by (auto simp: init_segment_table_def Let_def split: bind_splits list.splits)

lemma allocate_in_quiet: "allocate_in e b m is w = Some (p, w') \<Longrightarrow> quiet w w'"
proof (induction "is" arbitrary: w)
  case (Cons i "is")
  obtain l s where l: "smgr_at e w m i = Some (l, s)" using Cons.prems by (auto split: bind_splits)
  obtain off s' where a: "sm_allocate (boost e) b s = (off, s')" by fastforce
  let ?w1 = "w\<lparr>smgrs := (smgrs w)(l \<mapsto> s')\<rparr>"
  have "w' = ?w1 \<or> allocate_in e b m is ?w1 = Some (p, w')"
    using Cons.prems l a by (auto simp: Let_def split: if_splits)
  then show ?case using Cons.IH [of ?w1] quiet_trans [of w ?w1 w'] by auto
qed simp

lemma try_allocate_quiet: "try_allocate_locked e this b w = Some (p, w') \<Longrightarrow> quiet w w'"
  using quiet_trans allocate_in_quiet
  by (fastforce simp: try_allocate_locked_def split: bind_splits if_splits)

lemma construct_in_quiet: "construct_in e sz n m is w = Some (p, w') \<Longrightarrow> quiet w w'"
proof (induction "is" arbitrary: w)
  case (Cons i "is")
  obtain l s where l: "smgr_at e w m i = Some (l, s)" using Cons.prems by (auto split: bind_splits)
  obtain r s' where a: "sm_construct (boost e) sz n s = (r, s')" by fastforce
  let ?w1 = "w\<lparr>smgrs := (smgrs w)(l \<mapsto> s')\<rparr>"
  have "w' = ?w1 \<or> construct_in e sz n m is ?w1 = Some (p, w')"
    using Cons.prems l a by (auto simp: Let_def split: if_splits construct_result.splits)
  then show ?case using Cons.IH [of ?w1] quiet_trans [of w ?w1 w'] by auto
qed simp

lemma destroy_in_quiet: "destroy_in e n m is w = Some (b, w') \<Longrightarrow> quiet w w'"
proof (induction "is" arbitrary: w)
  case (Cons i "is")
  obtain l s where l: "smgr_at e w m i = Some (l, s)" using Cons.prems by (auto split: bind_splits)
  obtain ok s' where a: "sm_destroy (boost e) n s = (ok, s')" by fastforce
  let ?w1 = "w\<lparr>smgrs := (smgrs w)(l \<mapsto> s')\<rparr>"
  have "w' = ?w1 \<or> destroy_in e n m is ?w1 = Some (b, w')"
    using Cons.prems l a by (auto simp: Let_def split: if_splits)
  then show ?case using Cons.IH [of ?w1] quiet_trans [of w ?w1 w'] by auto
qed simp

section \<open>Operations that add segments\<close>

lemma add_anon_keeps:
  assumes "env_ok e" "world_inv e w" "managers w this = Some m" "anon m" "add_segment_anon e th this sz pr w = Some (r, w')"
  shows "world_inv e w'"
  using add_segment_anon_spec [OF assms(1-4), of th sz pr] assms(5) by auto

lemma add_shm_keeps:
  assumes "env_ok e" "world_inv e w" "managers w this = Some m" "\<not> anon m"
    and "add_segment_shm e th this fo sz pr cr ini w = Some (r, w')"
  shows "world_inv e w' \<and> (\<exists>m'. managers w' this = Some m' \<and> anon m' = anon m)"
proof -
  obtain r1 w1 where s: "add_segment_shm e th this fo sz pr cr ini w = Some (r1, w1)" "world_inv e w1"
    and c: "case r1 of Inl x \<Rightarrow> unchanged w w1 | Inr _ \<Rightarrow> \<exists>a d b. added e this m a d b w w1"
    using add_segment_shm_spec [OF assms(1-4), of th fo sz pr cr ini] by (fastforce split: sum.splits)
  have "r1 = r" "w1 = w'" using s(1) assms(5) by simp_all
  moreover have "\<exists>m'. managers w1 this = Some m' \<and> anon m' = anon m"
    using c assms(3) by (cases r1) (auto simp: unchanged_def added_def)
  ultimately show ?thesis using s(2) by simp
qed

lemma add_listed_keeps:
  assumes "env_ok e"
  shows "world_inv e w \<Longrightarrow> managers w this = Some m \<Longrightarrow> \<not> anon m \<Longrightarrow> add_listed e th this is w = Some (r, w') \<Longrightarrow> world_inv e w'"
proof (induction "is" arbitrary: w m)
  case (Cons i "is")
  obtain r1 w1 where a: "add_segment_shm e th this (ent_file_offset (entries (tables w (object_of e m)) ! i))
      (ent_size (entries (tables w (object_of e m)) ! i)) False False False w = Some (r1, w1)"
    and rest: "case r1 of Inl x \<Rightarrow> w' = w1 | Inr _ \<Rightarrow> add_listed e th this is w1 = Some (r, w')"
    using Cons.prems by (auto simp: Let_def split: bind_splits if_splits sum.splits)
  obtain m1 where w1: "world_inv e w1" "managers w1 this = Some m1" "anon m1 = anon m"
    using add_shm_keeps [OF assms Cons.prems(1-3) a] by blast
  show ?case
  proof (cases r1)
    case (Inr u)
    then show ?thesis using rest Cons.IH [OF w1(1,2)] w1(3) Cons.prems(3) by simp
  qed (use rest w1(1) in simp)
qed simp

lemma append_keeps:
  assumes "env_ok e" "world_inv e w" "managers w this = Some m" "\<not> anon m"
    and "(do {
      (r, w1) \<leftarrow> add_segment_shm e th this cur sz False False True w;
      case r of Inl x \<Rightarrow> Some (Inl x, w1) | Inr _ \<Rightarrow> update_segment_table e this w1
    }) = Some (r, w')"
  shows "world_inv e w'"
proof -
  obtain r1 w1 where a: "add_segment_shm e th this cur sz False False True w = Some (r1, w1)"
    and rest: "case r1 of Inl x \<Rightarrow> w' = w1 | Inr _ \<Rightarrow> update_segment_table e this w1 = Some (r, w')"
    using assms(5) by (auto split: bind_splits sum.splits)
  have "world_inv e w1" using add_shm_keeps [OF assms(1-4) a] by blast
  then show ?thesis using rest quietD [OF update_table_quiet] by (cases r1) fastforce+
qed

lemma extend_file_keeps:
  assumes "world_inv e w" "shm_grow os pl name n (hist w) = (ok, h)"
  shows "world_inv e (w\<lparr>hist := h\<rparr>)"
proof -
  have "live_maps h = live_maps (hist w)" using assms(2) by (metis shm_grow_live snd_conv)
  then show ?thesis using world_inv_hist [OF assms(1), of h] by simp
qed

lemma grow_commit_keeps:
  assumes env: "env_ok e" and inv: "world_inv e w" and run: "grow_commit e th this chunk cur w = Some (r, w')"
  shows "world_inv e w'"
proof -
  obtain m where m: "managers w this = Some m" using run by (auto simp: grow_commit_def split: bind_splits)
  show ?thesis
  proof (cases "anon m")
    case True
    then show ?thesis using add_anon_keeps [OF env inv m] run m by (simp add: grow_commit_def)
  next
    case False
    obtain ok h where g: "shm_grow (kernel e) (plat e) (shm_root_name m) (cur + chunk) (hist w) = (ok, h)" by fastforce
    note inv0 = extend_file_keeps [OF inv g]
    have m0: "managers (w\<lparr>hist := h\<rparr>) this = Some m" using m by simp
    show ?thesis
    proof (cases ok)
      case True
      then show ?thesis using append_keeps [OF env inv0 m0 False, of th cur chunk r w'] run m False g
        by (simp add: grow_commit_def Let_def)
    qed (use run m False g inv0 in \<open>simp add: grow_commit_def Let_def\<close>)
  qed
qed

lemma grow_keeps:
  assumes "env_ok e" "world_inv e w" "grow e th this b w = Some (r, w')"
  shows "world_inv e w'"
  using assms(2,3) grow_commit_keeps [OF assms(1,2)] by (auto simp: grow_def split: bind_splits option.splits)

lemma no_except_Some: "no_except r = Some (x, w) \<longleftrightarrow> (\<exists>y. r = Some (y, w) \<and> x = (case y of Inl _ \<Rightarrow> Inl Terminate | Inr v \<Rightarrow> Inr v))"
  by (auto simp: no_except_def)

lemma background_commit_keeps:
  assumes env: "env_ok e" and inv: "world_inv e w" and run: "background_commit e th this chunk cur w = Some (r, w')"
  shows "world_inv e w'"
proof -
  obtain m where m: "managers w this = Some m" using run by (auto simp: background_commit_def split: bind_splits)
  show ?thesis
  proof (cases "anon m")
    case True
    have "w' = snd (make_unique e (create_anon (kernel e) chunk (hist w)) w) \<or> (\<exists>r'. add_segment_anon e th this chunk False w = Some (r', w'))"
      using run m True
      by (auto simp: background_commit_def add_segment_anon_def split: bind_splits if_splits prod.splits sum.splits)
    moreover have "\<exists>r'. add_segment_anon e th this chunk False w = Some (r', w')"
      if "w' = snd (make_unique e (create_anon (kernel e) chunk (hist w)) w)"
        "\<not> (\<exists>r'. add_segment_anon e th this chunk False w = Some (r', w'))"
      using run m True that
      by (auto simp: background_commit_def add_segment_anon_def split: bind_splits if_splits prod.splits sum.splits)
    ultimately show ?thesis using add_anon_keeps [OF env inv m True] by blast
  next
    case False
    obtain ok h where g: "shm_grow (kernel e) (plat e) (shm_root_name m) (cur + chunk) (hist w) = (ok, h)" by fastforce
    note inv0 = extend_file_keeps [OF inv g]
    have m0: "managers (w\<lparr>hist := h\<rparr>) this = Some m" using m by simp
    let ?add = "do {
      (r, w1) \<leftarrow> add_segment_shm e th this cur chunk False False True (w\<lparr>hist := h\<rparr>);
      case r of Inl x \<Rightarrow> Some (Inl x, w1) | Inr _ \<Rightarrow> update_segment_table e this w1
    }"
    have "w' = w\<lparr>hist := h\<rparr> \<or> (\<exists>y. ?add = Some (y, w'))"
      using run m False g by (auto simp: background_commit_def Let_def no_except_Some split: bind_splits if_splits)
    then show ?thesis
    proof
      assume "\<exists>y. ?add = Some (y, w')"
      then obtain y where "?add = Some (y, w')" by blast
      then show ?thesis by (rule append_keeps [OF env inv0 m0 False])
    qed (use inv0 in simp)
  qed
qed

lemma grow_background_keeps:
  assumes "env_ok e" "world_inv e w" "grow_background e th this owns w = Some (r, w')"
  shows "world_inv e w'"
  using assms(2,3) background_commit_keeps [OF assms(1,2)]
  by (auto simp: grow_background_def split: bind_splits option.splits if_splits)

lemma allocate_keeps:
  assumes env: "env_ok e" and inv: "world_inv e w" and run: "allocate e th this b w = Some (r, w')"
  shows "world_inv e w'"
proof -
  obtain p w1 where t: "try_allocate_locked e this b w = Some (p, w1)" using run by (auto simp: allocate_def split: bind_splits)
  have inv1: "world_inv e w1" using quietD [OF try_allocate_quiet [OF t]] inv by blast
  show ?thesis
  proof (cases "p = nullptr")
    case True
    obtain r2 w2 where g: "grow e th this (b + kMinSegmentSize) w1 = Some (r2, w2)"
      using run t True by (auto simp: allocate_def split: bind_splits)
    have inv2: "world_inv e w2" using grow_keeps [OF env inv1 g] .
    have "w' = w2 \<or> (\<exists>q. try_allocate_locked e this b w2 = Some (q, w'))"
      using run t True g by (auto simp: allocate_def split: bind_splits sum.splits)
    then show ?thesis using inv2 quietD [OF try_allocate_quiet] by blast
  qed (use run t inv1 in \<open>simp add: allocate_def\<close>)
qed

lemma construct_keeps:
  assumes env: "env_ok e" and inv: "world_inv e w" and run: "construct e th this sz n w = Some (r, w')"
  shows "world_inv e w'"
proof -
  obtain m p w1 where m: "managers w this = Some m" and t: "construct_in e sz n m (segments m) w = Some (p, w1)"
    using run by (auto simp: construct_def split: bind_splits)
  have inv1: "world_inv e w1" using quietD [OF construct_in_quiet [OF t]] inv by blast
  show ?thesis
  proof (cases "p = Inr nullptr")
    case True
    obtain r2 w2 where g: "grow e th this (sz + 1024) w1 = Some (r2, w2)"
      using run m t True by (auto simp: construct_def split: bind_splits)
    have inv2: "world_inv e w2" using grow_keeps [OF env inv1 g] .
    have "\<exists>s. w' = w2 \<or> w' = w2\<lparr>smgrs := s\<rparr>"
      using run m t True g by (auto simp: construct_def Let_def split: bind_splits sum.splits prod.splits)
    then show ?thesis using inv2 by auto
  next
    case False
    then have "w' = w1" using run m t by (cases p) (auto simp: construct_def)
    then show ?thesis using inv1 by simp
  qed
qed

section \<open>Operations that use the registry\<close>

lemma find_keeps:
  assumes inv: "world_inv e w" and run: "find_seg (trie_cfg e) (plat e) th a (proc w) = Some (v, p)"
  shows "world_inv e (w\<lparr>proc := p\<rparr>)"
proof -
  have p: "reg_inv (trie_cfg e) (plat e) p" "trie p = trie (proc w)" "descs p = descs (proc w)"
    using find_spec [OF world_reg [OF inv], of th a] run by auto
  then have "registered (trie_cfg e) (plat e) p = registered (trie_cfg e) (plat e) (proc w)"
    by (intro ext) (simp add: registered_def)
  then show ?thesis using inv p by (simp add: world_inv_def desc_ok_def seg_ok_def)
qed

lemma deallocate_keeps:
  assumes inv: "world_inv e w" and run: "deallocate e th this ptr w = Some w'"
  shows "world_inv e w'"
proof (cases "ptr = nullptr")
  case False
  then obtain a p where f: "find_seg (trie_cfg e) (plat e) th (ptr_to_vaddr (plat e) ptr) (proc w) = Some (a, p)"
    using run by (auto simp: deallocate_def split: bind_splits)
  have "\<exists>s. w' = w\<lparr>proc := p\<rparr> \<or> w' = w\<lparr>proc := p\<rparr>\<lparr>smgrs := s\<rparr>"
    using run False f by (auto simp: deallocate_def Let_def split: bind_splits if_splits option.splits)
  moreover have "world_inv e (w\<lparr>proc := p\<rparr>)" using find_keeps [OF inv f] .
  ultimately show ?thesis by (metis world_inv_irrelevant(3))
qed (use run inv in \<open>simp add: deallocate_def\<close>)

lemma lazy_discover_keeps:
  assumes env: "env_ok e" and inv: "world_inv e w" and run: "lazy_discover_growth e th this off w = Some (r, w')"
  shows "world_inv e w'"
proof -
  obtain m where m: "managers w this = Some m" using run by (auto simp: lazy_discover_growth_def split: bind_splits)
  have "w' = w \<or> \<not> anon m \<and> (\<exists>is y. add_listed e th this is w = Some (y, w'))"
    using run m by (auto simp: lazy_discover_growth_def Let_def split: bind_splits if_splits)
  then show ?thesis using inv add_listed_keeps [OF env inv m] by blast
qed

lemma get_keeps:
  assumes env: "env_ok e" and inv: "world_inv e w" and run: "get e th this m w = Some (r, w')"
  shows "world_inv e w'"
proof (cases "m = kNull")
  case False
  then obtain v p where f: "find_seg (trie_cfg e) (plat e) th (ptr_to_vaddr (plat e) this) (proc w) = Some (v, p)"
    using run by (auto simp: get_def Let_def split: bind_splits)
  let ?w1 = "w\<lparr>proc := p\<rparr>"
  have inv1: "world_inv e ?w1" using find_keeps [OF inv f] .
  have target: "target_addr off r1 w2 = Some (r, w') \<Longrightarrow> w' = w2" for off r1 w2
    by (auto simp: target_addr_def split: sum.splits if_splits bind_splits)
  have "w' = ?w1 \<or> (\<exists>d off r1. resolve_target e th d off ?w1 = Some (r1, w'))"
    using run False f target by (fastforce simp: get_def Let_def split: bind_splits if_splits)
  moreover have "world_inv e w'" if rt: "resolve_target e th d off ?w1 = Some (r1, w')" for d off r1
  proof -
    have "w' = ?w1 \<or> (\<exists>r2. lazy_discover_growth e th (manager d) off ?w1 = Some (r2, w'))"
      using rt by (auto simp: resolve_target_def split: bind_splits if_splits sum.splits)
    then show ?thesis using inv1 lazy_discover_keeps [OF env inv1] by blast
  qed
  ultimately show ?thesis using inv1 by blast
qed (use run inv in \<open>simp add: get_def\<close>)

lemma set_keeps:
  assumes inv: "world_inv e w" and run: "set_ptr e th this p w = Some (r, w')"
  shows "world_inv e w'"
proof (cases "p = nullptr")
  case False
  then obtain v p1 u p2 where f: "find_seg (trie_cfg e) (plat e) th (ptr_to_vaddr (plat e) this) (proc w) = Some (v, p1)"
    "find_seg (trie_cfg e) (plat e) th p p1 = Some (u, p2)"
    using run by (auto simp: set_ptr_def Let_def split: bind_splits)
  have "world_inv e (w\<lparr>proc := p1\<rparr>)" using find_keeps [OF inv f(1)] .
  from find_keeps [OF this, of th p u p2] f(2) have "world_inv e (w\<lparr>proc := p2\<rparr>)" by simp
  moreover have "w' = w\<lparr>proc := p2\<rparr>"
    using run False f by (auto simp: set_ptr_def Let_def split: bind_splits if_splits)
  ultimately show ?thesis by simp
qed (use run inv in \<open>simp add: set_ptr_def\<close>)
section \<open>Constructors\<close>

lemma open_all_keeps:
  assumes env: "env_ok e" and inv: "world_inv e w" and m: "managers w this = Some m" "\<not> anon m" "segments m = []"
    and run: "open_all_segments e th this w = Some (Inr (), w')"
  shows "world_inv e w'"
proof -
  obtain b w3 sz where b: "open_rest e th this m b w3 = Some (Inr (), w')" "same_rest w w3" "primary_mapped e th this b sz w3"
    using open_primary [OF env inv m(1), of th] run by auto
  have m3: "managers w3 this = Some m" using b(2) m by (simp add: same_rest_def)
  obtain i w4 js where "world_inv e w4" "w4 = w3\<lparr>managers := (managers w3)(this \<mapsto> m\<lparr>segments := [i]\<rparr>)\<rparr>"
    "add_listed e th this js w4 = Some (Inr (), w')"
    using push_primary [OF b(3) m3 m(2,3)] b(1) by metis
  then show ?thesis using add_listed_keeps [OF env, of w4 this "m\<lparr>segments := [i]\<rparr>" th js] m(2) by simp
qed

lemma open_manager_keeps:
  assumes env: "env_ok e" and inv: "world_inv e w" and run: "new_manager_shm e th this name sz False w = Some (Inr (), w')"
  shows "world_inv e w'"
proof -
  let ?m = "\<lparr>anon = False, shm_root_name = name, segments = []\<rparr>"
  let ?w0 = "w\<lparr>managers := (managers w)(this \<mapsto> ?m)\<rparr>"
  have inv0: "world_inv e ?w0" using world_inv_fresh_manager [OF inv] by simp
  obtain w1 where "open_all_segments e th this ?w0 = Some (Inr (), w1)" "w' = w1\<lparr>prefetch := prefetch w1 @ [Register_manager this]\<rparr>"
    using run by (auto simp: new_manager_shm_def finish_constructor_def split: bind_splits sum.splits if_splits)
  then show ?thesis using open_all_keeps [OF env inv0, of this ?m th w1] by simp
qed

section \<open>The steps of a process\<close>

text \<open>
  A step is a call of the library by any thread, one of the critical sections that \<^verbatim>\<open>allocate\<close>,
  \<^verbatim>\<open>grow\<close> and \<^verbatim>\<open>grow_background\<close> consist of, with whatever chunk and file size the thread decided on
  earlier, or an interference: other processes change the
  shared tables and Boost managers, other code makes system calls that leave the mappings of the
  library alone. A constructor runs on a fresh address. Every call may throw; two things are not steps:
  the end of the process, and an opening constructor that throws for a foreign table or for a
  further chunk that cannot be mapped, because that one deletes descriptors that are still
  registered (\<open>failed_open_leaves_dangling_entry\<close>).
\<close>

inductive api_step :: "'m env \<Rightarrow> 'm world \<Rightarrow> 'm world \<Rightarrow> bool" for e where
  open_anon: "managers w this = None \<Longrightarrow> new_manager_anon e th this sz w = Some (r, w') \<Longrightarrow> r \<noteq> Inl Terminate \<Longrightarrow> api_step e w w'"
| create_shm: "managers w this = None \<Longrightarrow> new_manager_shm e th this name sz True w = Some (r, w') \<Longrightarrow> r \<noteq> Inl Terminate \<Longrightarrow> api_step e w w'"
| open_shm: "managers w this = None \<Longrightarrow> new_manager_shm e th this name sz False w = Some (r, w') \<Longrightarrow>
    (\<And>x. r = Inl x \<Longrightarrow> x \<noteq> Terminate \<and> \<not> leaves_entries x) \<Longrightarrow> api_step e w w'"
| close_manager: "destroy_manager e th this w = Some w' \<Longrightarrow> api_step e w w'"
| take_block: "allocate e th this b w = Some (r, w') \<Longrightarrow> api_step e w w'"
| give_block: "deallocate e th this p w = Some w' \<Longrightarrow> api_step e w w'"
| put_object: "construct e th this sz name w = Some (r, w') \<Longrightarrow> api_step e w w'"
| drop_object: "destroy_object e this name w = Some (b, w') \<Longrightarrow> api_step e w w'"
| try_take: "try_allocate_locked e this b w = Some (p, w') \<Longrightarrow> api_step e w w'"
| commit_growth: "grow_commit e th this chunk cur w = Some (r, w') \<Longrightarrow> api_step e w w'"
| commit_background: "background_commit e th this chunk cur w = Some (r, w') \<Longrightarrow> api_step e w w'"
| discover: "lazy_discover_growth e th this off w = Some (r, w') \<Longrightarrow> api_step e w w'"
| grow_now: "grow e th this b w = Some (r, w') \<Longrightarrow> api_step e w w'"
| grow_worker: "grow_background e th this owns w = Some (r, w') \<Longrightarrow> api_step e w w'"
| read_ptr: "get e th p off w = Some (r, w') \<Longrightarrow> api_step e w w'"
| write_ptr: "set_ptr e th p q w = Some (r, w') \<Longrightarrow> api_step e w w'"
| interfere: "set (live_maps (hist w)) \<subseteq> set (live_maps h) \<Longrightarrow> api_step e w (w\<lparr>hist := h, tables := t, smgrs := s, prefetch := q\<rparr>)"

lemma api_step_keeps:
  assumes env: "env_ok e" and inv: "world_inv e w" and step: "api_step e w w'"
  shows "world_inv e w'"
  using step
proof cases
  case (open_anon this th sz r)
  then show ?thesis using new_manager_anon_spec [OF env inv, of this th sz] by (cases r) auto
next
  case (create_shm this th name sz r)
  then show ?thesis using new_manager_shm_spec [OF env inv, of this th name sz] by (cases r) auto
next
  case (close_manager th this)
  obtain m where "managers w this = Some m" "smgrs_exist e w m (segments m)"
    using close_manager by (rule destroy_manager_Some)
  then show ?thesis using destroy_manager_spec [OF inv, of this m th] close_manager by auto
next
  case (drop_object this name b)
  then show ?thesis using destroy_in_quiet quietD inv by (fastforce simp: destroy_object_def split: bind_splits)
next
  case (interfere h t s q)
  then show ?thesis using world_inv_hist [OF inv, of h] by simp
next
  case (open_shm this th name sz r)
  then show ?thesis using open_manager_keeps [OF env inv] open_manager_throws [OF env inv] by (cases r) auto
next
  case (take_block th this b r)
  then show ?thesis using allocate_keeps [OF env inv] by blast
next
  case (give_block th this p)
  then show ?thesis using deallocate_keeps [OF inv] by blast
next
  case (put_object th this sz name r)
  then show ?thesis using construct_keeps [OF env inv] by blast
next
  case (try_take this b p)
  then show ?thesis using try_allocate_quiet quietD inv by blast
next
  case (commit_growth th this chunk cur r)
  then show ?thesis using grow_commit_keeps [OF env inv] by blast
next
  case (commit_background th this chunk cur r)
  then show ?thesis using background_commit_keeps [OF env inv] by blast
next
  case (discover th this off r)
  then show ?thesis using lazy_discover_keeps [OF env inv] by blast
next
  case (grow_now th this b r)
  then show ?thesis using grow_keeps [OF env inv] by blast
next
  case (grow_worker th this owns r)
  then show ?thesis using grow_background_keeps [OF env inv] by blast
next
  case (read_ptr th p off r)
  then show ?thesis using get_keeps [OF env inv] by blast
next
  case (write_ptr th p q r)
  then show ?thesis using set_keeps [OF inv] by blast
qed

definition start_world :: "'m env \<Rightarrow> 'm world \<Rightarrow> bool" where
  "start_world e w \<longleftrightarrow> reg_init (trie_cfg e) (proc w) \<and> managers w = Map.empty"

lemma start_world_inv:
  assumes "start_world e w"
  shows "world_inv e w"
proof -
  have r: "reg_init (trie_cfg e) (proc w)" and m: "managers w = Map.empty" using assms by (simp_all add: start_world_def)
  have ri: "reg_inv (trie_cfg e) (plat e) (proc w)" using r reg.inv_init by blast
  have "descs p = Map.empty" if "instance_init c = Some p" for p c using that by (auto simp: instance_init_def split: bind_splits)
  then have "descs (proc w) = Map.empty" using r by (auto simp: reg_init_def)
  then show ?thesis using m ri by (simp add: world_inv_def)
qed

interpretation world: stepper "\<lambda>w. env_ok e \<and> start_world e w" "\<lambda>w w'. env_ok e \<and> api_step e w w'" "world_inv e" for e
  by unfold_locales (use start_world_inv api_step_keeps in blast)+
lemma reachable_inv:
  assumes "env_ok e" "start_world e w0" "(api_step e)\<^sup>*\<^sup>* w0 w"
  shows "world_inv e w"
  using world.inv_reachable [of e w0 w] assms by simp

section \<open>Properties\<close>

text \<open>
  C1: In every state that the threads of a process reach by calls of the library, in any order and
  interleaved between their critical sections, whether the calls return or throw, and whatever
  other processes do to the shared objects: every descriptor owns a live mapping; the pages of
  different descriptors are disjoint; every byte of every segment of every manager is registered to
  exactly that segment, which points back to its manager; and the registry names no descriptor that
  has been deleted. Three things are left out: an opening constructor that throws after it has
  registered a descriptor, for a foreign table or a further chunk that cannot be mapped (it deletes
  the descriptor and leaves it registered); a new descriptor at an address that some thread's cache
  still names (the cache then answers for the wrong segment); and a registry that runs out of
  memory for its nodes (the page then stays unregistered).
\<close>

theorem reachable_worlds_are_sound:
  assumes "env_ok e" "start_world e w0" "(api_step e)\<^sup>*\<^sup>* w0 w"
  shows "(\<forall>a d. descs (proc w) a = Some d \<longrightarrow> (base_vaddr d, size_of d) \<in> set (live_maps (hist w))) \<and>
    (\<forall>a b d d'. descs (proc w) a = Some d \<longrightarrow> descs (proc w) b = Some d' \<longrightarrow> a \<noteq> b \<longrightarrow>
      pages_disjoint (plat e) (base_vaddr d, size_of d) (base_vaddr d', size_of d')) \<and>
    (\<forall>this m i. managers w this = Some m \<longrightarrow> i \<in> set (segments m) \<longrightarrow>
      (\<exists>d. descs (proc w) (seg i) = Some d \<and> manager d = this \<and>
        (\<forall>p. in_range (base_vaddr d) (size_of d) p \<longrightarrow> seg_of e w p = Some (seg i)))) \<and>
    (\<forall>p v. seg_of e w p = Some v \<longrightarrow> v \<noteq> nullptr \<longrightarrow> descs (proc w) v \<noteq> None)"
proof -
  have inv: "world_inv e w" using reachable_inv [OF assms] .
  have "\<exists>d. descs (proc w) (seg i) = Some d \<and> manager d = this \<and>
        (\<forall>p. in_range (base_vaddr d) (size_of d) p \<longrightarrow> seg_of e w p = Some (seg i))"
    if m: "managers w this = Some m" "i \<in> set (segments m)" for this m i
  proof -
    obtain d where d: "descs (proc w) (seg i) = Some d" "manager d = this" using world_seg_desc [OF inv m] by blast
    then show ?thesis using managed_seg_of(1) [OF inv m] by blast
  qed
  moreover have "descs (proc w) v \<noteq> None" if "seg_of e w p = Some v" "v \<noteq> nullptr" for p v
    using world_own [OF inv that(1) [unfolded seg_of_def] that(2)] by (auto simp: registered_def)
  moreover have "(base_vaddr d, size_of d) \<in> set (live_maps (hist w))" if "descs (proc w) a = Some d" for a d
    using world_desc [OF inv that] by (simp add: desc_ok_def)
  ultimately show ?thesis using world_disjoint [OF inv] by blast
qed

theorem reachable_worlds_are_sound_witness:
  "\<exists>w0 w m i d. start_world demo_env w0 \<and> (api_step demo_env)\<^sup>*\<^sup>* w0 w \<and> managers w demo_manager = Some m \<and> i \<in> set (segments m) \<and>
     descs (proc w) (seg i) = Some d \<and> manager d = demo_manager \<and> (base_vaddr d, size_of d) \<in> set (live_maps (hist w))"
proof -
  let ?w0 = "demo_init [] Map.empty (\<lambda>_. zero_table) :: bump world"
  have s: "start_world demo_env ?w0"
    by (simp add: start_world_def reg_init_def instance_init_def new_default_trie empty_process_def)
  obtain w where w: "new_manager_shm demo_env 0 demo_manager ''/m'' 0 True ?w0 = Some (Inr (), w)" "demo_good 0 w"
    using demo_creator [of "[]" 0 Map.empty "\<lambda>_. zero_table"] by (auto simp: live_maps_def)
  have "api_step demo_env ?w0 w" by (rule create_shm [OF _ w(1)]) simp_all
  then have r: "(api_step demo_env)\<^sup>*\<^sup>* ?w0 w" by blast
  obtain m where m: "managers w demo_manager = Some m" "segments m \<noteq> []"
    using w(2) by (auto simp: demo_good_def up_to_date_def layout_ok_def)
  then have i: "hd (segments m) \<in> set (segments m)" by simp
  from reachable_worlds_are_sound [OF demo_env_ok s r] obtain d
    where "descs (proc w) (seg (hd (segments m))) = Some d" "manager d = demo_manager" "(base_vaddr d, size_of d) \<in> set (live_maps (hist w))"
    using m(1) i by blast
  then show ?thesis using s r m(1) i by blast
qed

end
