(* ===== verification/Growth_Race.thy ===== *)
theory Growth_Race
  imports Demo_Growth
begin

text \<open>
  Growth interleaved with discovery. \<^verbatim>\<open>grow\<close> and \<^verbatim>\<open>grow_background\<close> release \<^verbatim>\<open>list_mtx_\<close> between the
  decision and the addition of a segment. A thread that resolves a pointer in between may map
  chunks that another process has added; \<^verbatim>\<open>grow_mtx_\<close> does not exclude it.
\<close>

section \<open>The second critical section after a discovery\<close>

definition only_tables :: "'m world \<Rightarrow> 'm world \<Rightarrow> bool" where
  "only_tables w w' \<longleftrightarrow> managers w' = managers w \<and> proc w' = proc w \<and> smgrs w' = smgrs w"

lemma only_tables_simps [simp]: "only_tables w w" "only_tables w (w\<lparr>tables := t\<rparr>)"
  by (simp_all add: only_tables_def)

lemma update_table_only: "update_segment_table e this w = Some (r, w') \<Longrightarrow> only_tables w w'"
  by (auto simp: update_segment_table_def Let_def split: bind_splits list.splits if_splits)

text \<open>What a discovery adds to the layout: the chunks that follow the mapped ones.\<close>

lemma discovered_chunks:
  assumes inv: "world_inv e w" and inv1: "world_inv e w1" and gr: "grown e this w w1"
    and m: "managers w this = Some m" and m1: "managers w1 this = Some m1" and lo1: "layout_ok e w1 this"
    and more: "length (segments m) < length (segments m1)"
  shows "\<exists>new i. m1 = m\<lparr>segments := segments m @ new\<rparr> \<and> i \<in> set new \<and> unat (fst (chunk_at w1 i)) = total_size (seg_layout w m) \<and>
    total_size (seg_layout w m) < total_size (seg_layout w1 m1)"
proof -
  obtain new where new: "m1 = m\<lparr>segments := segments m @ new\<rparr>" using grown_manager [OF gr m] unfolding m1 option.inject by blast
  then obtain i js where i: "new = i # js" using more by (cases new) auto
  have ds: "\<forall>v x. descs (proc w) v = Some x \<longrightarrow> descs (proc w1) v = Some x" using gr by (simp add: grown_def)
  have "chunk_at w1 j = chunk_at w j" if j: "j \<in> set (segments m)" for j
  proof -
    obtain d where "descs (proc w) (seg j) = Some d" using world_seg_desc [OF inv m j] by blast
    then show ?thesis using ds by (simp add: chunk_at_def)
  qed
  then have sl: "seg_layout w1 m1 = seg_layout w m @ map (chunk_at w1) new" by (simp add: new seg_layout_def)
  have "contiguous 0 (seg_layout w m @ map (chunk_at w1) new)" using layout_contiguous [OF lo1 m1] sl by simp
  then have c: "contiguous (total_size (seg_layout w m)) (map (chunk_at w1) new)" by (simp add: contiguous_append total_size_def)
  obtain off sz where o: "chunk_at w1 i = (off, sz)" by fastforce
  have "unat off = total_size (seg_layout w m)" "0 < unat sz" using c i o by (simp_all add: unat_gt_0 word_greater_zero_iff)
  moreover have "total_size (seg_layout w1 m1) = total_size (seg_layout w m) + (unat sz + total_size (map (chunk_at w1) js))"
    using sl i o by (simp add: total_size_def)
  ultimately show ?thesis using new i o by (intro exI [of _ new] exI [of _ i]) simp
qed

lemma commit_stale:
  assumes env: "env_ok e" and inv: "world_inv e w" and m: "managers w this = Some m" "\<not> anon m"
    and late: "unat cur < total_size (seg_layout w m)"
    and run: "grow_commit e th this chunk cur w = Some (Inr (), w')"
  shows "\<exists>m'. managers w' this = Some m' \<and> smgrs w' (Shared (object_of e m) cur) = Some (sm_new (boost e) chunk) \<and>
    \<not> contiguous 0 (seg_layout w' m')"
proof -
  obtain h where g: "shm_grow (kernel e) (plat e) (shm_root_name m) (cur + chunk) (hist w) = (True, h)"
    using run m by (auto simp: grow_commit_def Let_def split: prod.splits if_splits)
  then have h: "live_maps h = live_maps (hist w)" by (metis shm_grow_live snd_conv)
  let ?w0 = "w\<lparr>hist := h\<rparr>"
  have inv0: "world_inv e ?w0" using world_inv_hist [OF inv, of h] h by simp
  have m0: "managers ?w0 this = Some m" using m by simp
  obtain w1 where a: "add_segment_shm e th this cur chunk False False True ?w0 = Some (Inr (), w1)"
    and ut: "update_segment_table e this w1 = Some (Inr (), w')"
    using run m g by (auto simp: grow_commit_def Let_def split: bind_splits sum.splits)
  obtain a' d where ad: "added e this m a' d (base_vaddr d + smgr_offset e False) ?w0 w1" "file_offset d = cur"
    and s: "smgrs w1 = (smgrs ?w0)(Shared (object_of e m) cur \<mapsto> sm_new (boost e) chunk)"
    using add_segment_shm_spec [OF env inv0 m0 m(2), of th cur chunk False False True, unfolded if_False if_True simp_thms] a
    by auto
  obtain m' where m': "managers w1 this = Some m'" "seg_layout w1 m' = seg_layout w m @ [desc_chunk d]"
    using added_layout [OF inv0 ad(1) m0] by auto
  have t: "managers w' = managers w1" "smgrs w' = smgrs w1" "seg_layout w' m' = seg_layout w1 m'"
    using update_table_only [OF ut] by (simp_all add: only_tables_def seg_layout_def chunk_at_def)
  have "\<not> contiguous 0 (seg_layout w1 m')"
    using late ad(2) m'(2) by (auto simp: contiguous_append desc_chunk_def total_size_def)
  then show ?thesis using m'(1) s t by (intro exI [of _ m']) simp
qed

lemma background_commit_stale:
  assumes m: "managers w this = Some m" "\<not> anon m"
    and now: "size_of_segments w (segments m) 0 = Some n" "cur \<noteq> n"
    and run: "background_commit e th this chunk cur w = Some (r, w')"
  shows "r = Inr () \<and> unchanged w w'"
proof -
  obtain ok h where "shm_grow (kernel e) (plat e) (shm_root_name m) (cur + chunk) (hist w) = (ok, h)" by fastforce
  moreover have "size_of_segments (w\<lparr>hist := h\<rparr>) is acc = size_of_segments w is acc" for h "is" acc
    by (induction "is" arbitrary: acc) simp_all
  ultimately show ?thesis using run m now by (auto simp: background_commit_def Let_def unchanged_def split: if_splits)
qed

text \<open>
  C8: When a discovery maps further chunks between the two critical sections of a growth,
  \<^verbatim>\<open>grow\<close> maps a chunk a second time: the new segment begins at the file offset of a segment that the
  manager already has, whose Boost manager is replaced by an empty one. \<^verbatim>\<open>grow_background\<close> notices
  and adds nothing.
\<close>

theorem discovery_breaks_growth:
  assumes "env_ok e" "world_inv e w" "layout_ok e w this" "managers w this = Some m"
    and "size_of_segments w (segments m) 0 = Some cur"
    and "lazy_discover_growth e th' this off w = Some (found, w1)"
    and "managers w1 this = Some m1" "length (segments m) < length (segments m1)"
  shows "(\<exists>i \<in> set (segments m1). fst (chunk_at w1 i) = cur) \<and>
    (\<forall>th chunk w2. grow_commit e th this chunk cur w1 = Some (Inr (), w2) \<longrightarrow>
      (\<exists>m2. managers w2 this = Some m2 \<and> smgrs w2 (Shared (object_of e m) cur) = Some (sm_new (boost e) chunk) \<and>
        \<not> contiguous 0 (seg_layout w2 m2))) \<and>
    (\<forall>th chunk r w2. background_commit e th this chunk cur w1 = Some (r, w2) \<longrightarrow> r = Inr () \<and> unchanged w1 w2)"
proof -
  have inv1: "world_inv e w1" and gr: "grown e this w w1" and lo1: "layout_ok e w1 this"
    using lazy_discover_spec [OF assms(1-4), of th' off] assms(6) by auto
  obtain new i where new: "m1 = m\<lparr>segments := segments m @ new\<rparr>" "i \<in> set new"
    "unat (fst (chunk_at w1 i)) = total_size (seg_layout w m)" "total_size (seg_layout w m) < total_size (seg_layout w1 m1)"
    using discovered_chunks [OF assms(2) inv1 gr assms(4,7) lo1 assms(8)] by blast
  have cur: "unat cur = total_size (seg_layout w m)"
    using mapped_size [OF assms(2,4) layout_contiguous [OF assms(3,4)]] assms(5) by auto
  obtain n where n: "size_of_segments w1 (segments m1) 0 = Some n" "unat n = total_size (seg_layout w1 m1)"
    using mapped_size [OF inv1 assms(7) layout_contiguous [OF lo1 assms(7)]] by blast
  have ne: "cur \<noteq> n" using cur n(2) new(4) by auto
  have na: "\<not> anon m1" using lo1 assms(7) by (auto simp: layout_ok_def)
  have ob: "object_of e m1 = object_of e m" by (simp add: new(1) object_of_def)
  have "fst (chunk_at w1 i) = cur" using cur new(3) by (simp add: word_unat_eq_iff)
  moreover have "i \<in> set (segments m1)" using new(1,2) by simp
  moreover have "unat cur < total_size (seg_layout w1 m1)" using cur new(4) by simp
  ultimately show ?thesis
    using commit_stale [OF assms(1) inv1 assms(7) na, unfolded ob] background_commit_stale [OF assms(7) na n(1) ne]
    by blast
qed
section \<open>A concrete race\<close>

lemma demo_map_chunk_at:
  assumes p: "p = push_bit 28 (of_nat (Suc (Suc (length h))))" and "fits linux_x86 p sz" "list_all (apart linux_x86 (p, sz)) (live_maps h)"
    and "p \<noteq> MAP_FAILED"
  shows "\<exists>h'. shm_map_chunk careful_os linux_x86 ''/m'' sz off h = (p, h') \<and> length h' = length h + 3 \<and> live_maps h' = (p, sz) # live_maps h"
proof -
  have "sys_mmap careful_os g sz fl fd off = p" if "length g = Suc (length h)" "live_maps g = live_maps h" for g fl fd off
    using that assms by (simp add: careful_os_def Let_def)
  then show ?thesis using assms(4)
    by (simp add: shm_map_chunk_def syscall_defs platform_shm_open_def Let_def careful_open live_maps_def map_event_def)
qed

text \<open>A chunk that the kernel maps and \<^verbatim>\<open>operator new\<close> describes becomes a segment.\<close>

lemma demo_add_chunk:
  assumes inv: "world_inv demo_env w" and m: "managers w demo_manager = Some m" "\<not> anon m" "shm_root_name m = ''/m''"
    and a: "careful_new (proc w) = a" "a \<noteq> nullptr"
    and h: "shm_map_chunk careful_os linux_x86 ''/m'' sz off (hist w) = (p, h')" "p \<noteq> nullptr"
  shows "\<exists>w' s d. add_segment_shm demo_env th demo_manager off sz False False ini w = Some (Inr (), w') \<and> world_inv demo_env w' \<and>
    hist w' = h' \<and> managers w' demo_manager = Some (m\<lparr>segments := segments m @ [\<lparr>seg = a, smgr = s\<rparr>]\<rparr>) \<and>
    descs (proc w') = (descs (proc w))(a \<mapsto> d) \<and> ((\<forall>u. no_stale (proc w) u) \<longrightarrow> (\<forall>u. no_stale (proc w') u)) \<and>
    tables w' = tables w"
proof -
  obtain w1 where ms: "map_shm demo_env m off sz False w = (Inr a, w1)" "hist w1 = h'"
    using h a m by (simp add: map_shm_def open_shm_chunk_def make_unique_def Let_def)
  obtain r w' where ad: "add_segment_shm demo_env th demo_manager off sz False False ini w = Some (r, w')" "world_inv demo_env w'"
    and res: "case r of Inl x \<Rightarrow> True | Inr _ \<Rightarrow> \<exists>a d s. added demo_env demo_manager m a d s w w' \<and> tables w' = tables w"
    using add_segment_shm_spec [OF demo_env_ok inv m(1,2), of th off sz False False ini] by (fastforce split: sum.splits)
  obtain s where f: "r = Inr ()" "hist w' = h'" "managers w' demo_manager = Some (m\<lparr>segments := segments m @ [\<lparr>seg = a, smgr = s\<rparr>]\<rparr>)"
    using add_segment_shm_hist [OF ms(1) a(2) m(1) ad(1)] ms(2) by blast
  then obtain a' d s' where a': "added demo_env demo_manager m a' d s' w w'" "tables w' = tables w" using res by auto
  have "segments (the (managers w' demo_manager)) = segments m @ [\<lparr>seg = a', smgr = s'\<rparr>]" using a'(1) by (simp add: added_def)
  moreover have "segments (the (managers w' demo_manager)) = segments m @ [\<lparr>seg = a, smgr = s\<rparr>]" using f(3) by simp
  ultimately have "a' = a" by simp
  then show ?thesis using a' ad f by (intro exI [of _ w'] exI [of _ s] exI [of _ d]) (simp add: added_def)
qed

text \<open>The creator of \<open>Demo_Growth\<close>, when another process has listed a second chunk.\<close>

definition other_table :: "segment_table_t \<Rightarrow> segment_table_t" where
  "other_table tbl = tbl\<lparr>entries := (entries tbl)[1 := \<lparr>ent_file_offset = 0x100000, ent_size = 0x80000\<rparr>], count := of_nat (1 + 1)\<rparr>"

lemma demo_listed:
  assumes w0: "demo_world w0" and w: "w = w0\<lparr>tables := (tables w0)(demo_path := other_table (tables w0 demo_path))\<rparr>"
  shows "world_inv demo_env w" "layout_ok demo_env w demo_manager" "managers w demo_manager = Some demo_creator_manager"
    "size_of_segments w (segments demo_creator_manager) 0 = Some 0x100000"
    "table_layout (tables w demo_path) = [(0, 0x100000), (0x100000, 0x80000)]" "seg_layout w demo_creator_manager = [(0, 0x100000)]"
    "count (tables w demo_path) = 2" "length (entries (tables w demo_path)) = kMaxSubSegments"
    "entries (tables w demo_path) ! 1 = \<lparr>ent_file_offset = 0x100000, ent_size = 0x80000\<rparr>"
proof -
  let ?m = demo_creator_manager
  obtain d where d: "descs (proc w0) = [0x5000 \<mapsto> d]" "base_vaddr d = demo_base" "size_of d = 0x100000" "file_offset d = 0" "\<not> is_anon d"
    "is_primary d"
    using w0 by (auto simp: demo_world_def)
  show inv: "world_inv demo_env w" using demo_worldD(1) [OF w0] w by simp
  show m: "managers w demo_manager = Some ?m" using demo_worldD(4) [OF w0] w by simp
  have seg: "object_of demo_env ?m = demo_path" "segments ?m = [\<lparr>seg = 0x5000, smgr = demo_base + 10368\<rparr>]" "\<not> anon ?m"
    by (simp_all add: demo_creator_manager_def object_of_def demo_path_def)
  have len: "length (entries (tables w0 demo_path)) = kMaxSubSegments" "table_layout (tables w0 demo_path) = [(0, 0x100000)] @ []"
    using w0 by (simp_all add: demo_world_def demo_good_def object_ready_def Let_def)
  have tl: "table_layout (other_table (tables w0 demo_path)) = [(0, 0x100000)] @ [(0x100000, 0x80000)]"
    unfolding other_table_def by (rule table_append [OF len]) (simp_all add: kMaxSubSegments_def)
  then show tl': "table_layout (tables w demo_path) = [(0, 0x100000), (0x100000, 0x80000)]" by (simp add: w)
  show sl: "seg_layout w ?m = [(0, 0x100000)]" using seg d by (simp add: w seg_layout_def chunk_at_def desc_chunk_def)
  show c: "count (tables w demo_path) = 2" by (simp add: w other_table_def)
  show le: "length (entries (tables w demo_path)) = kMaxSubSegments" using len by (simp add: w other_table_def)
  show "entries (tables w demo_path) ! 1 = \<lparr>ent_file_offset = 0x100000, ent_size = 0x80000\<rparr>"
    using len by (simp add: w other_table_def kMaxSubSegments_def)
  show "size_of_segments w (segments ?m) 0 = Some 0x100000" using seg d by (simp add: w)
  show "layout_ok demo_env w demo_manager"
    unfolding layout_ok_def
    by (intro exI [of _ ?m]) (use m seg tl' sl c le d in \<open>simp add: kMaxSubSegments_def w\<close>)
qed
lemma demo_shm_grow_any:
  "\<exists>h'. shm_grow careful_os linux_x86 ''/m'' n h = (True, h') \<and> length h' = length h + 3 \<and> live_maps h' = live_maps h"
  by (simp add: shm_grow_def syscall_defs platform_shm_open_def Let_def careful_open live_maps_def map_event_def)

lemma demo_places:
  "apart linux_x86 (0x70000000, 0x80000) (demo_base, 0x100000)" "apart linux_x86 (0xD0000000, 0x200000) (demo_base, 0x100000)"
  "apart linux_x86 (0xD0000000, 0x200000) (0x70000000, 0x80000)"
  "fits linux_x86 0x70000000 0x80000" "fits linux_x86 0xD0000000 0x200000"
  by (simp_all add: apart_def demo_base_def page_end_def page_begin_def ptr_to_vaddr_def strip_pac_def fits_def)

lemma demo_race:
  assumes w0: "demo_world w0" and w: "w = w0\<lparr>tables := (tables w0)(demo_path := other_table (tables w0 demo_path))\<rparr>"
  shows "\<exists>b w1 m1 w2. lazy_discover_growth demo_env 1 demo_manager 0x100000 w = Some (Inr b, w1) \<and>
    managers w1 demo_manager = Some m1 \<and> length (segments m1) = 2 \<and>
    grow_commit demo_env 0 demo_manager 0x200000 0x100000 w1 = Some (Inr (), w2)"
proof -
  let ?m = demo_creator_manager
  note l = demo_listed [OF assms]
  have seg: "object_of demo_env ?m = demo_path" "segments ?m = [\<lparr>seg = 0x5000, smgr = demo_base + 10368\<rparr>]" "\<not> anon ?m" "shm_root_name ?m = ''/m''"
    by (simp_all add: demo_creator_manager_def object_of_def demo_path_def)
  obtain d where d: "descs (proc w) = [0x5000 \<mapsto> d]" "is_primary d"
    and h: "length (hist w) = 5" "live_maps (hist w) = [(demo_base, 0x100000)]" and ns: "\<forall>u. no_stale (proc w) u"
    using w0 by (auto simp: demo_world_def w)
  have mf: "(0x70000000 :: u64) \<noteq> MAP_FAILED" "(0xD0000000 :: u64) \<noteq> MAP_FAILED" by (simp_all add: MAP_FAILED_def)
  obtain h1 where h1: "shm_map_chunk careful_os linux_x86 ''/m'' 0x80000 0x100000 (hist w) = (0x70000000, h1)"
    "length h1 = 8" "live_maps h1 = [(0x70000000, 0x80000), (demo_base, 0x100000)]"
    using demo_map_chunk_at [of "0x70000000" "hist w" "0x80000" "0x100000"] h mf demo_places by (auto simp: push_bit_eq_mult)
  have a1: "careful_new (proc w) = 0x6000" using careful_new_second [OF world_reg [OF l(1)]] ns d(1) by simp
  obtain w1 s1 d1 where w1: "add_segment_shm demo_env 1 demo_manager 0x100000 0x80000 False False False w = Some (Inr (), w1)"
    "world_inv demo_env w1" "hist w1 = h1"
    "managers w1 demo_manager = Some (?m\<lparr>segments := segments ?m @ [\<lparr>seg = 0x6000, smgr = s1\<rparr>]\<rparr>)"
    "descs (proc w1) = (descs (proc w))(0x6000 \<mapsto> d1)" "\<forall>u. no_stale (proc w1) u" "tables w1 = tables w"
    using demo_add_chunk [OF l(1,3) seg(3,4) a1 _ h1(1), of 1 False] ns by auto
  let ?m1 = "?m\<lparr>segments := segments ?m @ [\<lparr>seg = 0x6000, smgr = s1\<rparr>]\<rparr>"
  have "add_listed demo_env 1 demo_manager [1] w = Some (Inr (), w1)"
    using l(3,8,9) seg(1) w1(1) by (simp add: Let_def kMaxSubSegments_def)
  moreover have "[1..<2 :: nat] = [1]" by (simp add: numeral_2_eq_2)
  moreover have "unat (count (tables w demo_path)) = 2" using l(7) by simp
  ultimately have "add_listed demo_env 1 demo_manager [length (segments ?m)..<unat (count (tables w demo_path))] w = Some (Inr (), w1)"
    using seg(2) by (simp del: add_listed.simps)
  then have disc: "\<exists>b. lazy_discover_growth demo_env 1 demo_manager 0x100000 w = Some (Inr b, w1)"
    using l(3,4) seg(1,3) by (simp add: lazy_discover_growth_def Let_def del: add_listed.simps)
  obtain h2 where h2: "shm_grow careful_os linux_x86 ''/m'' 0x300000 h1 = (True, h2)" "length h2 = 11"
    "live_maps h2 = [(0x70000000, 0x80000), (demo_base, 0x100000)]"
    using demo_shm_grow_any [of "0x300000" h1] h1(2,3) by auto
  obtain h3 where h3: "shm_map_chunk careful_os linux_x86 ''/m'' 0x200000 0x100000 h2 = (0xD0000000, h3)"
    using demo_map_chunk_at [of "0xD0000000" h2 "0x200000" "0x100000"] h2(2,3) mf demo_places by (auto simp: push_bit_eq_mult)
  let ?w2 = "w1\<lparr>hist := h2\<rparr>"
  have inv2: "world_inv demo_env ?w2" using world_inv_hist [OF w1(2), of h2] h1(3) h2(3) w1(3) by simp
  have m2: "managers ?w2 demo_manager = Some ?m1" "\<not> anon ?m1" "shm_root_name ?m1 = ''/m''" using w1(4) seg by simp_all
  have a2: "careful_new (proc ?w2) = 0x7000"
    using careful_new_third [OF world_reg [OF w1(2)]] w1(5,6) d(1) by simp
  obtain w3 s2 d2 where w3: "add_segment_shm demo_env 0 demo_manager 0x100000 0x200000 False False True ?w2 = Some (Inr (), w3)"
    "managers w3 demo_manager = Some (?m1\<lparr>segments := segments ?m1 @ [\<lparr>seg = 0x7000, smgr = s2\<rparr>]\<rparr>)"
    "descs (proc w3) = (descs (proc w1))(0x7000 \<mapsto> d2)"
    using demo_add_chunk [OF inv2 m2 a2 _, of "0x200000" "0x100000" "0xD0000000" h3 0 True] h3 by auto
  have "\<exists>w4. update_segment_table demo_env demo_manager w3 = Some (Inr (), w4)"
    using w3(2,3) w1(5) d seg(2) by (simp add: update_segment_table_def Let_def kMaxSubSegments_def)
  then have "\<exists>w4. grow_commit demo_env 0 demo_manager 0x200000 0x100000 w1 = Some (Inr (), w4)"
    using w1(3,4) seg(3,4) h2(1) w3(1) by (auto simp: grow_commit_def)
  then show ?thesis using disc w1(4) seg(2) by auto
qed

theorem discovery_breaks_growth_witness:
  "\<exists>w w1 w2 m2. lazy_discover_growth demo_env 1 demo_manager 0x100000 w = Some (Inr True, w1) \<and>
     grow_commit demo_env 0 demo_manager 0x200000 0x100000 w1 = Some (Inr (), w2) \<and>
     managers w2 demo_manager = Some m2 \<and> smgrs w2 (Shared demo_path 0x100000) = Some (0x200000, 64, [], []) \<and>
     \<not> contiguous 0 (seg_layout w2 m2)"
proof -
  obtain w0 where w0: "demo_world w0" using demo_creator_world by blast
  define w where "w = w0\<lparr>tables := (tables w0)(demo_path := other_table (tables w0 demo_path))\<rparr>"
  note l = demo_listed [OF w0 w_def]
  have seg: "object_of demo_env demo_creator_manager = demo_path" "length (segments demo_creator_manager) = 1"
    by (simp_all add: demo_creator_manager_def object_of_def demo_path_def)
  obtain b w1 m1 w2 where r: "lazy_discover_growth demo_env 1 demo_manager 0x100000 w = Some (Inr b, w1)"
    "managers w1 demo_manager = Some m1" "length (segments m1) = 2"
    "grow_commit demo_env 0 demo_manager 0x200000 0x100000 w1 = Some (Inr (), w2)"
    using demo_race [OF w0 w_def] by blast
  have b using lazy_discover_spec [OF demo_env_ok l(1-3), of 1 "0x100000"] r(1) l(5) seg(1) by (auto simp: total_size_def)
  moreover have "length (segments demo_creator_manager) < length (segments m1)" using seg(2) r(3) by simp
  from discovery_breaks_growth [OF demo_env_ok l(1-4) r(1,2) this] r(4) seg(1)
  have "\<exists>m2. managers w2 demo_manager = Some m2 \<and> smgrs w2 (Shared demo_path 0x100000) = Some (0x200000, 64, [], []) \<and>
      \<not> contiguous 0 (seg_layout w2 m2)"
    by (auto simp: bump_boost_def)
  ultimately show ?thesis using r(1,4) by auto
qed

end
