(* ===== verification/Trie_Concurrent.thy ===== *)
theory Trie_Concurrent
  imports Ncrit_Trie
begin

text \<open>
  The trie of \<^verbatim>\<open>include/segmented_interprocess/ncrit_trie.hpp\<close> under concurrency. Any number of threads
  run \<^verbatim>\<open>insert_leaf\<close>, \<^verbatim>\<open>clear_leaf\<close> and \<^verbatim>\<open>lookup_page\<close> at the same time; one step of a thread is one
  atomic access to the trie, one allocation of a node, or a lost race with the deletion of the
  loser's node. The theory shows that the operations are linearizable, that no interleaving leaks
  a node or follows a dangling pointer, and that every operation ends after a bounded number of
  steps of its own thread.
\<close>

section \<open>Objects with atomic operations\<close>

text \<open>
  A concurrent object is linearizable when each of its steps either takes effect at once, as the
  operations that return in this step do on the abstract object, or has no effect. Then the
  operations of every run, in the order in which they returned, are a sequential run.
\<close>

locale atomic_object =
  fixes perform :: "'e \<Rightarrow> 's \<Rightarrow> 's option"
    and completed :: "'s \<Rightarrow> 'o list"
    and effect :: "'o \<Rightarrow> 'a \<Rightarrow> 'a option"
    and abstract :: "'s \<Rightarrow> 'a"
    and invar :: "'s \<Rightarrow> bool"
  assumes perform_atomic: "invar s \<Longrightarrow> \<exists>s' new. perform ev s = Some s' \<and> invar s' \<and>
    completed s' = completed s @ new \<and> foldM effect new (abstract s) = Some (abstract s')"
begin

lemma run_linear:
  assumes "invar s"
  shows "\<exists>s' new. foldM perform evs s = Some s' \<and> invar s' \<and>
    completed s' = completed s @ new \<and> foldM effect new (abstract s) = Some (abstract s')"
  using assms
proof (induction evs arbitrary: s)
  case (Cons ev evs)
  obtain s1 new1 where 1: "perform ev s = Some s1" "invar s1" "completed s1 = completed s @ new1"
    "foldM effect new1 (abstract s) = Some (abstract s1)"
    using perform_atomic [OF Cons.prems] by blast
  obtain s2 new2 where 2: "foldM perform evs s1 = Some s2" "invar s2" "completed s2 = completed s1 @ new2"
    "foldM effect new2 (abstract s1) = Some (abstract s2)"
    using Cons.IH [OF 1(2)] by blast
  show ?case using 1 2 by (intro exI [of _ s2] exI [of _ "new1 @ new2"]) (simp add: foldM_append)
qed simp

lemma run_ends: "invar s \<Longrightarrow> \<exists>s'. foldM perform evs s = Some s' \<and> invar s'"
  using run_linear by blast

end

section \<open>Threads\<close>

text \<open>
  Where a thread is: at the slot of level \<open>d\<close> of node \<open>cur\<close>, having read an empty slot and about to
  allocate a node, or about to install the node it allocated.
\<close>

datatype trie_pc =
    Idle
  | Inserting u64 u64 nat u64
  | Allocating u64 u64 nat u64
  | Installing u64 u64 nat u64 u64
  | Clearing u64 nat u64
  | Looking u64 nat u64

datatype trie_call = Insert u64 u64 | Clear u64 | Lookup u64

datatype trie_result = Stored | Out_of_memory | Cleared | Found u64

record shared_trie =
  trie :: ncrit_trie
  pcs :: "nat \<Rightarrow> trie_pc"
  history :: "(trie_call \<times> trie_result) list"

abbreviation goto :: "nat \<Rightarrow> trie_pc \<Rightarrow> shared_trie \<Rightarrow> shared_trie" where
  "goto th pc s \<equiv> s\<lparr>pcs := (pcs s)(th := pc)\<rparr>"

abbreviation set_nodes :: "heap \<Rightarrow> shared_trie \<Rightarrow> shared_trie" where
  "set_nodes h s \<equiv> s\<lparr>trie := (trie s)\<lparr>nodes := h\<rparr>\<rparr>"

definition finish :: "nat \<Rightarrow> trie_call \<Rightarrow> trie_result \<Rightarrow> shared_trie \<Rightarrow> shared_trie" where
  "finish th call res s = s\<lparr>pcs := (pcs s)(th := Idle), history := history s @ [(call, res)]\<rparr>"

subsection \<open>Insertion\<close>

text \<open>\<^verbatim>\<open>insert_leaf\<close> at a slot: descend, find the slot empty, or store the tagged value in the leaf.\<close>

definition insert_access ::
  "trie_params \<Rightarrow> nat \<Rightarrow> u64 \<Rightarrow> u64 \<Rightarrow> nat \<Rightarrow> u64 \<Rightarrow> shared_trie \<Rightarrow> shared_trie option" where
  "insert_access c th pg val d cur s =
     (let idx = level_idx c pg d
      in if d < Levels c - 1 then
           do {
             child \<leftarrow> load (nodes (trie s)) (cur, idx);
             Some (goto th (if child = 0 then Allocating pg val d cur else Inserting pg val (Suc d) child) s)
           }
         else
           do {
             h \<leftarrow> store (nodes (trie s)) (cur, idx) (val OR kLeafTag);
             Some (finish th (Insert pg val) Stored (set_nodes h s))
           })"

text \<open>\<^verbatim>\<open>new (std::nothrow) node_t\<close>, which is not visible to the other threads yet.\<close>

definition insert_allocate ::
  "trie_params \<Rightarrow> nat \<Rightarrow> u64 \<Rightarrow> u64 \<Rightarrow> nat \<Rightarrow> u64 \<Rightarrow> shared_trie \<Rightarrow> shared_trie option" where
  "insert_allocate c th pg val d cur s =
     (let fresh = new_node c (nodes (trie s))
      in if fresh = 0 then Some (finish th (Insert pg val) Out_of_memory s)
         else Some (goto th (Installing pg val d cur fresh) (set_nodes ((nodes (trie s))(fresh \<mapsto> node_t)) s)))"

text \<open>The compare-and-swap; the loser deletes its node and goes on with the node of the winner.\<close>

definition insert_install ::
  "trie_params \<Rightarrow> nat \<Rightarrow> u64 \<Rightarrow> u64 \<Rightarrow> nat \<Rightarrow> u64 \<Rightarrow> u64 \<Rightarrow> shared_trie \<Rightarrow> shared_trie option" where
  "insert_install c th pg val d cur fresh s =
     do {
       (won, expected, h) \<leftarrow> compare_exchange (nodes (trie s)) (cur, level_idx c pg d) 0 fresh;
       if won then Some (goto th (Inserting pg val (Suc d) fresh) (set_nodes h s))
       else do {
         h \<leftarrow> delete_node h fresh;
         Some (goto th (Inserting pg val (Suc d) expected) (set_nodes h s))
       }
     }"

subsection \<open>Removal and lookup\<close>

definition clear_access ::
  "trie_params \<Rightarrow> nat \<Rightarrow> u64 \<Rightarrow> nat \<Rightarrow> u64 \<Rightarrow> shared_trie \<Rightarrow> shared_trie option" where
  "clear_access c th pg d cur s =
     (let idx = level_idx c pg d
      in if d < Levels c - 1 then
           do {
             child \<leftarrow> load (nodes (trie s)) (cur, idx);
             Some (if child = 0 then finish th (Clear pg) Cleared s else goto th (Clearing pg (Suc d) child) s)
           }
         else
           do {
             h \<leftarrow> store (nodes (trie s)) (cur, idx) 0;
             Some (finish th (Clear pg) Cleared (set_nodes h s))
           })"

definition lookup_access ::
  "trie_params \<Rightarrow> nat \<Rightarrow> u64 \<Rightarrow> nat \<Rightarrow> u64 \<Rightarrow> shared_trie \<Rightarrow> shared_trie option" where
  "lookup_access c th pg d cur s =
     do {
       raw \<leftarrow> load (nodes (trie s)) (cur, level_idx c pg d);
       Some (if raw = 0 then finish th (Lookup pg) (Found nullptr) s
             else if d < Levels c - 1 then goto th (Looking pg (Suc d) raw) s
             else finish th (Lookup pg) (Found (raw AND NOT kLeafTag)) s)
     }"

subsection \<open>Schedules\<close>

definition advance :: "trie_params \<Rightarrow> nat \<Rightarrow> shared_trie \<Rightarrow> shared_trie option" where
  "advance c th s =
     (case pcs s th of
        Idle \<Rightarrow> Some s
      | Inserting pg val d cur \<Rightarrow> insert_access c th pg val d cur s
      | Allocating pg val d cur \<Rightarrow> insert_allocate c th pg val d cur s
      | Installing pg val d cur fresh \<Rightarrow> insert_install c th pg val d cur fresh s
      | Clearing pg d cur \<Rightarrow> clear_access c th pg d cur s
      | Looking pg d cur \<Rightarrow> lookup_access c th pg d cur s)"

text \<open>
  A schedule says which thread calls what and which thread takes the next step. Values are
  pointers, so that their last bit is clear; a thread that is inside an operation starts no other.
\<close>

datatype trie_event = Call nat trie_call | Step nat

fun first_pc :: "u64 \<Rightarrow> trie_call \<Rightarrow> trie_pc" where
  "first_pc r (Insert pg val) = Inserting pg val 0 r"
| "first_pc r (Clear pg) = Clearing pg 0 r"
| "first_pc r (Lookup pg) = Looking pg 0 r"

fun call_ok :: "trie_call \<Rightarrow> bool" where
  "call_ok (Insert pg val) = even val"
| "call_ok _ = True"

fun perform :: "trie_params \<Rightarrow> trie_event \<Rightarrow> shared_trie \<Rightarrow> shared_trie option" where
  "perform c (Call th call) s =
     Some (if pcs s th = Idle \<and> call_ok call then goto th (first_pc (root (trie s)) call) s else s)"
| "perform c (Step th) s = advance c th s"

definition quiescent :: "ncrit_trie \<Rightarrow> shared_trie" where
  "quiescent t = \<lparr>trie = t, pcs = (\<lambda>_. Idle), history = []\<rparr>"

section \<open>The sequential object\<close>

text \<open>What each call does to a map from pages to values, and the result it may give there.\<close>

type_synonym page_map = "u64 \<Rightarrow> u64"

fun map_effect :: "trie_params \<Rightarrow> trie_call \<times> trie_result \<Rightarrow> page_map \<Rightarrow> page_map option" where
  "map_effect c (Insert pg val, Stored) m = Some (\<lambda>q. if same_page c pg q then val else m q)"
| "map_effect c (Insert pg val, Out_of_memory) m = Some m"
| "map_effect c (Clear pg, Cleared) m = Some (\<lambda>q. if same_page c pg q then nullptr else m q)"
| "map_effect c (Lookup pg, Found v) m = (if v = m pg then Some m else None)"
| "map_effect c _ m = None"

text \<open>The nodes that a thread has allocated and not installed yet; the trie without them.\<close>

fun owned :: "trie_pc \<Rightarrow> u64 set" where
  "owned (Installing pg val d cur fresh) = {fresh}"
| "owned _ = {}"

definition private_nodes :: "shared_trie \<Rightarrow> u64 set" where
  "private_nodes s = (\<Union>th. owned (pcs s th))"

definition linked :: "shared_trie \<Rightarrow> ncrit_trie" where
  "linked s = (trie s)\<lparr>nodes := nodes (trie s) |` (- private_nodes s)\<rparr>"

definition contents :: "trie_params \<Rightarrow> shared_trie \<Rightarrow> page_map" where
  "contents c s = (\<lambda>q. page_val c (linked s) q AND NOT kLeafTag)"

text \<open>A thread stands where its path has led it, and knows its own node to be untouched.\<close>

definition stands :: "trie_params \<Rightarrow> ncrit_trie \<Rightarrow> u64 \<Rightarrow> nat \<Rightarrow> u64 \<Rightarrow> bool" where
  "stands c t pg d cur \<longleftrightarrow>
     d < Levels c \<and> node_at (nodes t) (root t) (map (level_idx c pg) [0..<d]) = Some cur"

fun pc_ok :: "trie_params \<Rightarrow> ncrit_trie \<Rightarrow> heap \<Rightarrow> trie_pc \<Rightarrow> bool" where
  "pc_ok c t h Idle = True"
| "pc_ok c t h (Inserting pg val d cur) \<longleftrightarrow> even val \<and> stands c t pg d cur"
| "pc_ok c t h (Allocating pg val d cur) \<longleftrightarrow> even val \<and> stands c t pg d cur \<and> d < Levels c - 1"
| "pc_ok c t h (Installing pg val d cur fresh) \<longleftrightarrow>
     even val \<and> stands c t pg d cur \<and> d < Levels c - 1 \<and> fresh \<noteq> 0 \<and> h fresh = Some node_t"
| "pc_ok c t h (Clearing pg d cur) \<longleftrightarrow> stands c t pg d cur"
| "pc_ok c t h (Looking pg d cur) \<longleftrightarrow> stands c t pg d cur"

definition run_inv :: "trie_params \<Rightarrow> shared_trie \<Rightarrow> bool" where
  "run_inv c s \<longleftrightarrow> params_ok c \<and> alloc_ok c \<and> trie_wf c (linked s) \<and>
     (\<forall>th. pc_ok c (linked s) (nodes (trie s)) (pcs s th)) \<and>
     (\<forall>t u. t \<noteq> u \<longrightarrow> owned (pcs s t) \<inter> owned (pcs s u) = {})"

text \<open>What a step has to do to be linearizable.\<close>

definition atomic :: "trie_params \<Rightarrow> shared_trie \<Rightarrow> shared_trie \<Rightarrow> bool" where
  "atomic c s s' \<longleftrightarrow> run_inv c s' \<and>
     (\<exists>new. history s' = history s @ new \<and> foldM (map_effect c) new (contents c s) = Some (contents c s'))"

section \<open>Frames\<close>

lemma owned_private: "owned (pcs s th) \<subseteq> private_nodes s"
  by (auto simp: private_nodes_def)

lemma linked_root [simp]: "root (linked s) = root (trie s)"
  by (simp add: linked_def)

lemma stands_node:
  assumes "run_inv c s" "stands c (linked s) pg d cur"
  obtains n where "nodes (trie s) cur = Some n" "nodes (linked s) cur = Some n" "cur \<notin> private_nodes s"
proof -
  have "heap_wf c (nodes (linked s)) (root (linked s))" using assms(1) by (simp add: run_inv_def trie_wf_def)
  then obtain n where "nodes (linked s) cur = Some n"
    using heap_wf_dom assms(2) unfolding stands_def by fastforce
  then show thesis using that by (auto simp: linked_def restrict_map_def split: if_splits)
qed

text \<open>A slot that is empty on the way to a page means that the page has no value.\<close>

lemma page_val_empty:
  assumes at: "stands c t pg d cur" and n: "nodes t cur = Some n" "n (level_idx c pg d) = 0"
  shows "page_val c t pg = 0"
proof (cases "d < Levels c - 1")
  case True
  then have "[0..<Levels c - 1] = [0..<d] @ d # [Suc d..<Levels c - 1]"
    by (metis upt_add_eq_append upt_conv_Cons less_imp_add_positive zero_le)
  then have "node_at (nodes t) (root t) (map (level_idx c pg) [0..<Levels c - 1]) = None"
    using at n by (simp add: node_at_append stands_def load_def)
  then show ?thesis using at page_path_snoc [of c pg] by (simp add: page_val_def leaf_val_def stands_def)
next
  case False
  then have "d = Levels c - 1" "0 < Levels c" using at by (auto simp: stands_def)
  then show ?thesis using at n page_path_snoc [of c pg] by (simp add: page_val_def leaf_val_def stands_def load_def)
qed

lemma stands_child:
  assumes "stands c t pg d cur" "d < Levels c - 1" "load (nodes t) (cur, level_idx c pg d) = Some x" "x \<noteq> 0"
  shows "stands c t pg (Suc d) x"
  using assms by (auto simp: stands_def node_at_snoc)

text \<open>
  One thread moves and the trie grows or stays: every other thread still stands where it stood.
\<close>

lemma run_inv_step:
  assumes inv: "run_inv c s" and wf: "trie_wf c (linked s')" and r: "root (trie s') = root (trie s)"
    and keep: "\<And>is x. length is < Levels c \<Longrightarrow> node_at (nodes (linked s)) (root (trie s)) is = Some x \<Longrightarrow>
      node_at (nodes (linked s')) (root (trie s)) is = Some x"
    and pcs: "pcs s' = (pcs s)(th := p)" and p: "pc_ok c (linked s') (nodes (trie s')) p"
    and own: "\<And>u. u \<noteq> th \<Longrightarrow> owned p \<inter> owned (pcs s u) = {}"
    and priv: "\<And>u f. u \<noteq> th \<Longrightarrow> f \<in> owned (pcs s u) \<Longrightarrow> nodes (trie s') f = nodes (trie s) f"
  shows "run_inv c s'"
proof -
  have st: "stands c (linked s') pg d cur" if "stands c (linked s) pg d cur" for pg d cur
    using that keep r by (auto simp: stands_def)
  have "pc_ok c (linked s') (nodes (trie s')) (pcs s u)" if "u \<noteq> th" for u
  proof -
    have "pc_ok c (linked s) (nodes (trie s)) (pcs s u)" using inv by (simp add: run_inv_def)
    then show ?thesis using st priv [OF that] by (cases "pcs s u") auto
  qed
  then show ?thesis using inv wf p own pcs by (auto simp: run_inv_def)
qed

lemma private_step:
  assumes "pcs s' = (pcs s)(th := p)"
  shows "private_nodes s' = owned p \<union> (\<Union>u \<in> - {th}. owned (pcs s u))"
  using assms by (auto simp: private_nodes_def split: if_splits)

lemma private_same:
  assumes "pcs s' = (pcs s)(th := p)" "owned p = {}" "owned (pcs s th) = {}"
  shows "private_nodes s' = private_nodes s"
proof -
  have "owned (pcs s' u) = owned (pcs s u)" for u using assms by simp
  then show ?thesis by (simp add: private_nodes_def)
qed

lemma restrict_write: "p \<notin> P \<Longrightarrow> (h(p \<mapsto> n)) |` (- P) = (h |` (- P))(p \<mapsto> n)"
  by (auto simp: restrict_map_def)

section \<open>The steps\<close>

lemma move_atomic:
  assumes inv: "run_inv c s" and p: "pc_ok c (linked s) (nodes (trie s)) p" "owned p = {}" "owned (pcs s th) = {}"
  shows "atomic c s (goto th p s)"
proof -
  have l: "linked (goto th p s) = linked s" using private_same [of "goto th p s" s th p] p by (simp add: linked_def)
  have "run_inv c (goto th p s)"
    using inv p l by (intro run_inv_step [OF inv, of _ th p]) (auto simp: run_inv_def)
  then show ?thesis using l by (auto simp: atomic_def contents_def intro!: exI [of _ "[]"])
qed

lemma finish_atomic:
  assumes inv: "run_inv c s" and o: "owned (pcs s th) = {}"
    and e: "map_effect c (call, res) (contents c s) = Some (contents c s)"
  shows "atomic c s (finish th call res s)"
proof -
  have l: "linked (finish th call res s) = linked s"
    using private_same [of "finish th call res s" s th Idle] o by (simp add: linked_def finish_def)
  have "run_inv c (finish th call res s)"
    using inv l by (intro run_inv_step [OF inv, of _ th Idle]) (auto simp: run_inv_def finish_def)
  then show ?thesis using l e by (auto simp: atomic_def contents_def finish_def intro!: exI [of _ "[(call, res)]"])
qed

lemma store_atomic:
  assumes inv: "run_inv c s" and o: "owned (pcs s th) = {}" and at: "stands c (linked s) pg d cur" and d: "\<not> d < Levels c - 1"
    and v: "v = 0 \<or> odd v"
    and e: "map_effect c (call, res) (contents c s) = Some (\<lambda>q. if same_page c pg q then v AND NOT kLeafTag else contents c s q)"
  shows "\<exists>h. store (nodes (trie s)) (cur, level_idx c pg d) v = Some h \<and> atomic c s (finish th call res (set_nodes h s))"
proof -
  obtain n where n: "nodes (trie s) cur = Some n" "nodes (linked s) cur = Some n" "cur \<notin> private_nodes s"
    using stands_node [OF inv at] by blast
  have L: "0 < Levels c" "d = Levels c - 1" using at d by (auto simp: stands_def)
  have wf: "heap_wf c (nodes (linked s)) (root (trie s))" using inv by (simp add: run_inv_def trie_wf_def)
  have at': "node_at (nodes (linked s)) (root (trie s)) (butlast (page_path c pg)) = Some cur"
    using at L page_path_snoc [OF L(1), of pg] by (simp add: stands_def)
  obtain h' where h': "store (nodes (linked s)) (cur, level_idx c pg (Levels c - 1)) v = Some h'" "heap_wf c h' (root (trie s))"
    "\<forall>is. length is < Levels c \<longrightarrow> node_at h' (root (trie s)) is = node_at (nodes (linked s)) (root (trie s)) is"
    "\<forall>q. leaf_val h' (root (trie s)) (page_path c q) =
       (if same_page c pg q then v else leaf_val (nodes (linked s)) (root (trie s)) (page_path c q))"
    using store_leaf_spec [OF wf L(1) at' v] by blast
  let ?h = "(nodes (trie s))(cur \<mapsto> n(level_idx c pg d := v))"
  let ?s' = "finish th call res (set_nodes ?h s)"
  have pr: "private_nodes ?s' = private_nodes s" using private_same [of ?s' s th Idle] o by (simp add: finish_def)
  have "h' = (nodes (linked s))(cur \<mapsto> n(level_idx c pg d := v))" using h'(1) n(2) L(2) by (simp add: store_def)
  then have l: "nodes (linked ?s') = h'"
    using pr n(3) restrict_write [of cur] by (simp add: linked_def) (simp add: finish_def)
  have "run_inv c ?s'"
  proof (rule run_inv_step [OF inv, of _ th Idle])
    show "trie_wf c (linked ?s')" using h'(2) l by (simp add: trie_wf_def) (simp add: finish_def)
    show "nodes (trie ?s') f = nodes (trie s) f" if "f \<in> owned (pcs s u)" for u f
      using that owned_private [of s u] n(3) by (auto simp: finish_def)
  qed (use h'(3) l in \<open>simp_all add: finish_def\<close>)
  moreover have "contents c ?s' = (\<lambda>q. if same_page c pg q then v AND NOT kLeafTag else contents c s q)"
  proof
    fix q
    have "page_val c (linked ?s') q = (if same_page c pg q then v else page_val c (linked s) q)"
      using h'(4) unfolding page_val_def l by (simp add: finish_def)
    then show "contents c ?s' q = (if same_page c pg q then v AND NOT kLeafTag else contents c s q)"
      by (simp add: contents_def)
  qed
  ultimately have "atomic c s ?s'"
    using e unfolding atomic_def by (intro conjI exI [of _ "[(call, res)]"]) (auto simp: finish_def)
  then show ?thesis using n(1) by (auto simp: store_def)
qed

lemma allocate_atomic:
  assumes inv: "run_inv c s" and pc: "pcs s th = Allocating pg val d cur"
  shows "\<exists>s'. insert_allocate c th pg val d cur s = Some s' \<and> atomic c s s'"
proof -
  have p: "even val" "stands c (linked s) pg d cur" "d < Levels c - 1" and al: "alloc_ok c"
    using inv pc unfolding run_inv_def by (metis pc_ok.simps(3))+
  let ?h = "nodes (trie s)" and ?f = "new_node c (nodes (trie s))"
  show ?thesis
  proof (cases "?f = 0")
    case True
    then show ?thesis using finish_atomic [OF inv, of th "Insert pg val" Out_of_memory] pc
      by (simp add: insert_allocate_def)
  next
    case False
    then have f: "?h ?f = None" using al unfolding alloc_ok_def by metis
    let ?p = "Installing pg val d cur ?f"
    let ?s' = "goto th ?p (set_nodes (?h(?f \<mapsto> node_t)) s)"
    have fp: "?f \<notin> private_nodes s"
    proof
      assume "?f \<in> private_nodes s"
      then obtain u where "?f \<in> owned (pcs s u)" by (auto simp: private_nodes_def)
      then have "?h ?f = Some node_t" using inv unfolding run_inv_def by (cases "pcs s u") (auto dest!: spec [of _ u])
      then show False using f by simp
    qed
    have "private_nodes ?s' = insert ?f (private_nodes s)"
      using private_step [of ?s' s th ?p] private_step [of s s th "Allocating pg val d cur"] pc by (simp add: fun_upd_idem)
    then have l: "linked ?s' = linked s"
      using f by (auto simp: linked_def restrict_map_def fun_eq_iff)
    have "run_inv c ?s'"
    proof (rule run_inv_step [OF inv, of _ th ?p])
      show "pc_ok c (linked ?s') (nodes (trie ?s')) ?p" unfolding l using p False by simp
      show "owned ?p \<inter> owned (pcs s u) = {}" if "u \<noteq> th" for u using fp owned_private [of s u] by auto
      show "nodes (trie ?s') x = nodes (trie s) x" if "x \<in> owned (pcs s u)" for u x
        using that fp owned_private [of s u] by auto
    qed (use inv l in \<open>simp_all add: run_inv_def\<close>)
    then have "atomic c s ?s'" using l by (auto simp: atomic_def contents_def intro!: exI [of _ "[]"])
    then show ?thesis using False by (simp add: insert_allocate_def Let_def)
  qed
qed

lemma install_atomic:
  assumes inv: "run_inv c s" and pc: "pcs s th = Installing pg val d cur fresh"
  shows "\<exists>s'. insert_install c th pg val d cur fresh s = Some s' \<and> atomic c s s'"
proof -
  let ?h = "nodes (trie s)" and ?i = "level_idx c pg d"
  have p: "even val" "stands c (linked s) pg d cur" "d < Levels c - 1" "fresh \<noteq> 0" "?h fresh = Some node_t"
    and wf: "trie_wf c (linked s)" using inv pc unfolding run_inv_def by (metis pc_ok.simps(4))+
  obtain n where n: "?h cur = Some n" "nodes (linked s) cur = Some n" "cur \<notin> private_nodes s"
    using stands_node [OF inv p(2)] by blast
  have fp: "fresh \<in> private_nodes s" using owned_private [of s th] pc by simp
  have ff: "fresh \<notin> owned (pcs s u)" if "u \<noteq> th" for u
  proof -
    have "owned (pcs s th) \<inter> owned (pcs s u) = {}" using inv that unfolding run_inv_def by metis
    then show ?thesis using pc by simp
  qed
  have others: "(\<Union>u \<in> - {th}. owned (pcs s u)) = private_nodes s - {fresh}"
    using private_step [OF fun_upd_triv [symmetric], of s th] pc ff by auto
  have priv: "private_nodes (goto th (Inserting pg val (Suc d) x) (set_nodes h s)) = private_nodes s - {fresh}" for x h
    using private_step [of "goto th (Inserting pg val (Suc d) x) (set_nodes h s)" s th] others by simp
  have ne: "cur \<noteq> fresh" using n(3) fp by auto
  show ?thesis
  proof (cases "n ?i = 0")
    case True
    let ?h' = "?h(cur \<mapsto> n(?i := fresh))" and ?p = "Inserting pg val (Suc d) fresh"
    let ?s' = "goto th ?p (set_nodes ?h' s)"
    have lf: "nodes (linked s) fresh = None" using fp by (simp add: linked_def)
    have len: "Suc (length (map (level_idx c pg) [0..<d])) < Levels c" using p(3) by simp
    have "nodes (linked ?s') = ?h' |` (- (private_nodes s - {fresh}))"
      using priv by (simp add: linked_def)
    also have "\<dots> = (nodes (linked s))(fresh \<mapsto> node_t, cur \<mapsto> n(?i := fresh))"
      using p(5) n(3) fp by (auto simp: linked_def restrict_map_def fun_eq_iff)
    finally have l: "nodes (linked ?s') = (nodes (linked s))(fresh \<mapsto> node_t, cur \<mapsto> n(?i := fresh))" .
    have at: "node_at (nodes (linked s)) (root (trie s)) (map (level_idx c pg) [0..<d]) = Some cur"
      using p(2) by (simp add: stands_def)
    have g: "heap_grown c (root (trie s)) (nodes (linked s)) (nodes (linked ?s'))"
      "node_at (nodes (linked ?s')) (root (trie s)) (map (level_idx c pg) [0..<d] @ [?i]) = Some fresh"
      using heap_grown_add_child [OF trie_wf_heap [OF wf, unfolded linked_root] at n(2) True lf p(4) len level_idx_less l] by blast+
    have "run_inv c ?s'"
    proof (rule run_inv_step [OF inv, of _ th ?p])
      show "pc_ok c (linked ?s') (nodes (trie ?s')) ?p" using p(1,3) g(2) by (simp add: stands_def) 
      show "nodes (trie ?s') f = nodes (trie s) f" if "f \<in> owned (pcs s u)" for u f
        using that n(3) owned_private [of s u] by auto
    qed (use g(1) in \<open>simp_all add: trie_wf_def heap_grown_def\<close>)
    moreover have "contents c ?s' = contents c s"
      using g(1) by (simp add: contents_def page_val_def heap_grown_def fun_eq_iff)
    ultimately have "atomic c s ?s'" by (auto simp: atomic_def intro!: exI [of _ "[]"])
    then show ?thesis using n(1) True by (simp add: insert_install_def compare_exchange_def load_def store_def)
  next
    case False
    let ?h' = "?h(fresh := None)" and ?p = "Inserting pg val (Suc d) (n ?i)"
    let ?s' = "goto th ?p (set_nodes ?h' s)"
    have l: "linked ?s' = linked s"
      using priv fp by (auto simp: linked_def restrict_map_def fun_eq_iff)
    have "run_inv c ?s'"
    proof (rule run_inv_step [OF inv, of _ th ?p])
      show "pc_ok c (linked ?s') (nodes (trie ?s')) ?p"
        unfolding l using p(1) stands_child [OF p(2,3), of "n ?i"] n(2) False by (simp add: load_def)
      show "nodes (trie ?s') f = nodes (trie s) f" if "u \<noteq> th" "f \<in> owned (pcs s u)" for u f
        using that ff by auto
    qed (use wf l in simp_all)
    then have "atomic c s ?s'" using l by (auto simp: atomic_def contents_def intro!: exI [of _ "[]"])
    then show ?thesis using n(1) False p(5)
      by (simp add: insert_install_def compare_exchange_def load_def delete_node_def)
  qed
qed

lemma insert_atomic:
  assumes inv: "run_inv c s" and pc: "pcs s th = Inserting pg val d cur"
  shows "\<exists>s'. insert_access c th pg val d cur s = Some s' \<and> atomic c s s'"
proof -
  have p: "even val" "stands c (linked s) pg d cur" using inv pc unfolding run_inv_def by (metis pc_ok.simps(2))+
  obtain n where n: "nodes (trie s) cur = Some n" "nodes (linked s) cur = Some n"
    using stands_node [OF inv p(2)] by blast
  show ?thesis
  proof (cases "d < Levels c - 1")
    case True
    let ?x = "n (level_idx c pg d)"
    let ?p = "if ?x = 0 then Allocating pg val d cur else Inserting pg val (Suc d) ?x"
    have "pc_ok c (linked s) (nodes (trie s)) ?p" "owned ?p = {}"
      using p True stands_child [OF p(2) True, of ?x] n(2) by (simp_all add: load_def)
    from move_atomic [OF inv this, of th] show ?thesis
      using True n(1) pc by (simp add: insert_access_def load_def Let_def)
  next
    case False
    have "map_effect c (Insert pg val, Stored) (contents c s) =
      Some (\<lambda>q. if same_page c pg q then (val OR kLeafTag) AND NOT kLeafTag else contents c s q)"
      by (simp only: map_effect.simps untag [OF p(1)])
    from store_atomic [OF inv _ p(2) False _ this, of th] show ?thesis
      using False pc or_tag_odd by (auto simp: insert_access_def)
  qed
qed

lemma clear_atomic:
  assumes inv: "run_inv c s" and pc: "pcs s th = Clearing pg d cur"
  shows "\<exists>s'. clear_access c th pg d cur s = Some s' \<and> atomic c s s'"
proof -
  have p: "stands c (linked s) pg d cur" using inv pc unfolding run_inv_def by (metis pc_ok.simps(5))
  obtain n where n: "nodes (trie s) cur = Some n" "nodes (linked s) cur = Some n" using stands_node [OF inv p] by blast
  let ?x = "n (level_idx c pg d)"
  consider (leaf) "\<not> d < Levels c - 1" | (gone) "d < Levels c - 1" "?x = 0" | (down) "d < Levels c - 1" "?x \<noteq> 0" by blast
  then show ?thesis
  proof cases
    case leaf
    have "map_effect c (Clear pg, Cleared) (contents c s) =
      Some (\<lambda>q. if same_page c pg q then 0 AND NOT kLeafTag else contents c s q)" by (simp only: map_effect.simps zero_and_eq)
    from store_atomic [OF inv _ p leaf _ this, of th] show ?thesis
      using leaf pc by (auto simp: clear_access_def)
  next
    case gone
    have "contents c s q = nullptr" if "same_page c pg q" for q
      using page_val_empty [OF p n(2) gone(2)] page_val_same [OF that, of "linked s"] by (simp add: contents_def)
    then have "map_effect c (Clear pg, Cleared) (contents c s) = Some (contents c s)" by (auto simp: fun_eq_iff)
    from finish_atomic [OF inv _ this, of th] show ?thesis using gone n(1) pc by (simp add: clear_access_def load_def)
  next
    case down
    have "pc_ok c (linked s) (nodes (trie s)) (Clearing pg (Suc d) ?x)"
      using stands_child [OF p down(1), of ?x] n(2) down(2) by (simp add: load_def)
    from move_atomic [OF inv this, of th] show ?thesis using down n(1) pc by (simp add: clear_access_def load_def)
  qed
qed

lemma lookup_atomic:
  assumes inv: "run_inv c s" and pc: "pcs s th = Looking pg d cur"
  shows "\<exists>s'. lookup_access c th pg d cur s = Some s' \<and> atomic c s s'"
proof -
  have p: "stands c (linked s) pg d cur" using inv pc unfolding run_inv_def by (metis pc_ok.simps(6))
  obtain n where n: "nodes (trie s) cur = Some n" "nodes (linked s) cur = Some n" using stands_node [OF inv p] by blast
  let ?x = "n (level_idx c pg d)"
  consider (none) "?x = 0" | (down) "d < Levels c - 1" "?x \<noteq> 0" | (leaf) "\<not> d < Levels c - 1" "?x \<noteq> 0" by blast
  then show ?thesis
  proof cases
    case none
    have "map_effect c (Lookup pg, Found nullptr) (contents c s) = Some (contents c s)"
      using page_val_empty [OF p n(2) none] by (simp add: contents_def)
    from finish_atomic [OF inv _ this, of th] show ?thesis using none n(1) pc by (simp add: lookup_access_def load_def)
  next
    case down
    have "pc_ok c (linked s) (nodes (trie s)) (Looking pg (Suc d) ?x)"
      using stands_child [OF p down(1), of ?x] n(2) down(2) by (simp add: load_def)
    from move_atomic [OF inv this, of th] show ?thesis using down n(1) pc by (simp add: lookup_access_def load_def)
  next
    case leaf
    have "d = Levels c - 1" "0 < Levels c" using p leaf(1) by (auto simp: stands_def)
    then have "page_val c (linked s) pg = ?x"
      using p n(2) page_path_snoc [of c pg] by (simp add: page_val_def leaf_val_def stands_def load_def)
    then have "map_effect c (Lookup pg, Found (?x AND NOT kLeafTag)) (contents c s) = Some (contents c s)"
      by (simp add: contents_def)
    from finish_atomic [OF inv _ this, of th] show ?thesis using leaf n(1) pc by (simp add: lookup_access_def load_def)
  qed
qed

lemma perform_atomic: "run_inv c s \<Longrightarrow> \<exists>s'. perform c ev s = Some s' \<and> atomic c s s'"
proof (cases ev)
  case (Call th call)
  assume inv: "run_inv c s"
  have stay: "atomic c s s" using inv by (auto simp: atomic_def intro!: exI [of _ "[]"])
  have "0 < Levels c" using inv by (simp add: run_inv_def params_ok_def)
  then have "stands c (linked s) pg 0 (root (trie s))" for pg by (simp add: stands_def)
  then have "pc_ok c (linked s) (nodes (trie s)) (first_pc (root (trie s)) call) \<and> owned (first_pc (root (trie s)) call) = {}"
    if "call_ok call" using that by (cases call) simp_all
  then show ?thesis using Call stay move_atomic [OF inv, of "first_pc (root (trie s)) call" th] by simp
next
  case (Step th)
  assume inv: "run_inv c s"
  have stay: "atomic c s s" using inv by (auto simp: atomic_def intro!: exI [of _ "[]"])
  show ?thesis
    using Step stay insert_atomic [OF inv] allocate_atomic [OF inv] install_atomic [OF inv] clear_atomic [OF inv] lookup_atomic [OF inv]
    by (cases "pcs s th") (simp_all add: advance_def)
qed

interpretation concurrent: atomic_object "perform c" history "map_effect c" "contents c" "run_inv c" for c
  by unfold_locales (use perform_atomic in \<open>unfold atomic_def, blast\<close>)

lemma quiescent_inv:
  assumes "params_ok c" "alloc_ok c" "trie_wf c t"
  shows "run_inv c (quiescent t)" "linked (quiescent t) = t"
proof -
  show "linked (quiescent t) = t" by (simp add: linked_def private_nodes_def quiescent_def restrict_map_def)
  then show "run_inv c (quiescent t)" using assms by (simp add: run_inv_def) (simp add: quiescent_def)
qed

lemma all_idle_linked:
  assumes "\<forall>th. pcs s th = Idle"
  shows "linked s = trie s"
  using assms by (simp add: linked_def private_nodes_def restrict_map_def)

section \<open>Progress\<close>

text \<open>How many steps a thread is at most away from the end of its operation.\<close>

fun steps_left :: "trie_params \<Rightarrow> trie_pc \<Rightarrow> nat" where
  "steps_left c Idle = 0"
| "steps_left c (Inserting pg val d cur) = 3 * (Levels c - d)"
| "steps_left c (Allocating pg val d cur) = 3 * (Levels c - d) - 1"
| "steps_left c (Installing pg val d cur fresh) = 3 * (Levels c - d) - 2"
| "steps_left c (Clearing pg d cur) = Levels c - d"
| "steps_left c (Looking pg d cur) = Levels c - d"

lemma steps_left_0: "run_inv c s \<Longrightarrow> steps_left c (pcs s th) = 0 \<Longrightarrow> pcs s th = Idle"
  unfolding run_inv_def by (cases "pcs s th") (auto simp: stands_def dest!: spec [of _ th])

lemma steps_left_le: "steps_left c pc \<le> 3 * Levels c"
  by (cases pc) auto

lemmas access_defs = insert_access_def insert_allocate_def insert_install_def clear_access_def lookup_access_def finish_def

lemma advance_other:
  assumes "advance c th s = Some s'" "u \<noteq> th"
  shows "pcs s' u = pcs s u"
  using assms by (auto simp: advance_def access_defs Let_def split: trie_pc.splits bind_splits if_splits)

lemma advance_closer:
  assumes "run_inv c s" "advance c th s = Some s'"
  shows "steps_left c (pcs s' th) \<le> steps_left c (pcs s th) - 1"
proof -
  have "pc_ok c (linked s) (nodes (trie s)) (pcs s th)" using assms(1) by (simp add: run_inv_def)
  then show ?thesis using assms(2)
    by (cases "pcs s th") (auto simp: advance_def access_defs Let_def stands_def split: bind_splits if_splits)
qed

lemma schedule_closer:
  assumes "run_inv c s" "foldM (perform c) evs s = Some s'" "\<forall>call. Call th call \<notin> set evs"
  shows "run_inv c s' \<and> steps_left c (pcs s' th) \<le> steps_left c (pcs s th) - count_list evs (Step th)"
  using assms
proof (induction evs arbitrary: s)
  case (Cons ev evs)
  obtain s1 where s1: "perform c ev s = Some s1" "foldM (perform c) evs s1 = Some s'"
    using Cons.prems(2) by (auto split: bind_splits)
  have inv1: "run_inv c s1" using perform_atomic [OF Cons.prems(1), of ev] s1(1) by (simp add: atomic_def)
  have "steps_left c (pcs s1 th) \<le> steps_left c (pcs s th) - count_list [ev] (Step th)"
  proof (cases ev)
    case (Call u call)
    then show ?thesis using s1(1) Cons.prems(3) by (auto split: if_splits)
  next
    case (Step u)
    then show ?thesis using s1(1) advance_closer [OF Cons.prems(1)] advance_other [of c u s s1 th] by (cases "u = th") auto
  qed
  then show ?case using Cons.IH [OF inv1 s1(2)] Cons.prems(3) by (auto split: if_splits)
qed simp

section \<open>A thread that runs alone\<close>

lemma idle_steps: "pcs s th = Idle \<Longrightarrow> foldM (perform c) (replicate n (Step th)) s = Some s"
  by (induction n) (simp_all add: advance_def)

lemma alone_from:
  assumes "run_inv c s" "pcs s th = Inserting pg val d cur" "3 * (Levels c - d) \<le> n"
    and "(do {
      (h, cur) \<leftarrow> insert_walk c (nodes (trie s)) pg cur d;
      if cur = 0 then Some h else store h (cur, level_idx c pg (Levels c - 1)) (val OR kLeafTag)
    }) = Some h'"
  shows "\<exists>s'. foldM (perform c) (replicate n (Step th)) s = Some s' \<and> pcs s' th = Idle \<and> trie s' = (trie s)\<lparr>nodes := h'\<rparr>"
  using assms
proof (induction "Levels c - d" arbitrary: s d cur n)
  case 0
  have "pc_ok c (linked s) (nodes (trie s)) (pcs s th)" using 0(2) by (simp add: run_inv_def)
  then show ?case using 0(1,3) by (simp add: stands_def)
next
  case (Suc k)
  let ?i = "level_idx c pg d" and ?h = "nodes (trie s)"
  have at: "stands c (linked s) pg d cur" using Suc.prems(1,2) unfolding run_inv_def by (metis pc_ok.simps(2))
  then have dl: "d < Levels c" and cur0: "cur \<noteq> 0"
    using heap_wf_node_nonzero [of c "nodes (linked s)" "root (trie s)" _ cur] Suc.prems(1)
    by (auto simp: stands_def run_inv_def trie_wf_def)
  obtain m where n: "n = Suc (Suc (Suc m))" "3 * (Levels c - Suc d) \<le> m"
    using Suc.prems(3) dl by (intro that [of "n - 3"]) auto
  obtain nd where nd: "?h cur = Some nd" using stands_node [OF Suc.prems(1) at] by blast
  note w = Suc.prems(4) [unfolded insert_walk.simps [of c ?h pg cur d]]
  have inv': "run_inv c s1" if "run_inv c s0" "perform c ev s0 = Some s1" for s0 ev s1
    using perform_atomic [OF that(1), of ev] that(2) by (simp add: atomic_def)
  show ?case
  proof (cases "d < Levels c - 1")
    case False
    then have d: "d = Levels c - 1" using dl by simp
    show ?thesis
      using w d Suc.prems(2) cur0 n(1) idle_steps [of "finish th (Insert pg val) Stored (set_nodes h' s)" th c "Suc (Suc m)"]
      by (auto simp: advance_def insert_access_def finish_def split: if_splits)
  next
    case True
    note IH = Suc.hyps(1) [of "Suc d"]
    have ld: "load ?h (cur, ?i) = Some (nd ?i)" using nd by (simp add: load_def)
    consider (child) "nd ?i \<noteq> 0" | (oom) "nd ?i = 0" "new_node c ?h = 0" | (fresh) "nd ?i = 0" "new_node c ?h \<noteq> 0" by blast
    then show ?thesis
    proof cases
      case child
      let ?s1 = "goto th (Inserting pg val (Suc d) (nd ?i)) s"
      have p1: "perform c (Step th) s = Some ?s1"
        using Suc.prems(2) True child ld by (simp add: advance_def insert_access_def)
      have "\<exists>s'. foldM (perform c) (replicate (Suc (Suc m)) (Step th)) ?s1 = Some s' \<and> pcs s' th = Idle \<and>
          trie s' = (trie ?s1)\<lparr>nodes := h'\<rparr>"
        by (rule IH) (use Suc.hyps(2) inv' [OF Suc.prems(1) p1] n(2) w True child ld in auto)
      then show ?thesis using p1 n(1) by simp
    next
      case oom
      let ?s1 = "goto th (Allocating pg val d cur) s"
      have p1: "perform c (Step th) s = Some ?s1"
        using Suc.prems(2) True oom ld by (simp add: advance_def insert_access_def)
      have "perform c (Step th) ?s1 = Some (finish th (Insert pg val) Out_of_memory ?s1)"
        using oom by (simp add: advance_def insert_allocate_def)
      moreover have "h' = ?h" using w True oom ld by simp
      ultimately show ?thesis
        using p1 n(1) idle_steps [of "finish th (Insert pg val) Out_of_memory ?s1" th c "Suc m"] by (simp add: finish_def)
    next
      case fresh
      let ?f = "new_node c ?h"
      let ?s1 = "goto th (Allocating pg val d cur) s"
      let ?s2 = "goto th (Installing pg val d cur ?f) (set_nodes (?h(?f \<mapsto> node_t)) ?s1)"
      let ?h3 = "?h(?f \<mapsto> node_t, cur \<mapsto> nd(?i := ?f))"
      let ?s3 = "goto th (Inserting pg val (Suc d) ?f) (set_nodes ?h3 ?s2)"
      have "?h ?f = None" using Suc.prems(1) fresh(2) unfolding run_inv_def alloc_ok_def by metis
      then have ne: "?f \<noteq> cur" using nd by auto
      have p1: "perform c (Step th) s = Some ?s1"
        using Suc.prems(2) True fresh ld by (simp add: advance_def insert_access_def)
      have p2: "perform c (Step th) ?s1 = Some ?s2" using fresh by (simp add: advance_def insert_allocate_def Let_def)
      have p3: "perform c (Step th) ?s2 = Some ?s3"
        using ne nd fresh(1) by (simp add: advance_def insert_install_def compare_exchange_def load_def store_def)
      have "insert_walk c ?h pg cur d = insert_walk c ?h3 pg ?f (Suc d)"
        using insert_walk_grow [OF True nd fresh(1) refl fresh(2)] \<open>?h ?f = None\<close> by simp
      then have "\<exists>s'. foldM (perform c) (replicate m (Step th)) ?s3 = Some s' \<and> pcs s' th = Idle \<and>
          trie s' = (trie ?s3)\<lparr>nodes := h'\<rparr>"
        by (intro IH) (use Suc.hyps(2) inv' [OF inv' [OF inv' [OF Suc.prems(1) p1] p2] p3] n(2) Suc.prems(4) in simp_all)
      then show ?thesis using p1 p2 p3 n(1) by simp
    qed
  qed
qed

text \<open>Nobody disturbs it: then the steps of \<^verbatim>\<open>insert_leaf\<close> are what the sequential definition computes.\<close>

lemma alone_insert_leaf:
  assumes inv: "run_inv c s" and idle: "pcs s th = Idle" and v: "even val"
    and seq: "insert_leaf c (trie s) pg val = Some t'"
  shows "\<exists>s'. foldM (perform c) (Call th (Insert pg val) # replicate (3 * Levels c) (Step th)) s = Some s' \<and>
    pcs s' th = Idle \<and> trie s' = t'"
proof -
  let ?s1 = "goto th (Inserting pg val 0 (root (trie s))) s"
  have p: "perform c (Call th (Insert pg val)) s = Some ?s1" using idle v by simp
  have inv1: "run_inv c ?s1" using perform_atomic [OF inv, of "Call th (Insert pg val)"] p by (simp add: atomic_def)
  obtain h' where h': "(do {
      (h, cur) \<leftarrow> insert_walk c (nodes (trie ?s1)) pg (root (trie s)) 0;
      if cur = 0 then Some h else store h (cur, level_idx c pg (Levels c - 1)) (val OR kLeafTag)
    }) = Some h'" "t' = (trie s)\<lparr>nodes := h'\<rparr>"
    using seq by (auto simp: insert_leaf_def split: bind_splits if_splits)
  show ?thesis using alone_from [OF inv1 _ _ h'(1), of th "3 * Levels c"] p h'(2) by auto
qed

section \<open>Properties\<close>

text \<open>
  C27: The trie is linearizable and memory safe, whatever the threads call and however their
  atomic accesses interleave. No access ever follows a dangling pointer; the calls, in the order
  in which they returned and with the results they returned, are a run of a sequential map from
  pages to values, where a lookup finds the last value stored; and the trie holds this map.
\<close>

theorem concurrent_trie_is_linearizable:
  assumes "params_ok c" "alloc_ok c" "new_ncrit_trie c = Some t"
  shows "\<exists>s m. foldM (perform c) evs (quiescent t) = Some s \<and>
    foldM (map_effect c) (history s) (\<lambda>_. nullptr) = Some m \<and>
    trie_wf c (linked s) \<and> (\<forall>q. lookup_page c (linked s) q = Some (m q))"
proof -
  have L: "0 < Levels c" using assms(1) by (simp add: params_ok_def)
  have t: "trie_wf c t" "\<forall>q. page_val c t q = 0" using new_trie_spec [OF assms(3) L] by auto
  note q = quiescent_inv [OF assms(1,2) t(1)]
  have start: "contents c (quiescent t) = (\<lambda>_. nullptr)" "history (quiescent t) = []"
    using t(2) q(2) by (simp_all add: contents_def) (simp add: quiescent_def)
  obtain s where s: "foldM (perform c) evs (quiescent t) = Some s" "run_inv c s"
    "foldM (map_effect c) (history s) (\<lambda>_. nullptr) = Some (contents c s)"
    using concurrent.run_linear [OF q(1), of evs] start by auto
  have "lookup_page c (linked s) p = Some (contents c s p)" for p
    using s(2) lookup_page_spec [of c "linked s" p] L by (simp add: run_inv_def contents_def)
  then show ?thesis using s by (auto simp: run_inv_def)
qed

text \<open>
  C28: Every operation of the trie is wait-free: whatever the other threads call and do, a thread
  has returned from its operation after at most three steps of its own per level. The loop of
  \<^verbatim>\<open>insert_leaf\<close> never retries a level, since a lost race yields the node of the winner.
\<close>

theorem trie_operations_are_wait_free:
  assumes "params_ok c" "alloc_ok c" "trie_wf c t"
    and "foldM (perform c) before (quiescent t) = Some s"
    and "\<forall>call. Call th call \<notin> set during" "3 * Levels c \<le> count_list during (Step th)"
  shows "\<exists>s'. foldM (perform c) during s = Some s' \<and> pcs s' th = Idle"
proof -
  have s: "run_inv c s" using concurrent.run_ends [OF quiescent_inv(1) [OF assms(1-3)], of before] assms(4) by simp
  then obtain s' where s': "foldM (perform c) during s = Some s'" "run_inv c s'"
    using concurrent.run_ends [OF s, of during] by blast
  then show ?thesis
    using schedule_closer [OF s s'(1) assms(5)] steps_left_le [of c "pcs s th"] assms(6) steps_left_0 [OF s'(2)] by auto
qed

text \<open>
  C29: No race leaks a node: when all threads have returned, whatever races they lost on the way,
  the nodes of the trie are exactly the allocated ones, and the destructor frees each of them.
\<close>

theorem races_leak_no_node:
  assumes "params_ok c" "alloc_ok c" "trie_wf c t"
    and "foldM (perform c) evs (quiescent t) = Some s" "\<forall>th. pcs s th = Idle"
  shows "node_count c (trie s) = Some (card (dom (nodes (trie s)))) \<and> destroy_trie c (trie s) = Some Map.empty"
proof -
  have "run_inv c s" using concurrent.run_ends [OF quiescent_inv(1) [OF assms(1-3)], of evs] assms(4) by simp
  then have "trie_wf c (trie s)" "0 < Levels c"
    using all_idle_linked [OF assms(5)] by (simp_all add: run_inv_def params_ok_def)
  then show ?thesis using node_count_counts_allocated destroy_trie_frees_everything by blast
qed

section \<open>A race\<close>

text \<open>
  Two threads map neighbouring pages and lose and win together: both find the slot of the root
  empty, both allocate a node, one installs its own and the other deletes its own. A third thread
  looks one of the pages up in between and afterwards.
\<close>

definition race :: "trie_event list" where
  "race = [Call 0 (Insert 10 0x5000), Call 1 (Insert 11 0x6000), Call 2 (Lookup 11), Step 0, Step 1, Step 2,
     Step 0, Step 1, Step 0, Step 1, Step 1, Step 1, Step 1, Step 1, Step 1, Step 1, Step 1, Step 0, Step 0, Step 0,
     Call 2 (Lookup 11), Step 0, Step 2, Step 2, Step 2, Step 2]"

lemma default_new_node: "new_node default_params h = first_free h 1 134480385"
  by (simp add: default_params_def)

lemma race_history:
  "\<exists>s. foldM (perform default_params) race (quiescent empty_trie) = Some s \<and> (\<forall>th. pcs s th = Idle) \<and>
     dom (nodes (trie s)) = {256, 192, 128, 64} \<and>
     history s = [(Lookup 11, Found 0), (Insert 11 0x6000, Stored), (Insert 10 0x5000, Stored), (Lookup 11, Found 0x6000)]"
  by (simp add: race_def quiescent_def advance_def access_defs level_idx_def kIdxMask_def default_new_node first_free_step
      load_def store_def compare_exchange_def delete_node_def node_t_def empty_trie_def Let_def kLeafTag_def)

theorem concurrent_trie_is_linearizable_witness:
  "\<exists>s m. foldM (perform default_params) race (quiescent empty_trie) = Some s \<and>
     history s = [(Lookup 11, Found 0), (Insert 11 0x6000, Stored), (Insert 10 0x5000, Stored), (Lookup 11, Found 0x6000)] \<and>
     lookup_page default_params (linked s) 10 = Some 0x5000 \<and> lookup_page default_params (linked s) 12 = Some 0"
proof -
  obtain s m where s: "foldM (perform default_params) race (quiescent empty_trie) = Some s"
    "foldM (map_effect default_params) (history s) (\<lambda>_. nullptr) = Some m"
    "\<forall>q. lookup_page default_params (linked s) q = Some (m q)"
    using concurrent_trie_is_linearizable [OF default_params_ok default_alloc_ok new_default_trie, of race] by auto
  have h: "history s = [(Lookup 11, Found 0), (Insert 11 0x6000, Stored), (Insert 10 0x5000, Stored), (Lookup 11, Found 0x6000)]"
    using race_history s(1) by auto
  have "m 10 = 0x5000 \<and> m 12 = 0" using s(2) unfolding h by (auto simp: same_page_def split: if_splits)
  then show ?thesis using s h by auto
qed

theorem trie_operations_are_wait_free_witness:
  "\<exists>s s'. foldM (perform default_params) (race @ [Call 3 (Insert 20 0x7000)]) (quiescent empty_trie) = Some s \<and>
     pcs s 3 \<noteq> Idle \<and>
     foldM (perform default_params) (Call 4 (Clear 10) # concat (replicate 12 [Step 3, Step 4])) s = Some s' \<and> pcs s' 3 = Idle"
proof -
  obtain s0 where s0: "foldM (perform default_params) race (quiescent empty_trie) = Some s0" "\<forall>th. pcs s0 th = Idle"
    using race_history by blast
  let ?s = "goto 3 (Inserting 20 0x7000 0 (root (trie s0))) s0"
  have s: "foldM (perform default_params) (race @ [Call 3 (Insert 20 0x7000)]) (quiescent empty_trie) = Some ?s"
    using s0 by (simp add: foldM_append)
  have wf: "trie_wf default_params empty_trie" using empty_trie_ready by (simp add: trie_ready_def)
  let ?evs = "Call 4 (Clear 10) # concat (replicate 12 [Step 3, Step 4])"
  have "\<forall>call. Call 3 call \<notin> set ?evs" "3 * Levels default_params \<le> count_list ?evs (Step 3)"
    by (simp_all add: eval_nat_numeral)
  from trie_operations_are_wait_free [OF default_params_ok default_alloc_ok wf s this]
  obtain s' where "foldM (perform default_params) ?evs ?s = Some s'" "pcs s' 3 = Idle" by blast
  moreover have "pcs ?s 3 \<noteq> Idle" by simp
  ultimately show ?thesis using s by blast
qed

theorem races_leak_no_node_witness:
  "\<exists>s. foldM (perform default_params) race (quiescent empty_trie) = Some s \<and>
     node_count default_params (trie s) = Some 4 \<and> destroy_trie default_params (trie s) = Some Map.empty"
proof -
  have wf: "trie_wf default_params empty_trie" using empty_trie_ready by (simp add: trie_ready_def)
  obtain s where s: "foldM (perform default_params) race (quiescent empty_trie) = Some s" "\<forall>th. pcs s th = Idle"
    "dom (nodes (trie s)) = {256, 192, 128, 64}"
    using race_history by blast
  then show ?thesis using races_leak_no_node [OF default_params_ok default_alloc_ok wf s(1,2)] by auto
qed

end
