(* ===== verification/Platform_Windows.thy ===== *)
theory Platform_Windows
  imports Platform
begin

text \<open>
  The Windows branch of \<^verbatim>\<open>detail/platform.hpp\<close>, and the contract that both branches of the
  shared-memory helpers meet. Named memory is a sparse file of 1 TB that is mapped piecewise.

  As for POSIX, the operating system answers every call from the history of calls. The helpers
  also build a \<^verbatim>\<open>std::string\<close>, which may throw; the ones with a handler return a value then, the
  others are \<^verbatim>\<open>noexcept\<close> and terminate the process, which is the result None.
\<close>

section \<open>Definitions\<close>

subsection \<open>System calls\<close>

type_synonym dword = "32 word"

datatype disposition = CREATE_ALWAYS | OPEN_EXISTING

datatype winevent =
    W_temp_path nat string
  | W_create_file string disposition u64
  | W_set_sparse u64
  | W_seek u64 u64
  | W_set_end u64
  | W_create_mapping u64 u64
  | W_map_view u64 dword dword u64 u64
  | W_unmap_view u64
  | W_close u64
  | W_delete_file string
  | W_virtual_alloc u64 u64
  | W_virtual_free u64

type_synonym whistory = "winevent list"

record win =
  w_granularity :: u64
  w_string :: "whistory \<Rightarrow> string \<Rightarrow> bool"
  w_temp :: "whistory \<Rightarrow> nat \<times> string"
  w_open :: "whistory \<Rightarrow> string \<Rightarrow> disposition \<Rightarrow> u64"
  w_mapping :: "whistory \<Rightarrow> u64 \<Rightarrow> u64"
  w_view :: "whistory \<Rightarrow> u64 \<Rightarrow> dword \<Rightarrow> dword \<Rightarrow> u64 \<Rightarrow> u64"
  w_virtual :: "whistory \<Rightarrow> u64 \<Rightarrow> u64"

definition INVALID_HANDLE_VALUE :: u64 where
  "INVALID_HANDLE_VALUE = -1"

definition MAX_PATH :: nat where
  "MAX_PATH = 260"

definition win_page_size :: "win \<Rightarrow> u64" where
  "win_page_size os = w_granularity os"

definition win_mmap_alloc :: "win \<Rightarrow> u64 \<Rightarrow> whistory \<Rightarrow> u64 \<times> whistory" where
  "win_mmap_alloc os sz h = (let p = w_virtual os h sz in (p, h @ [W_virtual_alloc sz p]))"

definition win_mmap_free :: "u64 \<Rightarrow> u64 \<Rightarrow> whistory \<Rightarrow> whistory" where
  "win_mmap_free p sz h = (if p \<noteq> nullptr then h @ [W_virtual_free p] else h)"

subsection \<open>Names and paths\<close>

definition backslash :: char where
  "backslash = CHR 0x5C"

definition win_is_custom_path :: "string \<Rightarrow> bool" where
  "win_is_custom_path name \<longleftrightarrow> strchr name CHR ''/'' \<noteq> None \<or> strchr name backslash \<noteq> None"

text \<open>The path, or None when building the string throws.\<close>

definition get_shm_path :: "win \<Rightarrow> string \<Rightarrow> whistory \<Rightarrow> string option \<times> whistory" where
  "get_shm_path os name h =
     (if win_is_custom_path name then (if w_string os h name then Some name else None, h)
      else
        let (res, temp_path) = w_temp os h;
            h = h @ [W_temp_path res temp_path];
            path =
              (if res = 0 \<or> res > MAX_PATH then ''C:'' @ [backslash] @ ''Memnon_'' @ name @ ''.dat''
               else temp_path @ ''Memnon_'' @ name @ ''.dat'')
        in (if w_string os h path then Some path else None, h))"

subsection \<open>Named shared memory\<close>

definition win_open :: "win \<Rightarrow> string \<Rightarrow> disposition \<Rightarrow> whistory \<Rightarrow> u64 \<times> whistory" where
  "win_open os path disp h = (let r = w_open os h path disp in (r, h @ [W_create_file path disp r]))"

definition win_mapping :: "win \<Rightarrow> u64 \<Rightarrow> whistory \<Rightarrow> u64 \<times> whistory" where
  "win_mapping os hFile h = (let r = w_mapping os h hFile in (r, h @ [W_create_mapping hFile r]))"

definition win_view :: "win \<Rightarrow> u64 \<Rightarrow> dword \<Rightarrow> dword \<Rightarrow> u64 \<Rightarrow> whistory \<Rightarrow> u64 \<times> whistory" where
  "win_view os hMap high low sz h = (let p = w_view os h hMap high low sz in (p, h @ [W_map_view hMap high low sz p]))"

definition win_close :: "u64 \<Rightarrow> whistory \<Rightarrow> whistory" where
  "win_close r h = h @ [W_close r]"

definition win_shm_create :: "win \<Rightarrow> string \<Rightarrow> u64 \<Rightarrow> whistory \<Rightarrow> u64 \<times> whistory" where
  "win_shm_create os name sz h =
     (case get_shm_path os name h of
        (None, h) \<Rightarrow> (nullptr, h)
      | (Some path, h) \<Rightarrow>
          let (hFile, h) = win_open os path CREATE_ALWAYS h
          in if hFile = INVALID_HANDLE_VALUE then (nullptr, h)
             else
               let h = h @ [W_set_sparse hFile];
                   h = h @ [W_seek hFile (push_bit 40 1)];
                   h = h @ [W_set_end hFile];
                   (hMap, h) = win_mapping os hFile h
               in if hMap = nullptr then (nullptr, win_close hFile h)
                  else
                    let (p, h) = win_view os hMap 0 0 sz h
                    in (p, win_close hFile (win_close hMap h)))"

definition win_shm_open_existing :: "win \<Rightarrow> string \<Rightarrow> u64 \<Rightarrow> whistory \<Rightarrow> u64 \<times> whistory" where
  "win_shm_open_existing os name sz h =
     (case get_shm_path os name h of
        (None, h) \<Rightarrow> (nullptr, h)
      | (Some path, h) \<Rightarrow>
          let (hFile, h) = win_open os path OPEN_EXISTING h
          in if hFile = INVALID_HANDLE_VALUE then (nullptr, h)
             else
               let (hMap, h) = win_mapping os hFile h
               in if hMap = nullptr then (nullptr, win_close hFile h)
                  else
                    let (p, h) = win_view os hMap 0 0 sz h
                    in (p, win_close hFile (win_close hMap h)))"

definition offset_high :: "u64 \<Rightarrow> dword" where
  "offset_high file_off = ucast (drop_bit 32 file_off)"

definition offset_low :: "u64 \<Rightarrow> dword" where
  "offset_low file_off = ucast (file_off AND 0xFFFFFFFF)"

definition win_shm_map_chunk :: "win \<Rightarrow> string \<Rightarrow> u64 \<Rightarrow> u64 \<Rightarrow> whistory \<Rightarrow> u64 \<times> whistory" where
  "win_shm_map_chunk os name sz file_off h =
     (case get_shm_path os name h of
        (None, h) \<Rightarrow> (nullptr, h)
      | (Some path, h) \<Rightarrow>
          let (hFile, h) = win_open os path OPEN_EXISTING h
          in if hFile = INVALID_HANDLE_VALUE then (nullptr, h)
             else
               let (hMap, h) = win_mapping os hFile h
               in if hMap = nullptr then (nullptr, win_close hFile h)
                  else
                    let (p, h) = win_view os hMap (offset_high file_off) (offset_low file_off) sz h
                    in (p, win_close hFile (win_close hMap h)))"

definition win_shm_get_size :: "string \<Rightarrow> u64" where
  "win_shm_get_size name = push_bit 40 1"

definition win_shm_grow :: "string \<Rightarrow> u64 \<Rightarrow> bool" where
  "win_shm_grow name new_size = True"

definition win_shm_remove :: "win \<Rightarrow> string \<Rightarrow> whistory \<Rightarrow> whistory option" where
  "win_shm_remove os name h =
     (if name = [] then Some h
      else case get_shm_path os name h of
        (None, h) \<Rightarrow> None
      | (Some path, h) \<Rightarrow> Some (h @ [W_delete_file path]))"

definition win_shm_close :: "u64 \<Rightarrow> u64 \<Rightarrow> whistory \<Rightarrow> whistory" where
  "win_shm_close base sz h = (if base \<noteq> nullptr then h @ [W_unmap_view base] else h)"

definition win_shm_destroy :: "win \<Rightarrow> u64 \<Rightarrow> u64 \<Rightarrow> string \<Rightarrow> whistory \<Rightarrow> whistory option" where
  "win_shm_destroy os base sz name h =
     (let h = (if base \<noteq> nullptr then h @ [W_unmap_view base] else h)
      in if name = [] then Some h
         else case get_shm_path os name h of
           (None, h) \<Rightarrow> None
         | (Some path, h) \<Rightarrow> Some (h @ [W_delete_file path]))"

subsection \<open>What a history says\<close>

text \<open>The handles that are open and the views that are mapped after a history.\<close>

definition handle_event :: "winevent \<Rightarrow> u64 list \<Rightarrow> u64 list" where
  "handle_event e hs =
     (case e of
        W_create_file _ _ r \<Rightarrow> if r = INVALID_HANDLE_VALUE then hs else r # hs
      | W_create_mapping _ r \<Rightarrow> if r = nullptr then hs else r # hs
      | W_close r \<Rightarrow> remove1 r hs
      | _ \<Rightarrow> hs)"

definition open_handles :: "whistory \<Rightarrow> u64 list" where
  "open_handles h = fold handle_event h []"

fun drop_view :: "u64 \<Rightarrow> (u64 \<times> u64) list \<Rightarrow> (u64 \<times> u64) list" where
  "drop_view p [] = []"
| "drop_view p ((q, sz) # vs) = (if q = p then vs else (q, sz) # drop_view p vs)"

definition view_event :: "winevent \<Rightarrow> (u64 \<times> u64) list \<Rightarrow> (u64 \<times> u64) list" where
  "view_event e vs =
     (case e of
        W_map_view _ _ _ sz p \<Rightarrow> if p = nullptr then vs else (p, sz) # vs
      | W_unmap_view p \<Rightarrow> drop_view p vs
      | _ \<Rightarrow> vs)"

definition live_views :: "whistory \<Rightarrow> (u64 \<times> u64) list" where
  "live_views h = fold view_event h []"

lemma open_handles_append [simp]: "open_handles (h @ es) = fold handle_event es (open_handles h)"
  by (simp add: open_handles_def)

lemma live_views_append [simp]: "live_views (h @ es) = fold view_event es (live_views h)"
  by (simp add: live_views_def)

lemmas win_defs = win_open_def win_mapping_def win_view_def win_close_def
lemmas win_shm_defs = win_shm_create_def win_shm_open_existing_def win_shm_map_chunk_def win_shm_close_def

lemma get_shm_path_events:
  "\<exists>es. snd (get_shm_path os name h) = h @ es \<and> (\<forall>e \<in> set es. \<exists>n s. e = W_temp_path n s)"
  by (auto simp: get_shm_path_def Let_def split: prod.splits)

lemma get_shm_path_quiet:
  assumes "get_shm_path os name h = (r, h')"
  shows "open_handles h' = open_handles h" "live_views h' = live_views h"
  using assms by (auto simp: get_shm_path_def Let_def handle_event_def view_event_def split: prod.splits if_splits)

section \<open>The contract of both branches\<close>

text \<open>
  What the segments rely on: a helper that returns an address has added exactly one mapping, one
  that returns null has added none, neither leaves a descriptor or handle open, and closing what a
  helper returned removes the mapping, if there is one. \<open>valid\<close> is what closing needs of an address.
\<close>

locale shm_layer =
  fixes live :: "'h \<Rightarrow> (u64 \<times> u64) list"
    and opened :: "'h \<Rightarrow> 'f list"
    and valid :: "u64 \<Rightarrow> bool"
    and create :: "string \<Rightarrow> u64 \<Rightarrow> 'h \<Rightarrow> u64 \<times> 'h"
    and open_existing :: "string \<Rightarrow> u64 \<Rightarrow> 'h \<Rightarrow> u64 \<times> 'h"
    and map_chunk :: "string \<Rightarrow> u64 \<Rightarrow> u64 \<Rightarrow> 'h \<Rightarrow> u64 \<times> 'h"
    and close_map :: "u64 \<Rightarrow> u64 \<Rightarrow> 'h \<Rightarrow> 'h"
  assumes helper_maps: "(p, h') \<in> {create n sz h, open_existing n sz h, map_chunk n sz off h} \<Longrightarrow>
      opened h' = opened h \<and> (p = nullptr \<or> valid p) \<and>
      live h' = (if p = nullptr then live h else (p, sz) # live h)"
    and close_null: "close_map nullptr sz h = h"
    and close_unmaps: "p \<noteq> nullptr \<Longrightarrow> valid p \<Longrightarrow> live h = (p, sz) # ms \<Longrightarrow> live (close_map p sz h) = ms"
    and close_opened: "opened (close_map p sz h) = opened h"
begin

lemma helper_close:
  assumes "(p, h') \<in> {create n sz h, open_existing n sz h, map_chunk n sz off h}"
  shows "live (close_map p sz h') = live h \<and> opened (close_map p sz h') = opened h"
  using helper_maps [OF assms] close_null [of sz h'] close_unmaps [of p h' sz "live h"] close_opened [of p sz h']
  by (cases "p = nullptr") auto

end

text \<open>On POSIX the null address is not a mapping that a helper can return.\<close>

definition posix_live :: "history \<Rightarrow> (u64 \<times> u64) list" where
  "posix_live h = filter (\<lambda>m. fst m \<noteq> nullptr) (live_maps h)"

interpretation posix_shm: shm_layer posix_live open_fds "\<lambda>p. p \<noteq> MAP_FAILED"
    "shm_create os pl" "shm_open_existing os pl" "shm_map_chunk os pl" shm_close
  for os pl
proof
  fix n sz off h p h'
  assume c: "(p, h') \<in> {shm_create os pl n sz h, shm_open_existing os pl n sz h, shm_map_chunk os pl n sz off h}"
  have "open_fds h' = open_fds h" using shm_helpers_close_fds [of os pl n sz h off] c by (auto simp: prod_eq_iff)
  moreover have "(p = nullptr \<or> p \<noteq> MAP_FAILED) \<and>
      posix_live h' = (if p = nullptr then posix_live h else (p, sz) # posix_live h)"
    using c [simplified] by (auto simp: shm_create_def shm_open_existing_def shm_map_chunk_def syscall_defs Let_def posix_live_def
        map_event_def split: if_splits)
  ultimately show "open_fds h' = open_fds h \<and> (p = nullptr \<or> p \<noteq> MAP_FAILED) \<and>
      posix_live h' = (if p = nullptr then posix_live h else (p, sz) # posix_live h)" by blast
next
  fix p sz h ms
  assume p: "p \<noteq> nullptr" "p \<noteq> MAP_FAILED" and l: "posix_live h = (p, sz) # ms"
  have "filter P (remove1 x xs) = remove1 x (filter P xs)" if "P x" for P and x :: "u64 \<times> u64" and xs
    using that by (induction xs) auto
  then show "posix_live (shm_close p sz h) = ms"
    using p l by (simp add: shm_close_def do_munmap_def posix_live_def map_event_def)
qed (simp_all add: shm_close_def do_munmap_def fd_event_def)

interpretation windows_shm: shm_layer live_views open_handles "\<lambda>_. True"
    "win_shm_create os" "win_shm_open_existing os" "win_shm_map_chunk os" win_shm_close
  for os
proof
  fix n sz off h p h'
  assume c: "(p, h') \<in> {win_shm_create os n sz h, win_shm_open_existing os n sz h, win_shm_map_chunk os n sz off h}"
  obtain r h1 where g: "get_shm_path os n h = (r, h1)" by fastforce
  show "open_handles h' = open_handles h \<and> (p = nullptr \<or> True) \<and>
      live_views h' = (if p = nullptr then live_views h else (p, sz) # live_views h)"
    using c g get_shm_path_quiet [OF g]
    by (auto simp: win_shm_create_def win_shm_open_existing_def win_shm_map_chunk_def win_defs Let_def handle_event_def
        view_event_def split: option.splits if_splits)
qed (simp_all add: win_shm_close_def view_event_def handle_event_def)

section \<open>Properties\<close>

text \<open>
  C40: Both branches of the helpers that create, open and map shared memory, POSIX and Windows, map
  all or nothing and leak no descriptor or handle, whatever the operating system answers to each
  call: on every path, failing ones included, the descriptors or handles that are open afterwards are
  those that were open before; a helper that returns an address has added that mapping and no
  other, one that returns null has added none; and closing what was returned gives the
  mappings there were before.
\<close>

theorem both_platforms_release_mappings:
  assumes "(p, h') \<in> {shm_create os pl n sz h, shm_open_existing os pl n sz h, shm_map_chunk os pl n sz off h}"
    and "(q, wh') \<in> {win_shm_create wos n sz wh, win_shm_open_existing wos n sz wh, win_shm_map_chunk wos n sz off wh}"
  shows "open_fds h' = open_fds h \<and>
      posix_live h' = (if p = nullptr then posix_live h else (p, sz) # posix_live h) \<and>
      posix_live (shm_close p sz h') = posix_live h \<and> open_fds (shm_close p sz h') = open_fds h \<and>
      open_handles wh' = open_handles wh \<and>
      live_views wh' = (if q = nullptr then live_views wh else (q, sz) # live_views wh) \<and>
      live_views (win_shm_close q sz wh') = live_views wh \<and> open_handles (win_shm_close q sz wh') = open_handles wh"
  using posix_shm.helper_maps [OF assms(1)] posix_shm.helper_close [OF assms(1)]
    windows_shm.helper_maps [OF assms(2)] windows_shm.helper_close [OF assms(2)] by blast

text \<open>
  A Windows that answers every call: the temporary directory is a backslash, handles are taken from
  the length of the history, and a view is refused when it reaches beyond the end of the file.
\<close>

definition demo_win :: win where
  "demo_win = \<lparr>w_granularity = 0x10000, w_string = \<lambda>h s. True, w_temp = \<lambda>h. (1, [backslash]),
     w_open = \<lambda>h path disp. of_nat (Suc (length h)), w_mapping = \<lambda>h f. of_nat (Suc (length h)),
     w_view = \<lambda>h m high low sz.
       if unat high * 2 ^ 32 + unat low + unat sz \<le> 2 ^ 40 then 0x40000000 else nullptr,
     w_virtual = \<lambda>h sz. nullptr\<rparr>"

theorem both_platforms_release_mappings_witness:
  "let (p, h) = shm_create demo_os \<lparr>apple = False, aarch64 = False, getpagesize = 4096\<rparr> ''seg'' 0x100000 [];
       (q, wh) = win_shm_create demo_win ''seg'' 0x100000 []
   in p = 0x40000000 \<and> q = p \<and> live_views wh = [(q, 0x100000)] \<and> live_views (win_shm_close q 0x100000 wh) = [] \<and>
      open_fds (shm_close p 0x100000 h) = [] \<and> open_handles (win_shm_close q 0x100000 wh) = []"
proof -
  let ?pl = "\<lparr>apple = False, aarch64 = False, getpagesize = 4096\<rparr>"
  obtain p h where c: "shm_create demo_os ?pl ''seg'' 0x100000 [] = (p, h)" by fastforce
  obtain q wh where d: "win_shm_create demo_win ''seg'' 0x100000 [] = (q, wh)" by fastforce
  have p: "p = 0x40000000"
    using c by (auto simp: shm_create_def syscall_defs Let_def demo_os_def MAP_FAILED_def split: if_splits)
  have "strchr ''seg'' CHR ''/'' = None" "strchr ''seg'' backslash = None"
    by (simp_all add: strchr_None backslash_def)
  then have q: "q = p"
    using d p by (auto simp: win_shm_create_def get_shm_path_def win_is_custom_path_def win_defs Let_def demo_win_def
        INVALID_HANDLE_VALUE_def MAX_PATH_def split: if_splits)
  have "(p, h) \<in> {shm_create demo_os ?pl ''seg'' 0x100000 [], shm_open_existing demo_os ?pl ''seg'' 0x100000 [],
        shm_map_chunk demo_os ?pl ''seg'' 0x100000 0 []}"
    "(q, wh) \<in> {win_shm_create demo_win ''seg'' 0x100000 [], win_shm_open_existing demo_win ''seg'' 0x100000 [],
        win_shm_map_chunk demo_win ''seg'' 0x100000 0 []}"
    using c d by simp_all
  from both_platforms_release_mappings [OF this] show ?thesis
    using c d p q by (simp add: live_views_def open_fds_def open_handles_def)
qed

text \<open>The two halves of a file offset are the offset.\<close>

lemma offset_halves: "unat (offset_high x) * 2 ^ 32 + unat (offset_low x) = unat x"
proof -
  have l: "(0xFFFFFFFF :: u64) = mask 32" by (simp add: mask_eq_exp_minus_1)
  have "unat x div 2 ^ 32 < 2 ^ 32" using unat_lt_2p64 [of x] by (simp add: less_mult_imp_div_less del: unat_lt_2p64)
  then have "unat (offset_high x) = unat x div 2 ^ 32"
    unfolding offset_high_def unsigned_ucast_eq unat_drop_bit unfolding drop_bit_eq_div
    by (simp add: take_bit_nat_eq_self)
  moreover have "unat (offset_low x) = unat x mod 2 ^ 32"
    unfolding offset_low_def l take_bit_eq_mask [symmetric] unsigned_ucast_eq unat_take_bit unfolding take_bit_eq_mod
    by simp
  ultimately show ?thesis by simp
qed

text \<open>
  On Windows growth is never refused, but every chunk lies in a file of 1 TB: once the file
  is full, \<^verbatim>\<open>shm_grow\<close> still answers true for the larger size and mapping the new chunk
  returns null, on an operating system that refuses a view beyond the end of the file.
\<close>

lemma windows_growth_stops_at_limit:
  assumes "\<And>h m high low sz. unat (win_shm_get_size n) < unat high * 2 ^ 32 + unat low + unat sz \<Longrightarrow> w_view os h m high low sz = nullptr"
    and "2 ^ 40 < unat off + unat sz"
  shows "win_shm_grow n (off + sz) \<and> fst (win_shm_map_chunk os n sz off h) = nullptr"
proof -
  have "unat (push_bit 40 (1 :: u64)) = 2 ^ 40" by simp
  then have "w_view os h m (offset_high off) (offset_low off) sz = nullptr" for h m
    using assms offset_halves [of off] by (simp add: win_shm_get_size_def)
  then show ?thesis
    by (auto simp: win_shm_grow_def win_shm_map_chunk_def win_view_def Let_def split: prod.splits option.splits)
qed

lemma windows_growth_stops_at_limit_witness:
  "win_shm_grow ''seg'' (0x10000000000 + 0x10000) \<and>
   fst (win_shm_map_chunk demo_win ''seg'' 0x10000 0x10000000000 []) = nullptr"
  by (rule windows_growth_stops_at_limit) (simp_all add: demo_win_def win_shm_get_size_def)

text \<open>
  Creation on Windows is not all or nothing for the file: when the mapping or the view is
  refused, the helper returns null and leaves behind the file it has created or truncated, where
  the POSIX branch unlinks it.
\<close>

lemma windows_failed_create_leaves_file:
  assumes "win_shm_create os n sz h = (nullptr, h @ es)" "W_create_file path disp r \<in> set es" "r \<noteq> INVALID_HANDLE_VALUE"
  shows "disp = CREATE_ALWAYS \<and> W_seek r (push_bit 40 1) \<in> set es \<and> W_set_end r \<in> set es \<and>
    (\<forall>p. W_delete_file p \<notin> set es)"
proof -
  obtain o1 h1 where g: "get_shm_path os n h = (o1, h1)" by fastforce
  obtain ts where ts: "h1 = h @ ts" "\<forall>e \<in> set ts. \<exists>n s. e = W_temp_path n s"
    using get_shm_path_events [of os n h] g by auto
  have "W_create_file path disp r \<notin> set ts" "W_delete_file p \<notin> set ts" for p using ts(2) by blast+
  then show ?thesis
    using assms g ts(1) by (auto simp: win_shm_create_def win_defs Let_def split: option.splits if_splits)
qed

lemma windows_failed_create_leaves_file_witness:
  "\<exists>es path r. win_shm_create demo_win ''seg'' 0x10000010000 [] = (nullptr, es) \<and> W_create_file path CREATE_ALWAYS r \<in> set es \<and>
     r \<noteq> INVALID_HANDLE_VALUE \<and> W_set_end r \<in> set es \<and> (\<forall>p. W_delete_file p \<notin> set es)"
proof -
  obtain q es where d: "win_shm_create demo_win ''seg'' 0x10000010000 [] = (q, es)" by fastforce
  have "strchr ''seg'' CHR ''/'' = None" "strchr ''seg'' backslash = None" by (simp_all add: strchr_None backslash_def)
  then have q: "q = nullptr" and e: "\<exists>path. W_create_file path CREATE_ALWAYS 2 \<in> set es"
    using d by (auto simp: win_shm_create_def get_shm_path_def win_is_custom_path_def win_defs Let_def demo_win_def
        INVALID_HANDLE_VALUE_def MAX_PATH_def split: if_splits)
  then obtain path where p: "W_create_file path CREATE_ALWAYS 2 \<in> set es" by blast
  have i: "(2 :: u64) \<noteq> INVALID_HANDLE_VALUE" by (simp add: INVALID_HANDLE_VALUE_def)
  have "win_shm_create demo_win ''seg'' 0x10000010000 [] = (nullptr, [] @ es)" using d q by simp
  from windows_failed_create_leaves_file [OF this p i] show ?thesis using d q p i by blast
qed

end
