(* ===== verification/Shm_Spinlock.thy ===== *)
theory Shm_Spinlock
  imports Prelude
begin

text \<open>
  The two spin locks of the program: \<^verbatim>\<open>shm_spinlock\<close> of
  \<^verbatim>\<open>include/segmented_interprocess/shm_spinlock.hpp\<close>, which guards the allocator inside a
  segment, and \<^verbatim>\<open>detail::spinlock\<close> of \<^verbatim>\<open>prefetch_worker.hpp\<close>, which guards the queue of the
  worker. One atomic access of the flag is one step; the threads interleave between accesses.
\<close>

section \<open>Definitions\<close>

text \<open>\<^verbatim>\<open>flag_.exchange(true)\<close> and \<^verbatim>\<open>flag_.test_and_set()\<close>: the old value and the new flag.\<close>

definition exchange :: "bool \<Rightarrow> bool \<Rightarrow> bool \<times> bool" where
  "exchange flag v = (flag, v)"

definition try_lock :: "bool \<Rightarrow> bool \<times> bool" where
  "try_lock flag = (let (old, flag) = exchange flag True in (\<not> old, flag))"

definition unlock :: "bool \<Rightarrow> bool" where
  "unlock flag = False"

text \<open>Where a thread is: outside, before the exchange, in the inner loop, or holding the lock.\<close>

datatype lock_pc = Outside | Exchanging | Spinning | Holding

record spinlock =
  flag :: bool
  pc :: "nat \<Rightarrow> lock_pc"

definition spinlock_init :: spinlock where
  "spinlock_init = \<lparr>flag = False, pc = (\<lambda>_. Outside)\<rparr>"

text \<open>
  One iteration of the loops of \<^verbatim>\<open>shm_spinlock::lock\<close>: the exchange of the outer loop, or the
  relaxed load of the inner one.
\<close>

definition shm_lock_step :: "nat \<Rightarrow> spinlock \<Rightarrow> spinlock" where
  "shm_lock_step th s =
     (case pc s th of
        Exchanging \<Rightarrow>
          (let (old, f) = exchange (flag s) True
           in s\<lparr>flag := f, pc := (pc s)(th := if old then Spinning else Holding)\<rparr>)
      | Spinning \<Rightarrow> if flag s then s else s\<lparr>pc := (pc s)(th := Exchanging)\<rparr>
      | _ \<Rightarrow> s)"

text \<open>One iteration of \<^verbatim>\<open>detail::spinlock::lock\<close>, which has no inner loop.\<close>

definition tas_lock_step :: "nat \<Rightarrow> spinlock \<Rightarrow> spinlock" where
  "tas_lock_step th s =
     (case pc s th of
        Exchanging \<Rightarrow>
          (let (old, f) = exchange (flag s) True
           in if old then s\<lparr>flag := f\<rparr> else s\<lparr>flag := f, pc := (pc s)(th := Holding)\<rparr>)
      | _ \<Rightarrow> s)"

definition try_lock_step :: "nat \<Rightarrow> spinlock \<Rightarrow> bool \<times> spinlock" where
  "try_lock_step th s =
     (let (locked, f) = try_lock (flag s)
      in (locked, s\<lparr>flag := f, pc := (pc s)(th := if locked then Holding else Outside)\<rparr>))"

definition unlock_step :: "nat \<Rightarrow> spinlock \<Rightarrow> spinlock" where
  "unlock_step th s = s\<lparr>flag := unlock (flag s), pc := (pc s)(th := Outside)\<rparr>"

text \<open>
  Runs of several threads that use the lock as a mutex: a thread enters \<^verbatim>\<open>lock\<close> or
  \<^verbatim>\<open>try_lock\<close> from outside and unlocks only what it holds. The loop of \<^verbatim>\<open>lock\<close> is a parameter.
\<close>

inductive lock_run :: "(nat \<Rightarrow> spinlock \<Rightarrow> spinlock) \<Rightarrow> spinlock \<Rightarrow> spinlock \<Rightarrow> bool" for loop where
  enter [step_intros]: "pc s th = Outside \<Longrightarrow> lock_run loop s (s\<lparr>pc := (pc s)(th := Exchanging)\<rparr>)"
| iterate [step_intros]: "pc s th \<in> {Exchanging, Spinning} \<Longrightarrow> lock_run loop s (loop th s)"
| tries [step_intros]: "pc s th = Outside \<Longrightarrow> lock_run loop s (snd (try_lock_step th s))"
| leave [step_intros]: "pc s th = Holding \<Longrightarrow> lock_run loop s (unlock_step th s)"

text \<open>The flag is set exactly while one thread, and only one, holds the lock.\<close>

definition lock_inv :: "spinlock \<Rightarrow> bool" where
  "lock_inv s \<longleftrightarrow>
     (flag s \<longleftrightarrow> (\<exists>th. pc s th = Holding)) \<and>
     (\<forall>t u. pc s t = Holding \<longrightarrow> pc s u = Holding \<longrightarrow> t = u)"

text \<open>A step of a thread that does not hold the lock: it takes the free lock or does not get it.\<close>

lemma lock_inv_upd:
  assumes "lock_inv s" "pc s th \<noteq> Holding" "\<And>u. u \<noteq> th \<Longrightarrow> pc s' u = pc s u"
    and "flag s' = flag s \<and> pc s' th \<noteq> Holding \<or> \<not> flag s \<and> flag s' \<and> pc s' th = Holding"
  shows "lock_inv s'"
  using assms(4)
proof
  assume a: "flag s' = flag s \<and> pc s' th \<noteq> Holding"
  then have "pc s' u = Holding \<longleftrightarrow> pc s u = Holding" for u using assms(2,3) by (cases "u = th") auto
  with a assms(1) show ?thesis by (simp add: lock_inv_def)
next
  assume a: "\<not> flag s \<and> flag s' \<and> pc s' th = Holding"
  then have "pc s' u = Holding \<longleftrightarrow> u = th" for u
    using assms(1,3) by (cases "u = th") (auto simp: lock_inv_def)
  with a show ?thesis by (simp add: lock_inv_def)
qed

section \<open>The contract of a lock loop\<close>

text \<open>
  What both loops promise: an iteration changes the lock only by taking it for its own
  thread while it is free, and a thread that keeps iterating on a free lock gets it.
  \<open>waits\<close> tells where a thread inside the loop can be.
\<close>

locale lock_loop =
  fixes loop :: "nat \<Rightarrow> spinlock \<Rightarrow> spinlock"
    and waits :: "lock_pc \<Rightarrow> bool"
  assumes loop_frame: "u \<noteq> th \<Longrightarrow> pc (loop th s) u = pc s u"
    and loop_safe: "pc s th \<in> {Exchanging, Spinning} \<Longrightarrow>
      flag (loop th s) = flag s \<and> pc (loop th s) th \<noteq> Holding \<or>
      \<not> flag s \<and> flag (loop th s) \<and> pc (loop th s) th = Holding"
    and loop_free: "pc s th = Exchanging \<Longrightarrow> \<not> flag s \<Longrightarrow> pc (loop th s) th = Holding"
    and loop_wait: "waits (pc s th) \<Longrightarrow> \<not> flag s \<Longrightarrow>
      pc s th = Exchanging \<or> pc (loop th s) th = Exchanging \<and> \<not> flag (loop th s)"
begin

lemma run_inv:
  assumes inv: "lock_inv s" and "lock_run loop s s'"
  shows "lock_inv s'"
  using assms(2)
proof cases
  case (enter th)
  then show ?thesis
    using lock_inv_upd [OF inv, of th s'] by simp
next
  case (iterate th)
  then show ?thesis
    using lock_inv_upd [OF inv, of th s'] loop_frame [of _ th s] loop_safe [OF iterate(2)] by auto
next
  case (tries th)
  then show ?thesis
    using lock_inv_upd [OF inv, of th s']
    by (cases "flag s") (simp_all add: try_lock_step_def try_lock_def exchange_def)
next
  case (leave th)
  then show ?thesis
    using inv by (simp add: lock_inv_def unlock_step_def unlock_def) metis
qed

text \<open>Two iterations of a waiting thread on a free lock take it.\<close>

lemma two_iterations:
  assumes "waits (pc s th)" "\<not> flag s"
  shows "pc (loop th s) th = Holding \<or> pc (loop th (loop th s)) th = Holding"
  using loop_wait [OF assms] loop_free [of s th] loop_free [of "loop th s" th] assms(2) by auto

end

sublocale lock_loop \<subseteq> run: stepper "\<lambda>s. s = spinlock_init" "lock_run loop" lock_inv
proof
  show "lock_inv s" if "s = spinlock_init" for s using that by (simp add: lock_inv_def spinlock_init_def)
  show "lock_inv t" if "lock_inv s" "lock_run loop s t" for s t using that by (rule run_inv)
qed

interpretation shm_lock: lock_loop shm_lock_step "\<lambda>p. p \<in> {Exchanging, Spinning}"
  by unfold_locales (auto simp: shm_lock_step_def exchange_def split: lock_pc.splits)

interpretation tas_lock: lock_loop tas_lock_step "\<lambda>p. p = Exchanging"
  by unfold_locales (auto simp: tas_lock_step_def exchange_def split: lock_pc.splits)

section \<open>Properties\<close>

text \<open>
  C39: Mutual exclusion: however any number of threads interleave the accesses of \<^verbatim>\<open>lock\<close>,
  \<^verbatim>\<open>try_lock\<close> and \<^verbatim>\<open>unlock\<close>, at most one of them holds the lock, and while one holds it the flag is set, for both locks of
  the program.
\<close>

theorem spinlock_mutual_exclusion:
  assumes "(lock_run shm_lock_step)\<^sup>*\<^sup>* spinlock_init s \<or> (lock_run tas_lock_step)\<^sup>*\<^sup>* spinlock_init s"
    and "pc s t = Holding" "pc s u = Holding"
  shows "t = u \<and> flag s"
proof -
  have "lock_inv s" using assms(1) shm_lock.run.inv_reachable tas_lock.run.inv_reachable by blast
  with assms(2,3) show ?thesis by (auto simp: lock_inv_def)
qed

lemma demo_lock_run:
  "(lock_run shm_lock_step)\<^sup>*\<^sup>* spinlock_init \<lparr>flag = True, pc = (\<lambda>_. Outside)(3 := Holding)\<rparr>"
proof -
  let ?s = "\<lparr>flag = False, pc = (\<lambda>_. Outside)(3 := Exchanging)\<rparr>"
  have "lock_run shm_lock_step spinlock_init ?s"
    using enter [of spinlock_init 3 shm_lock_step] by (simp add: spinlock_init_def)
  moreover have "lock_run shm_lock_step ?s (shm_lock_step 3 ?s)" by (rule iterate) simp
  then have "lock_run shm_lock_step ?s \<lparr>flag = True, pc = (\<lambda>_. Outside)(3 := Holding)\<rparr>"
    by (simp add: shm_lock_step_def exchange_def)
  ultimately show ?thesis by (meson converse_rtranclp_into_rtranclp rtranclp.rtrancl_refl)
qed

theorem spinlock_mutual_exclusion_witness:
  "let s = \<lparr>flag = True, pc = (\<lambda>_. Outside)(3 := Holding)\<rparr> in
   (lock_run shm_lock_step)\<^sup>*\<^sup>* spinlock_init s \<and> pc s 3 = Holding \<and>
   (\<forall>u. pc s u = Holding \<longrightarrow> 3 = u \<and> flag s)"
  unfolding Let_def
proof (intro conjI allI impI demo_lock_run)
  fix u
  assume "pc \<lparr>flag = True, pc = (\<lambda>_. Outside)(3 := Holding)\<rparr> u = Holding"
  from spinlock_mutual_exclusion [OF disjI1 [OF demo_lock_run] _ this, of 3]
  show "3 = u" "flag \<lparr>flag = True, pc = (\<lambda>_. Outside)(3 := Holding)\<rparr>" by simp_all
qed simp

text \<open>
  The lock cannot be lost: whenever the flag is set some thread holds the lock and can
  release it, and a thread inside \<^verbatim>\<open>lock\<close> that finds the flag clear holds the lock after at most
  two of its own iterations.
\<close>

lemma spinlock_progress:
  assumes "(lock_run shm_lock_step)\<^sup>*\<^sup>* spinlock_init s"
  shows "(flag s \<longrightarrow> (\<exists>u. pc s u = Holding \<and> \<not> flag (unlock_step u s) \<and> lock_run shm_lock_step s (unlock_step u s))) \<and>
    (\<not> flag s \<longrightarrow> pc s th \<in> {Exchanging, Spinning} \<longrightarrow>
      pc (shm_lock_step th s) th = Holding \<or> pc (shm_lock_step th (shm_lock_step th s)) th = Holding)"
proof -
  have "lock_inv s" using shm_lock.run.inv_reachable [OF refl assms] .
  then obtain u where "flag s \<longrightarrow> pc s u = Holding" by (auto simp: lock_inv_def)
  moreover have "\<not> flag (unlock_step u s)" by (simp add: unlock_step_def unlock_def)
  ultimately show ?thesis using shm_lock.two_iterations [of s th] leave [of s u shm_lock_step] by blast
qed

lemma spinlock_progress_witness:
  "let s = \<lparr>flag = True, pc = (\<lambda>_. Outside)(3 := Holding)\<rparr> in
   (lock_run shm_lock_step)\<^sup>*\<^sup>* spinlock_init s \<and>
   (\<exists>u. pc s u = Holding \<and> \<not> flag (unlock_step u s) \<and> lock_run shm_lock_step s (unlock_step u s))"
  using spinlock_progress [OF demo_lock_run] demo_lock_run by (simp add: Let_def)

text \<open>
  \<^verbatim>\<open>try_lock\<close> never waits: it takes the lock exactly when it was free, and otherwise
  leaves the lock as it was.
\<close>

lemma try_lock_correct:
  "fst (try_lock_step th s) = (\<not> flag s) \<and>
   flag (snd (try_lock_step th s)) \<and>
   (pc (snd (try_lock_step th s)) th = Holding \<longleftrightarrow> \<not> flag s) \<and>
   pc (snd (try_lock_step th s)) = (pc s)(th := pc (snd (try_lock_step th s)) th)"
  by (simp add: try_lock_step_def try_lock_def exchange_def)

end
