(* ===== verification/Prefetch_Worker.thy ===== *)
theory Prefetch_Worker
  imports Prelude
begin

text \<open>
  The background growth worker: the class of \<^verbatim>\<open>include/segmented_interprocess/prefetch_worker.hpp\<close>
  with the method bodies at the end of \<^verbatim>\<open>segmented_segment_manager.hpp\<close>. A critical section of
  \<^verbatim>\<open>queue_lock_\<close>, one atomic access and one operation on a mutex or on the condition variable
  are one step each, so every interleaving of the worker with any number of client threads
  is a run. A step is \<open>None\<close> where the thread would block.
\<close>

section \<open>Definitions\<close>

text \<open>
  Where the worker thread is. From \<open>Pred_queue\<close> to \<open>Blocking\<close> and in \<open>Woken\<close> and
  \<open>Check_queue\<close> it holds \<^verbatim>\<open>sleep_mtx_\<close>; in \<open>Waiting\<close> it is blocked on \<^verbatim>\<open>cv_\<close>.
\<close>

datatype worker_pc =
    No_thread | Loop_top | Growing u64 | Pred_queue | Pred_stop bool | Blocking | Waiting
  | Woken | Check_queue | Exited

datatype client_pc =
    Idle | Unreg_wait u64 | Unreg_count u64 | Stop_notify | Joining | Hint_sleep | Hint_notify

record prefetch_worker =
  mtx :: bool
  active_managers :: nat
  stop :: bool
  queue :: "u64 list"
  working_on :: u64
  worker :: worker_pc
  clients :: "nat \<Rightarrow> client_pc"
  live :: "u64 set"

text \<open>\<open>live\<close> holds the managers between their registration and the start of their destructor.\<close>

definition worker_init :: prefetch_worker where
  "worker_init = \<lparr>mtx = False, active_managers = 0, stop = False, queue = [], working_on = nullptr,
     worker = No_thread, clients = (\<lambda>_. Idle), live = {}\<rparr>"

definition sleep_mtx_held :: "prefetch_worker \<Rightarrow> bool" where
  "sleep_mtx_held s \<longleftrightarrow> (case worker s of
     Pred_queue \<Rightarrow> True | Pred_stop _ \<Rightarrow> True | Blocking \<Rightarrow> True | Woken \<Rightarrow> True | Check_queue \<Rightarrow> True | _ \<Rightarrow> False)"

text \<open>\<^verbatim>\<open>cv_.notify_one()\<close>: a waiting worker wakes and evaluates its predicate again.\<close>

definition notify_one :: "prefetch_worker \<Rightarrow> prefetch_worker" where
  "notify_one s = (if worker s = Waiting then s\<lparr>worker := Pred_queue\<rparr> else s)"

abbreviation goto :: "nat \<Rightarrow> client_pc \<Rightarrow> prefetch_worker \<Rightarrow> prefetch_worker" where
  "goto th p s \<equiv> s\<lparr>clients := (clients s)(th := p)\<rparr>"

subsection \<open>Methods called by managers\<close>

definition register_manager :: "u64 \<Rightarrow> prefetch_worker \<Rightarrow> prefetch_worker option" where
  "register_manager mgr s =
     (if mtx s then None
      else
        let n = active_managers s;
            s = s\<lparr>active_managers := n + 1, live := insert mgr (live s)\<rparr>
        in Some (if n = 0 then s\<lparr>stop := False, worker := Loop_top\<rparr> else s))"

text \<open>\<^verbatim>\<open>unregister_manager\<close>: purge the queue, wait for the worker, count down, stop, join.\<close>

definition unregister_purge :: "nat \<Rightarrow> u64 \<Rightarrow> prefetch_worker \<Rightarrow> prefetch_worker" where
  "unregister_purge th mgr s =
     goto th (Unreg_wait mgr) (s\<lparr>queue := filter (\<lambda>m. m \<noteq> mgr) (queue s), live := live s - {mgr}\<rparr>)"

definition unregister_spin :: "nat \<Rightarrow> u64 \<Rightarrow> prefetch_worker \<Rightarrow> prefetch_worker" where
  "unregister_spin th mgr s = (if working_on s = mgr then s else goto th (Unreg_count mgr) s)"

definition unregister_count :: "nat \<Rightarrow> prefetch_worker \<Rightarrow> prefetch_worker option" where
  "unregister_count th s =
     (if mtx s then None
      else
        let s = s\<lparr>active_managers := active_managers s - 1\<rparr>
        in Some (if active_managers s = 0 then goto th Stop_notify (s\<lparr>mtx := True, stop := True\<rparr>)
                 else goto th Idle s))"

definition unregister_notify :: "nat \<Rightarrow> prefetch_worker \<Rightarrow> prefetch_worker" where
  "unregister_notify th s = goto th Joining (notify_one s)"

definition unregister_join :: "nat \<Rightarrow> prefetch_worker \<Rightarrow> prefetch_worker option" where
  "unregister_join th s =
     (if worker s = Exited then Some (goto th Idle (s\<lparr>worker := No_thread, mtx := False\<rparr>)) else None)"

definition hint_growth :: "nat \<Rightarrow> u64 \<Rightarrow> prefetch_worker \<Rightarrow> prefetch_worker" where
  "hint_growth th mgr s =
     (if queue s \<noteq> [] \<and> last (queue s) = mgr then s
      else goto th Hint_sleep (s\<lparr>queue := queue s @ [mgr]\<rparr>))"

definition hint_sleep :: "nat \<Rightarrow> prefetch_worker \<Rightarrow> prefetch_worker option" where
  "hint_sleep th s = (if sleep_mtx_held s then None else Some (goto th Hint_notify s))"

definition hint_notify :: "nat \<Rightarrow> prefetch_worker \<Rightarrow> prefetch_worker" where
  "hint_notify th s = goto th Idle (notify_one s)"

subsection \<open>The loop of the worker\<close>

definition worker_loop :: "prefetch_worker \<Rightarrow> prefetch_worker option" where
  "worker_loop s =
     (case worker s of
        Loop_top \<Rightarrow>
          Some (case queue s of
                  m # q \<Rightarrow> s\<lparr>queue := q, working_on := m, worker := if m \<noteq> nullptr then Growing m else Pred_queue\<rparr>
                | [] \<Rightarrow> s\<lparr>worker := Pred_queue\<rparr>)
      | Growing m \<Rightarrow> Some (s\<lparr>working_on := nullptr, worker := Loop_top\<rparr>)
      | Pred_queue \<Rightarrow> Some (s\<lparr>worker := Pred_stop (queue s \<noteq> [])\<rparr>)
      | Pred_stop has_work \<Rightarrow> Some (s\<lparr>worker := if stop s \<or> has_work then Woken else Blocking\<rparr>)
      | Blocking \<Rightarrow> Some (s\<lparr>worker := Waiting\<rparr>)
      | Woken \<Rightarrow> Some (s\<lparr>worker := if stop s then Check_queue else Loop_top\<rparr>)
      | Check_queue \<Rightarrow> Some (s\<lparr>worker := if queue s = [] then Exited else Loop_top\<rparr>)
      | _ \<Rightarrow> None)"

subsection \<open>Runs\<close>

text \<open>
  Clients follow the life cycle of a manager: its constructor registers it, its methods hint,
  its destructor unregisters it once, and nothing uses it afterwards.
\<close>

inductive pw_step :: "prefetch_worker \<Rightarrow> prefetch_worker \<Rightarrow> bool" where
  register: "clients s th = Idle \<Longrightarrow> mgr \<noteq> nullptr \<Longrightarrow> mgr \<notin> live s \<Longrightarrow> register_manager mgr s = Some s' \<Longrightarrow> pw_step s s'"
| purge: "clients s th = Idle \<Longrightarrow> mgr \<in> live s \<Longrightarrow> pw_step s (unregister_purge th mgr s)"
| spin: "clients s th = Unreg_wait mgr \<Longrightarrow> pw_step s (unregister_spin th mgr s)"
| countdown: "clients s th = Unreg_count mgr \<Longrightarrow> unregister_count th s = Some s' \<Longrightarrow> pw_step s s'"
| stop_notify: "clients s th = Stop_notify \<Longrightarrow> pw_step s (unregister_notify th s)"
| join: "clients s th = Joining \<Longrightarrow> unregister_join th s = Some s' \<Longrightarrow> pw_step s s'"
| hint: "clients s th = Idle \<Longrightarrow> mgr \<in> live s \<Longrightarrow> pw_step s (hint_growth th mgr s)"
| hint_lock: "clients s th = Hint_sleep \<Longrightarrow> hint_sleep th s = Some s' \<Longrightarrow> pw_step s s'"
| hint_wake: "clients s th = Hint_notify \<Longrightarrow> pw_step s (hint_notify th s)"
| work: "worker_loop s = Some s' \<Longrightarrow> pw_step s s'"

subsection \<open>Invariant\<close>

definition unregistering :: "prefetch_worker \<Rightarrow> nat set" where
  "unregistering s = {th. \<exists>m. clients s th = Unreg_wait m \<or> clients s th = Unreg_count m}"

definition stopper :: "prefetch_worker \<Rightarrow> nat \<Rightarrow> bool" where
  "stopper s th \<longleftrightarrow> clients s th = Stop_notify \<or> clients s th = Joining"

definition some_at :: "(nat \<Rightarrow> client_pc) \<Rightarrow> client_pc \<Rightarrow> bool" where
  "some_at cs p \<longleftrightarrow> (\<exists>th. cs th = p)"

text \<open>The worker touches only managers whose unregistration has not returned.\<close>

definition safe_inv :: "prefetch_worker \<Rightarrow> bool" where
  "safe_inv s \<longleftrightarrow> set (queue s) \<subseteq> live s \<and> nullptr \<notin> live s \<and>
     (\<forall>m. worker s = Growing m \<longrightarrow> working_on s = m \<and> (m \<in> live s \<or> some_at (clients s) (Unreg_wait m)))"

text \<open>No wake-up of a hint is lost.\<close>

definition wake_inv :: "prefetch_worker \<Rightarrow> bool" where
  "wake_inv s \<longleftrightarrow> (queue s \<noteq> [] \<longrightarrow>
     (worker s = Pred_stop False \<or> worker s = Blocking \<longrightarrow> some_at (clients s) Hint_sleep) \<and>
     (worker s = Waiting \<longrightarrow> some_at (clients s) Hint_sleep \<or> some_at (clients s) Hint_notify))"

text \<open>The count of managers, the stop flag and the life of the thread agree.\<close>

definition count_inv :: "prefetch_worker \<Rightarrow> bool" where
  "count_inv s \<longleftrightarrow> finite (live s) \<and> finite (unregistering s) \<and>
     active_managers s = card (live s) + card (unregistering s)"

definition life_inv :: "prefetch_worker \<Rightarrow> bool" where
  "life_inv s \<longleftrightarrow>
     (mtx s \<longleftrightarrow> (\<exists>th. stopper s th)) \<and>
     (\<forall>t u. stopper s t \<longrightarrow> stopper s u \<longrightarrow> t = u) \<and>
     (mtx s \<longrightarrow> active_managers s = 0 \<and> stop s \<and> worker s \<noteq> No_thread) \<and>
     (\<not> mtx s \<longrightarrow> (active_managers s = 0 \<longleftrightarrow> worker s = No_thread) \<and> (active_managers s > 0 \<longrightarrow> \<not> stop s)) \<and>
     (worker s = Check_queue \<or> worker s = Exited \<longrightarrow> mtx s)"

definition pw_inv :: "prefetch_worker \<Rightarrow> bool" where
  "pw_inv s \<longleftrightarrow> safe_inv s \<and> wake_inv s \<and> count_inv s \<and> life_inv s"

section \<open>The invariant holds\<close>

lemmas pw_defs = register_manager_def unregister_purge_def unregister_spin_def unregister_count_def
  unregister_notify_def unregister_join_def hint_growth_def hint_sleep_def hint_notify_def notify_one_def
  Let_def

text \<open>A thread that moves on from a place other than the given one leaves those who are there.\<close>

lemma some_at_here [simp]: "some_at (cs(th := p)) p"
  by (auto simp: some_at_def)

lemma some_at_upd [simp]: "q \<noteq> p \<Longrightarrow> cs th \<noteq> p \<Longrightarrow> some_at (cs(th := q)) p = some_at cs p"
  unfolding some_at_def by (metis fun_upd_apply)

lemma safe_step:
  assumes inv: "safe_inv s" and step: "pw_step s s'"
  shows "safe_inv s'"
  using step
proof cases
  case (purge th mgr)
  have "m \<in> live s - {mgr} \<or> some_at ((clients s)(th := Unreg_wait mgr)) (Unreg_wait m)"
    if "worker s = Growing m" for m
    using inv that purge(2) by (cases "m = mgr") (auto simp: safe_inv_def)
  then show ?thesis using inv purge by (auto simp: safe_inv_def pw_defs)
next
  case (spin th mgr)
  then show ?thesis using inv by (auto simp: safe_inv_def pw_defs)
next
  case work
  then show ?thesis
    using inv by (cases "worker s") (auto simp: safe_inv_def worker_loop_def split: list.splits if_splits)
qed (use inv in \<open>auto simp: safe_inv_def pw_defs split: if_splits\<close>)

lemma wake_step:
  assumes inv: "wake_inv s" and step: "pw_step s s'"
  shows "wake_inv s'"
  using step
proof cases
  case (purge th mgr)
  then show ?thesis using inv by (cases "queue s = []") (auto simp: wake_inv_def pw_defs)
next
  case (hint_lock th)
  then have "\<not> sleep_mtx_held s" "s' = goto th Hint_notify s" by (auto simp: hint_sleep_def split: if_splits)
  then show ?thesis using inv by (auto simp: wake_inv_def sleep_mtx_held_def)
next
  case work
  then show ?thesis
    using inv by (cases "worker s") (auto simp: wake_inv_def worker_loop_def split: list.splits if_splits)
qed (use inv in \<open>auto simp: wake_inv_def pw_defs split: if_splits\<close>)

text \<open>
  Who unregisters and who stops depends on the places of the clients only. Six of the ten steps
  are calm: they change neither, nor the count, the flag, the mutex or the life of the thread.
\<close>

definition calm :: "prefetch_worker \<Rightarrow> prefetch_worker \<Rightarrow> bool" where
  "calm s s' \<longleftrightarrow> unregistering s' = unregistering s \<and> stopper s' = stopper s \<and> live s' = live s \<and> mtx s' = mtx s \<and>
     active_managers s' = active_managers s \<and> stop s' = stop s \<and>
     (worker s' = No_thread \<longleftrightarrow> worker s = No_thread) \<and>
     (worker s' = Check_queue \<or> worker s' = Exited \<longrightarrow> stop s \<or> worker s' = worker s \<or> worker s = Check_queue)"

lemma calm_refl [simp]: "calm s s"
  by (simp add: calm_def)

lemma calm_goto:
  assumes "clients s' = (clients s)(th := p)" "live s' = live s" "mtx s' = mtx s" "stop s' = stop s"
    "active_managers s' = active_managers s" "worker s' = worker s \<or> worker s' = Pred_queue \<and> worker s = Waiting"
    and "(\<exists>m. clients s th = Unreg_wait m \<or> clients s th = Unreg_count m) \<longleftrightarrow> (\<exists>m. p = Unreg_wait m \<or> p = Unreg_count m)"
    and "stopper s th \<longleftrightarrow> p = Stop_notify \<or> p = Joining"
  shows "calm s s'"
  using assms by (auto simp: calm_def unregistering_def stopper_def fun_eq_iff)

lemma worker_loop_calm: "worker_loop s = Some s' \<Longrightarrow> calm s s'"
  by (auto simp: calm_def worker_loop_def unregistering_def stopper_def fun_eq_iff
      split: worker_pc.splits list.splits if_splits)

lemma calm_step:
  assumes "pw_step s s'"
  obtains (calm) "calm s s'"
    | (register) th mgr where "clients s th = Idle" "mgr \<notin> live s" "register_manager mgr s = Some s'"
    | (purge) th mgr where "clients s th = Idle" "mgr \<in> live s" "s' = unregister_purge th mgr s"
    | (countdown) th mgr where "clients s th = Unreg_count mgr" "unregister_count th s = Some s'"
    | (join) th where "clients s th = Joining" "unregister_join th s = Some s'"
  using assms
proof cases
  case (spin th mgr)
  have "calm s s'" unfolding spin(1)
    by (cases "working_on s = mgr")
      (simp_all add: unregister_spin_def calm_goto [where th = th and p = "Unreg_count mgr"] spin(2) stopper_def)
  then show thesis by (rule that)
next
  case (stop_notify th)
  then have "calm s s'"
    by (intro calm_goto [where th = th and p = Joining]) (simp_all add: unregister_notify_def notify_one_def stopper_def)
  then show thesis by (rule that)
next
  case (hint th mgr)
  have "calm s s'" unfolding hint(1)
    by (cases "queue s \<noteq> [] \<and> last (queue s) = mgr")
      (auto simp: hint_growth_def hint(2) stopper_def intro!: calm_goto [where th = th and p = Hint_sleep])
  then show thesis by (rule that)
next
  case (hint_lock th)
  then have "calm s s'"
    by (intro calm_goto [where th = th and p = Hint_notify]) (auto simp: hint_sleep_def stopper_def split: if_splits)
  then show thesis by (rule that)
next
  case (hint_wake th)
  then have "calm s s'"
    by (intro calm_goto [where th = th and p = Idle]) (simp_all add: hint_notify_def notify_one_def stopper_def)
  then show thesis by (rule that)
qed (use that worker_loop_calm in blast)+

lemma count_step:
  assumes inv: "count_inv s" and step: "pw_step s s'"
  shows "count_inv s'"
  using step
proof (cases rule: calm_step)
  case calm
  then show ?thesis using inv by (simp add: count_inv_def calm_def)
next
  case (register th mgr)
  have "unregistering s' = unregistering s" "live s' = insert mgr (live s)"
    "active_managers s' = active_managers s + 1"
    using register(3) by (auto simp: register_manager_def unregistering_def Let_def split: if_splits)
  then show ?thesis using inv register(2) by (simp add: count_inv_def)
next
  case (purge th mgr)
  have "unregistering s' = insert th (unregistering s)" "th \<notin> unregistering s"
    "live s' = live s - {mgr}" "active_managers s' = active_managers s"
    using purge by (auto simp: unregister_purge_def unregistering_def)
  moreover have "card (live s) = Suc (card (live s - {mgr}))"
    using inv purge(2) unfolding count_inv_def by (metis card_Suc_Diff1)
  ultimately show ?thesis using inv by (simp add: count_inv_def)
next
  case (countdown th mgr)
  have u: "unregistering s' = unregistering s - {th}" "th \<in> unregistering s" "live s' = live s"
    "active_managers s' = active_managers s - 1"
    using countdown by (auto simp: unregister_count_def unregistering_def Let_def split: if_splits)
  moreover have "card (unregistering s) = Suc (card (unregistering s - {th}))"
    using inv u(2) unfolding count_inv_def by (metis card_Suc_Diff1)
  ultimately show ?thesis using inv by (simp add: count_inv_def)
next
  case (join th)
  have "unregistering s' = unregistering s" "live s' = live s" "active_managers s' = active_managers s"
    using join by (auto simp: unregister_join_def unregistering_def split: if_splits)
  then show ?thesis using inv by (simp add: count_inv_def)
qed

lemma life_same:
  "stopper s' = stopper s \<Longrightarrow> mtx s' = mtx s \<Longrightarrow> active_managers s' = active_managers s \<Longrightarrow>
   stop s' = stop s \<Longrightarrow> worker s' = worker s \<Longrightarrow> life_inv s' = life_inv s"
  by (simp add: life_inv_def)

lemma life_countdown:
  assumes inv: "life_inv s" and pos: "active_managers s > 0" and step: "unregister_count th s = Some s'"
  shows "life_inv s'"
proof -
  have m: "\<not> mtx s" using step by (auto simp: unregister_count_def)
  then have ns: "\<not> stopper s u" for u using inv by (simp add: life_inv_def)
  have alive: "worker s \<noteq> No_thread" "\<not> stop s" "worker s \<noteq> Check_queue" "worker s \<noteq> Exited"
    using inv m pos by (auto simp: life_inv_def)
  show ?thesis
  proof (cases "active_managers s = 1")
    case True
    then have s': "s' = goto th Stop_notify (s\<lparr>active_managers := 0, mtx := True, stop := True\<rparr>)"
      using step m by (simp add: unregister_count_def Let_def)
    have "stopper s' u \<longleftrightarrow> u = th" for u using ns [of u] by (auto simp: stopper_def s')
    then show ?thesis using alive by (simp add: life_inv_def) (simp add: s')
  next
    case False
    then have s': "s' = goto th Idle (s\<lparr>active_managers := active_managers s - 1\<rparr>)"
      using step m pos by (simp add: unregister_count_def Let_def)
    have "\<not> stopper s' u" for u using ns [of u] by (simp add: stopper_def s')
    then show ?thesis using alive m pos False by (simp add: life_inv_def) (simp add: s')
  qed
qed

lemma life_step:
  assumes inv: "life_inv s" and step: "pw_step s s'" and cnt: "count_inv s"
  shows "life_inv s'"
  using step
proof (cases rule: calm_step)
  case calm
  have "stop s \<longrightarrow> worker s \<noteq> No_thread \<longrightarrow> mtx s" "worker s = Check_queue \<or> worker s = Exited \<longrightarrow> mtx s"
    using inv by (auto simp: life_inv_def)
  then have "worker s' = Check_queue \<or> worker s' = Exited \<longrightarrow> mtx s" using calm unfolding calm_def by metis
  then show ?thesis using inv calm by (simp add: life_inv_def calm_def)
next
  case (register th mgr)
  have "stopper s' = stopper s" "\<not> mtx s" "\<not> mtx s'" "active_managers s' = active_managers s + 1"
    "active_managers s = 0 \<longrightarrow> worker s' = Loop_top \<and> \<not> stop s'"
    "active_managers s > 0 \<longrightarrow> worker s' = worker s \<and> stop s' = stop s"
    using register(3) by (auto simp: register_manager_def stopper_def Let_def fun_eq_iff split: if_splits)
  then show ?thesis using inv by (cases "active_managers s = 0") (simp_all add: life_inv_def)
next
  case (purge th mgr)
  have "stopper s' = stopper s" using purge by (auto simp: unregister_purge_def stopper_def fun_eq_iff)
  moreover have "mtx s' = mtx s" "active_managers s' = active_managers s" "stop s' = stop s" "worker s' = worker s"
    using purge(3) by (simp_all add: unregister_purge_def)
  ultimately show ?thesis using inv life_same [of s' s] by simp
next
  case (countdown th mgr)
  have "th \<in> unregistering s" using countdown(1) by (auto simp: unregistering_def)
  then have "active_managers s > 0" using cnt by (auto simp: count_inv_def card_gt_0_iff)
  then show ?thesis using life_countdown [OF inv] countdown(2) by blast
next
  case (join th)
  then have s': "s' = goto th Idle (s\<lparr>worker := No_thread, mtx := False\<rparr>)"
    by (simp add: unregister_join_def split: if_splits)
  have "stopper s th" using join(1) by (simp add: stopper_def)
  then have "\<not> stopper s' u" "active_managers s = 0" for u
    using inv by (auto simp: life_inv_def stopper_def s')
  then show ?thesis by (simp add: life_inv_def) (simp add: s')
qed

interpretation pw: stepper "\<lambda>s. s = worker_init" pw_step pw_inv
proof
  show "pw_inv s" if "s = worker_init" for s
    using that by (simp add: pw_inv_def safe_inv_def wake_inv_def count_inv_def life_inv_def worker_init_def
        unregistering_def stopper_def)
  show "pw_inv s'" if i: "pw_inv s" and st: "pw_step s s'" for s s'
    using i safe_step [OF _ st] wake_step [OF _ st] count_step [OF _ st] life_step [OF _ st]
    unfolding pw_inv_def by blast
qed

section \<open>Properties\<close>

text \<open>
  C36: Once \<^verbatim>\<open>unregister_manager\<close> has passed its wait, the worker never touches the manager again:
  in every reachable state the manager the worker is growing is registered, or its
  unregistration is still waiting for the worker, and only registered managers are queued.
\<close>

theorem worker_touches_only_live_managers:
  assumes "pw_step\<^sup>*\<^sup>* worker_init s" "m \<notin> live s" "\<And>th. clients s th \<noteq> Unreg_wait m"
  shows "worker s \<noteq> Growing m \<and> m \<notin> set (queue s)"
proof -
  have "pw_inv s" using pw.inv_reachable [OF refl assms(1)] .
  then show ?thesis using assms(2,3) by (auto simp: pw_inv_def safe_inv_def some_at_def)
qed

text \<open>
  C37: A hint is never lost: if the worker sleeps while managers are queued, some thread is
  still on its way to wake it, is not blocked, and wakes it within two of its steps.
\<close>

theorem hint_wakes_worker:
  assumes "pw_step\<^sup>*\<^sup>* worker_init s" "queue s \<noteq> []" "worker s = Waiting"
  shows "\<exists>s' s''. (s' = s \<or> pw_step s s') \<and> pw_step s' s'' \<and> worker s'' = Pred_queue \<and> queue s'' = queue s"
proof -
  have "pw_inv s" using pw.inv_reachable [OF refl assms(1)] .
  then obtain th where "clients s th = Hint_notify \<or> clients s th = Hint_sleep"
    using assms(2,3) by (auto simp: pw_inv_def wake_inv_def some_at_def)
  then show ?thesis
  proof
    assume "clients s th = Hint_notify"
    then have "pw_step s (hint_notify th s)" by (rule hint_wake)
    then show ?thesis
      using assms(3) by (intro exI [of _ s] exI [of _ "hint_notify th s"])
        (simp add: hint_notify_def notify_one_def)
  next
    assume a: "clients s th = Hint_sleep"
    have e: "hint_sleep th s = Some (goto th Hint_notify s)"
      using assms(3) by (simp add: hint_sleep_def sleep_mtx_held_def)
    have "pw_step s (goto th Hint_notify s)" by (rule hint_lock [OF a e])
    moreover have "pw_step (goto th Hint_notify s) (hint_notify th (goto th Hint_notify s))"
      by (rule hint_wake) simp
    ultimately show ?thesis
      using assms(3) by (intro exI [of _ "goto th Hint_notify s"]
          exI [of _ "hint_notify th (goto th Hint_notify s)"]) (simp add: hint_notify_def notify_one_def)
  qed
qed

text \<open>
  The worker thread runs exactly as long as it is needed: while a manager is registered the
  thread exists, has not exited and has not been told to stop; and the count of managers
  never falls below zero.
\<close>

lemma worker_alive_while_managed:
  assumes "pw_step\<^sup>*\<^sup>* worker_init s"
  shows "(live s \<noteq> {} \<longrightarrow> worker s \<noteq> No_thread \<and> worker s \<noteq> Exited \<and> \<not> stop s) \<and>
    (\<forall>th m. clients s th = Unreg_count m \<longrightarrow> active_managers s > 0)"
proof (intro conjI impI allI)
  have inv: "pw_inv s" using pw.inv_reachable [OF refl assms] .
  show "active_managers s > 0" if a: "clients s th = Unreg_count m" for th m
  proof -
    have "th \<in> unregistering s" using a by (auto simp: unregistering_def)
    then show ?thesis using inv by (auto simp: pw_inv_def count_inv_def card_gt_0_iff)
  qed
  assume "live s \<noteq> {}"
  then have "active_managers s > 0" using inv by (auto simp: pw_inv_def count_inv_def card_gt_0_iff)
  with inv show "worker s \<noteq> No_thread" "worker s \<noteq> Exited" "\<not> stop s"
    by (auto simp: pw_inv_def life_inv_def)
qed

subsection \<open>A run that ends in a deadlock\<close>

lemma pw_two: "pw_step\<^sup>*\<^sup>* s t \<Longrightarrow> pw_step t u \<Longrightarrow> pw_step\<^sup>*\<^sup>* s u"
  by (rule rtranclp.rtrancl_into_rtrancl)

definition pw_state :: "worker_pc \<Rightarrow> client_pc \<Rightarrow> u64 list \<Rightarrow> u64 set \<Rightarrow> nat \<Rightarrow> bool \<Rightarrow> prefetch_worker" where
  "pw_state wk cp q lv n st = \<lparr>mtx = st, active_managers = n, stop = st, queue = q, working_on = nullptr,
     worker = wk, clients = (\<lambda>_. Idle)(0 := cp), live = lv\<rparr>"

lemma run_to_blocking: "pw_step\<^sup>*\<^sup>* worker_init (pw_state Blocking Idle [] {8} 1 False)"
proof -
  have "pw_step worker_init (pw_state Loop_top Idle [] {8} 1 False)"
    by (rule pw_step.register [of _ 0 8]) (simp_all add: worker_init_def register_manager_def pw_state_def fun_eq_iff)
  moreover have "pw_step (pw_state Loop_top Idle [] {8} 1 False) (pw_state Pred_queue Idle [] {8} 1 False)"
    by (rule work) (simp add: worker_loop_def pw_state_def)
  moreover have "pw_step (pw_state Pred_queue Idle [] {8} 1 False) (pw_state (Pred_stop False) Idle [] {8} 1 False)"
    by (rule work) (simp add: worker_loop_def pw_state_def)
  moreover have "pw_step (pw_state (Pred_stop False) Idle [] {8} 1 False) (pw_state Blocking Idle [] {8} 1 False)"
    by (rule work) (simp add: worker_loop_def pw_state_def)
  ultimately show ?thesis by (meson converse_rtranclp_into_rtranclp rtranclp.rtrancl_refl)
qed

lemma run_to_deadlock: "pw_step\<^sup>*\<^sup>* worker_init (pw_state Waiting Joining [] {} 0 True)"
proof -
  have "pw_step (pw_state Blocking Idle [] {8} 1 False) (pw_state Blocking (Unreg_wait 8) [] {} 1 False)"
    using purge [of "pw_state Blocking Idle [] {8} 1 False" 0 8] by (simp add: unregister_purge_def pw_state_def)
  moreover have "pw_step (pw_state Blocking (Unreg_wait 8) [] {} 1 False) (pw_state Blocking (Unreg_count 8) [] {} 1 False)"
    using spin [of "pw_state Blocking (Unreg_wait 8) [] {} 1 False" 0 8] by (simp add: unregister_spin_def pw_state_def)
  moreover have "pw_step (pw_state Blocking (Unreg_count 8) [] {} 1 False) (pw_state Blocking Stop_notify [] {} 0 True)"
    by (rule countdown [of _ 0 8]) (simp_all add: unregister_count_def pw_state_def)
  moreover have "pw_step (pw_state Blocking Stop_notify [] {} 0 True) (pw_state Blocking Joining [] {} 0 True)"
    using stop_notify [of "pw_state Blocking Stop_notify [] {} 0 True" 0]
    by (simp add: unregister_notify_def notify_one_def pw_state_def)
  moreover have "pw_step (pw_state Blocking Joining [] {} 0 True) (pw_state Waiting Joining [] {} 0 True)"
    by (rule work) (simp add: worker_loop_def pw_state_def)
  ultimately show ?thesis using run_to_blocking by (meson pw_two)
qed

text \<open>
  C38: \<^verbatim>\<open>unregister_manager\<close> can deadlock: because it sets \<^verbatim>\<open>stop_\<close> and notifies without \<^verbatim>\<open>sleep_mtx_\<close>,
  its notification can fall between the worker's test of the predicate and its wait. A
  reachable state has the destructor of the last manager blocked in \<^verbatim>\<open>join\<close>, the worker asleep
  although \<^verbatim>\<open>stop_\<close> is set, and no thread able to take a step.
\<close>

theorem unregister_can_deadlock:
  "\<exists>s. pw_step\<^sup>*\<^sup>* worker_init s \<and> clients s 0 = Joining \<and> worker s = Waiting \<and> stop s \<and> (\<forall>s'. \<not> pw_step s s')"
proof (intro exI conjI)
  let ?s = "pw_state Waiting Joining [] {} 0 True"
  show "pw_step\<^sup>*\<^sup>* worker_init ?s" by (rule run_to_deadlock)
  have cl: "clients ?s th = (if th = 0 then Joining else Idle)" for th by (simp add: pw_state_def)
  have "\<not> pw_step ?s s'" for s'
  proof
    assume "pw_step ?s s'"
    then show False
      by cases (auto simp: cl pw_state_def register_manager_def unregister_join_def worker_loop_def split: if_splits)
  qed
  then show "\<forall>s'. \<not> pw_step ?s s'" by blast
qed (simp_all add: pw_state_def)

subsection \<open>Witnesses\<close>

theorem worker_touches_only_live_managers_witness:
  "\<exists>s. pw_step\<^sup>*\<^sup>* worker_init s \<and> 8 \<notin> live s \<and> (\<forall>th. clients s th \<noteq> Unreg_wait 8) \<and>
     worker s \<noteq> Growing 8 \<and> 8 \<notin> set (queue s)"
proof -
  let ?s = "pw_state Waiting Joining [] {} 0 True"
  have "8 \<notin> live ?s" "\<And>th. clients ?s th \<noteq> Unreg_wait 8" by (simp_all add: pw_state_def)
  with worker_touches_only_live_managers [OF run_to_deadlock this] run_to_deadlock show ?thesis by blast
qed

lemma worker_alive_while_managed_witness:
  "\<exists>s. pw_step\<^sup>*\<^sup>* worker_init s \<and> live s \<noteq> {} \<and> worker s \<noteq> No_thread \<and> worker s \<noteq> Exited \<and> \<not> stop s"
proof -
  have "live (pw_state Blocking Idle [] {8} 1 False) \<noteq> {}" by (simp add: pw_state_def)
  then show ?thesis using worker_alive_while_managed [OF run_to_blocking] run_to_blocking by blast
qed

theorem hint_wakes_worker_witness:
  "\<exists>s s' s''. pw_step\<^sup>*\<^sup>* worker_init s \<and> queue s = [8] \<and> worker s = Waiting \<and>
     (s' = s \<or> pw_step s s') \<and> pw_step s' s'' \<and> worker s'' = Pred_queue \<and> queue s'' = [8]"
proof -
  let ?s = "pw_state Waiting Hint_sleep [8] {8} 1 False"
  have "pw_step (pw_state Blocking Idle [] {8} 1 False) (pw_state Blocking Hint_sleep [8] {8} 1 False)"
    using hint [of "pw_state Blocking Idle [] {8} 1 False" 0 8] by (simp add: hint_growth_def pw_state_def)
  moreover have "pw_step (pw_state Blocking Hint_sleep [8] {8} 1 False) ?s"
    by (rule work) (simp add: worker_loop_def pw_state_def)
  ultimately have r: "pw_step\<^sup>*\<^sup>* worker_init ?s" using run_to_blocking by (meson pw_two)
  have q: "queue ?s = [8]" "worker ?s = Waiting" by (simp_all add: pw_state_def)
  then show ?thesis using hint_wakes_worker [OF r _ q(2)] r by (metis list.distinct(1))
qed

end
