(* ===== verification/Spec2Isabelle.thy ===== *)
theory Spec2Isabelle
  imports Managed_Memory Named_Objects World_Reach Growth_Race Trie_Concurrent Platform_Windows Shm_Spinlock Prefetch_Worker
begin

text \<open>
  Memnon is a header-only C++ library for memory that grows: a manager owns several segments,
  anonymous or chunks of one shared object, each with a Boost.Interprocess segment manager in it,
  and pointers stored in that memory mean the same in every process. All of the library, the
  headers in \<^verbatim>\<open>src/include/segmented_interprocess/\<close>, is modelled.
\<close>

section \<open>The program\<close>

text \<open>
  From the bottom to the top:

  \<^item> \<^verbatim>\<open>detail/platform.hpp\<close> asks the operating system for memory: \<^verbatim>\<open>mmap\<close> of anonymous memory and of
    files in \<^verbatim>\<open>/dev/shm\<close>, on Windows views of a sparse file.
  \<^item> \<^verbatim>\<open>ncrit_trie.hpp\<close> maps page numbers to descriptors in a lock-free radix trie, with a
    thread-local cache in front of it.
  \<^item> \<^verbatim>\<open>sub_segment.hpp\<close> is the descriptor of one mapping and the layout of the table at the start
    of a shared object; \<^verbatim>\<open>segment_registry.hpp\<close> is the process-wide trie of descriptors.
  \<^item> \<^verbatim>\<open>segmented_segment_manager.hpp\<close> opens, grows and closes lists of segments, allocates raw
    blocks and named objects in them, and discovers segments that other processes have added.
    Its worker thread (\<^verbatim>\<open>prefetch_worker.hpp\<close>) grows managers in the background; the locks are
    \<^verbatim>\<open>detail::spinlock\<close> and \<^verbatim>\<open>shm_spinlock.hpp\<close>.
  \<^item> \<^verbatim>\<open>segmented_offset_ptr.hpp\<close> is the pointer: an offset that is resolved through the registry and
    the manager. \<^verbatim>\<open>segmented_allocator.hpp\<close> and \<^verbatim>\<open>segmented_managed_memory.hpp\<close> are what users see.
\<close>

section \<open>The model\<close>

text \<open>
  The state of one process and of the shared objects it sees is the record \<open>world\<close> of
  \<open>Segment_Manager\<close>: the \<open>process\<close> (trie, caches of all threads, heap of descriptors), the managers
  by address, the Boost managers by the place of their bytes (private, or in a shared object, so
  that two mappings of one chunk are one manager), the segment tables by object, the history of
  system calls and the calls made to the worker. An operation is a function from the world to a
  result and a world; None is undefined behaviour, \<open>Inl x\<close> an exception \<open>x\<close>, and \<open>Inl Terminate\<close>
  the end of the process by an exception that leaves a \<^verbatim>\<open>noexcept\<close> function. Addresses, sizes and
  offsets are 64-bit words that wrap around.

  Definitions, by theory:

  \<^item> \<open>Platform\<close>, \<open>Platform_Windows\<close>: \<^verbatim>\<open>detail/platform.hpp\<close>. A history of system calls is the state; the
    kernel answers each call from the history.
  \<^item> \<open>Ncrit_Trie\<close>: the trie on an explicit heap of nodes. \<open>Tls_Cache\<close>: the cache, its replacement and
    \<^verbatim>\<open>lookup\<close>. The cache of a thread is an argument.
    \<open>Trie_Concurrent\<close>: its operations once more, one atomic access per step, for threads that interleave.
  \<^item> \<open>Sub_Segment\<close>: descriptors, their factories and destructor, the table.
  \<^item> \<open>Segment_Registry\<close>: registration, removal and lookup, as a state machine of a whole process.
  \<^item> \<open>Segment_Manager\<close>: every operation of the manager.
  \<^item> \<open>Offset_Ptr\<close>: \<^verbatim>\<open>get\<close>, \<^verbatim>\<open>set\<close>, construction, assignment, casts, arithmetic and comparison.
  \<^item> \<open>Managed_Memory\<close>: the allocator and the facade.
  \<^item> \<open>Shm_Spinlock\<close>, \<open>Prefetch_Worker\<close>: the atomic accesses of the locks, of the clients of the worker
    and of its loop, as steps that threads interleave.
\<close>

section \<open>What is relied on\<close>

text \<open>
  Code outside the repository is a parameter with its documented behaviour as a named hypothesis:

  \<^item> the kernel (\<open>mmap_ok\<close>): a mapping is not empty, lies below \<open>2^47\<close> and shares no page with a live one;
  \<^item> \<^verbatim>\<open>operator new\<close> for descriptors (\<open>new_ok\<close>, part of \<open>env_ok\<close>): null, or a free even address that no
    cache holds. The last part is not a promise of the allocator: an address that a thread's cache
    still names may be handed out again. The theorems over \<open>env_ok\<close> exclude that,
    \<open>descriptor_reuse_misleads_cache\<close> shows what happens then, and \<open>find_sound\<close> says for the registry
    what is left when any address may be reused (\<open>reg_call\<close>);
  \<^item> \<^verbatim>\<open>new(std::nothrow)\<close> for nodes of the trie (\<open>alloc_ok\<close>): null, or memory that is not in use.
    That it does not run out (\<open>alloc_total\<close>) is part of \<open>trie_ready\<close> and of \<open>env_ok\<close>, because a failed insertion
    is not reported and leaves a segment unregistered. \<open>insert_leaf_correct\<close>, \<open>insert_range_correct\<close>,
    \<open>find_sound\<close> and the theorems of \<open>Trie_Concurrent\<close> do without it;
  \<^item> Boost's segment manager (\<open>boost_laws\<close>, \<open>boost_names\<close>): blocks and named objects lie inside the
    region, new blocks are apart from live ones, names are unique in one segment; nothing is assumed of what its
    destructor leaves. Its \<^verbatim>\<open>construct\<close> may return an object, return null, throw \<^verbatim>\<open>bad_alloc\<close> or throw
    anything else (\<open>construct_result\<close>); that it throws for a name in use and never returns null is the
    hypothesis \<open>boost_throws\<close> of the one theorem that needs it;
  \<^item> the trie (\<open>params_ok\<close>, \<open>env_ok\<close>): page size and levels cover the user address space;
  \<^item> pointers (\<open>storable\<close>): what is stored is in reach of the pointer, and not the one address that
    the encoding maps to the null sentinel (\<open>hits_sentinel\<close>); \<open>next_byte_reads_back_as_null\<close> is that case.

  \<open>Demo_World\<close> and \<open>Demo_Growth\<close> build an environment that satisfies all of them, with a bump allocator
  for Boost, and the worlds in which the witnesses evaluate the code.
\<close>

section \<open>What is proved\<close>

text \<open>
  \<^item> \<open>World_Steps\<close>, \<open>Manager_Inv\<close>, \<open>Manager_Layout\<close>, \<open>Manager_Ops\<close>, \<open>Manager_Life\<close>: the invariant of a world
    (\<open>world_inv\<close>), the layout of a shared object and what every operation does to them.
    \<open>World_Reach\<close> closes the invariant under the calls of all threads, whether they return or throw, and
    all interference of other processes; the exception is an opening constructor that throws after it has
    registered a descriptor (\<open>leaves_entries\<close>), which destroys the invariant
    (\<open>failed_open_leaves_dangling_entry\<close>). \<open>Manager_Props\<close> states construction, opening, growth and destruction, \<open>Growth_Race\<close>
    what happens when a discovery falls between the critical sections of a growth.
  \<^item> \<open>Block_Heap\<close> is the interface of a heap of blocks; \<open>Manager_Heap\<close> interprets it on \<^verbatim>\<open>allocate\<close> and
    \<^verbatim>\<open>deallocate\<close>. \<open>Named_Objects\<close> does the same for the table of names. Both lift what Boost promises of
    one segment to the manager, across growth.
  \<^item> \<open>Segment_Lookup\<close> and \<open>Offset_Ptr\<close>: a pointer reads back as what it was set to, and an offset means
    the same byte of the object in every process. Lookups are exact for threads without a stale cache
    entry (\<open>no_stale\<close>); a stale entry is one of the defects below.
  \<^item> \<open>Ncrit_Trie\<close>, \<open>Tls_Cache\<close>, \<open>Segment_Registry\<close>: the trie refines a map from pages to values, through
    the locale \<open>page_table\<close>; the cached lookup is sound. \<open>Trie_Concurrent\<close>: under every interleaving the trie
    is a linearizable map (locale \<open>atomic_object\<close>), leaks no node and is wait-free; a thread that runs
    alone does what the sequential definition computes (\<open>alone_insert_leaf\<close>).
  \<^item> \<open>Shm_Spinlock\<close>, \<open>Prefetch_Worker\<close>: mutual exclusion, no use of a manager after its end, no lost hint.
  \<^item> \<open>Platform_Windows\<close>: the locale \<open>shm_layer\<close>, all or nothing and no leak on any path, is met by both
    branches of the platform layer.

  Where the code goes wrong, a theorem states how: stale entries hide mappings, growth overwrites
  chunks it has not discovered or that are discovered too late, closing a manager destroys the Boost
  managers of a shared object under the processes that still use them, a failed opening leaves dangling
  registry entries, the worker can miss the stop notification, sizes wrap in the allocator, long names are not unlinked, the address
  after a pointer reads back as null, and names can be duplicated across segments.

  The recursions are structural, over lists of segments or of pages, or end by a measure; the
  recursion over the levels of the trie counts down from \<^verbatim>\<open>Levels\<close>. There is no fuel.
\<close>

section \<open>Not modelled\<close>

text \<open>
  \<^item> Weak memory: the atomics of the trie and of the locks are sequentially consistent. Inside
    the trie threads interleave by atomic accesses, elsewhere by critical sections (\<open>api_step\<close>): a call to
    the registry, with its cache, is one step there.
  \<^item> Inodes: a shared object is its path. Creating an object unlinks the old one of that name; in the
    model the new object replaces it at once, also for processes that still map it, while they would
    keep the old one.
  \<^item> Spurious wake-ups of the condition variable of the worker.
  \<^item> The bytes of user objects: constructors and destructors that Boost or the allocator's
    \<^verbatim>\<open>construct\<close> and \<^verbatim>\<open>destroy\<close> run in place, and the alignment of blocks.
  \<^item> Type-level code: traits and rebinding templates, the friend declarations for Boost.Intrusive, and
    offset types other than the default. Casts between base and derived classes are a parameter.
  \<^item> Assertions, which are disabled in the release build, console output, null names, and failures of
    \<^verbatim>\<open>std::string\<close> and \<^verbatim>\<open>std::vector\<close> to allocate, except for the paths of the Windows branch.
  \<^item> The umbrella header, the tests and the benchmarks.
\<close>

end
